(* ===== verification/Go_Prelude.thy ===== *)
theory Go_Prelude
  imports Main "HOL-Library.Word"
begin

text \<open>
  What the components share: the Go types the source uses (fixed-width integers, byte
  slices, \<^verbatim>\<open>*big.Int\<close>), Go's error and panic results as values, the byte orders of
  \<^verbatim>\<open>encoding/binary\<close>, the number syntax of \<^verbatim>\<open>math/big\<close> and the lemmas on lists, words
  and results that the component proofs use through the collections declared here.
\<close>

unbundle bit_operations_syntax

named_theorems go_simps \<open>rewriting of Go results, bytes and integers\<close>

section \<open>Go types\<close>

type_synonym u8 = "8 word"
type_synonym u16 = "16 word"
type_synonym u32 = "32 word"
type_synonym u64 = "64 word"
type_synonym gint = "64 word"
type_synonym bytes = "u8 list"

text \<open>
  \<^typ>\<open>gint\<close> is Go's \<^verbatim>\<open>int\<close> on a 64-bit platform, read with \<^const>\<open>sint\<close>. A \<^verbatim>\<open>*big.Int\<close> is
  an \<^typ>\<open>int\<close>, or an \<^typ>\<open>int option\<close> where the code can meet a nil pointer.
\<close>

section \<open>Errors and panics\<close>

datatype go_error = Error string | Panic string

type_synonym 'a res = "go_error + 'a"

definition res_bind :: "'a res \<Rightarrow> ('a \<Rightarrow> 'b res) \<Rightarrow> 'b res" where
  "res_bind m f = (case m of Inl e \<Rightarrow> Inl e | Inr x \<Rightarrow> f x)"

lemma res_bind_Inl [simp, go_simps]: "res_bind (Inl e) f = Inl e"
  by (simp add: res_bind_def)

lemma res_bind_Inr [simp, go_simps]: "res_bind (Inr x) f = f x"
  by (simp add: res_bind_def)

lemma res_bind_eq_Inr: "res_bind m f = Inr y \<longleftrightarrow> (\<exists>x. m = Inr x \<and> f x = Inr y)"
  by (cases m) auto

lemma res_bind_cong [fundef_cong]:
  "m = m' \<Longrightarrow> (\<And>x. m' = Inr x \<Longrightarrow> f x = f' x) \<Longrightarrow> res_bind m f = res_bind m' f'"
  by (cases m') auto

text \<open>An error the source drops: the call's state is kept when it succeeds.\<close>

definition drop_err :: "'a \<Rightarrow> 'a res \<Rightarrow> 'a res" where
  "drop_err d r =
     (case r of Inl (Panic m) \<Rightarrow> Inl (Panic m) | Inl (Error m) \<Rightarrow> Inr d | Inr x \<Rightarrow> Inr x)"

lemma drop_err_simps [simp, go_simps]:
  "drop_err d (Inl (Error m)) = Inr d" "drop_err d (Inl (Panic m)) = Inl (Panic m)"
  "drop_err d (Inr x) = Inr x"
  by (simp_all add: drop_err_def)

section \<open>Big integers\<close>

text \<open>\<^verbatim>\<open>(*big.Int).Uint64\<close>: the low 64 bits of the absolute value.\<close>

definition big_Uint64 :: "int \<Rightarrow> u64" where
  "big_Uint64 x = word_of_int \<bar>x\<bar>"

lemma big_Uint64_uint [simp]: "big_Uint64 (uint w) = w"
  by (simp add: big_Uint64_def)

subsection \<open>Text of a number and its parse\<close>

definition digit_char :: "nat \<Rightarrow> char" where
  "digit_char n = ''0123456789abcdef'' ! n"

definition digit_val :: "char \<Rightarrow> nat option" where
  "digit_val c =
     (let n = of_char c :: nat in
      if 48 \<le> n \<and> n \<le> 57 then Some (n - 48)
      else if 97 \<le> n \<and> n \<le> 122 then Some (n - 87)
      else if 65 \<le> n \<and> n \<le> 90 then Some (n - 55)
      else None)"

function nat_text :: "nat \<Rightarrow> nat \<Rightarrow> string" where
  "nat_text b n =
     (if b < 2 \<or> n < b then [digit_char n] else nat_text b (n div b) @ [digit_char (n mod b)])"
  by pat_completeness auto
termination
  by (relation "measure snd") auto

declare nat_text.simps [simp del]

text \<open>\<^verbatim>\<open>(*big.Int).Text\<close> for a base up to 16.\<close>

definition big_Text :: "nat \<Rightarrow> int \<Rightarrow> string" where
  "big_Text b x = (if x < 0 then ''-'' @ nat_text b (nat (- x)) else nat_text b (nat x))"

fun parse_digits :: "nat \<Rightarrow> nat \<Rightarrow> string \<Rightarrow> nat option" where
  "parse_digits b acc [] = Some acc"
| "parse_digits b acc (c # cs) =
     (case digit_val c of
        None \<Rightarrow> None
      | Some d \<Rightarrow> if d < b then parse_digits b (acc * b + d) cs else None)"

definition parse_nat :: "nat \<Rightarrow> string \<Rightarrow> nat option" where
  "parse_nat b s = (if s = [] then None else parse_digits b 0 s)"

text \<open>\<^verbatim>\<open>(*big.Int).SetString\<close> with an explicit base: an optional sign and at least one digit.\<close>

definition big_SetString :: "nat \<Rightarrow> string \<Rightarrow> int option" where
  "big_SetString b s =
     (case s of
        [] \<Rightarrow> None
      | c # cs \<Rightarrow>
          if c = CHR ''-'' then map_option (\<lambda>n. - int n) (parse_nat b cs)
          else if c = CHR ''+'' then map_option int (parse_nat b cs)
          else map_option int (parse_nat b s))"

lemma digit_val_digit_char: "n < 16 \<Longrightarrow> digit_val (digit_char n) = Some n"
  by (auto simp: digit_val_def digit_char_def numeral_eq_Suc less_Suc_eq)

lemma digit_char_not_sign: "n < 16 \<Longrightarrow> digit_char n \<noteq> CHR ''-'' \<and> digit_char n \<noteq> CHR ''+''"
  by (auto simp: digit_char_def numeral_eq_Suc less_Suc_eq)

lemma parse_digits_append:
  "parse_digits b acc (xs @ ys) =
     (case parse_digits b acc xs of None \<Rightarrow> None | Some a \<Rightarrow> parse_digits b a ys)"
  by (induction xs arbitrary: acc) (auto split: option.splits)

lemma nat_text_nonempty [simp]: "nat_text b n \<noteq> []"
  by (subst nat_text.simps) simp

lemma parse_digits_nat_text:
  assumes "2 \<le> b" "b \<le> 16"
  shows "parse_digits b 0 (nat_text b n) = Some n"
  using assms
proof (induction b n rule: nat_text.induct)
  case (1 b n)
  show ?case
  proof (cases "n < b")
    case True
    with "1.prems" show ?thesis
      by (subst nat_text.simps) (simp add: digit_val_digit_char)
  next
    case False
    have "n mod b < b" using "1.prems" by simp
    then have m: "n mod b < 16" using "1.prems" by linarith
    have "parse_digits b 0 (nat_text b (n div b)) = Some (n div b)"
      using 1 False by simp
    then show ?thesis
      using "1.prems" False \<open>n mod b < b\<close> m
      by (subst nat_text.simps) (simp add: parse_digits_append digit_val_digit_char)
  qed
qed

lemma hd_nat_text:
  assumes "2 \<le> b" "b \<le> 16"
  shows "\<exists>d < 16. hd (nat_text b n) = digit_char d"
  using assms
proof (induction b n rule: nat_text.induct)
  case (1 b n)
  show ?case
  proof (cases "n < b")
    case True
    then have "n < 16" using "1.prems" by simp
    with True show ?thesis by (subst nat_text.simps) auto
  next
    case False
    with 1 have "\<exists>d < 16. hd (nat_text b (n div b)) = digit_char d" by simp
    then show ?thesis using False "1.prems" by (subst nat_text.simps) simp
  qed
qed

lemma big_SetString_Text:
  assumes "2 \<le> b" "b \<le> 16"
  shows "big_SetString b (big_Text b x) = Some x"
proof -
  have p: "parse_nat b (nat_text b n) = Some n" for n
    using parse_digits_nat_text [OF assms] by (simp add: parse_nat_def)
  have pos: "big_SetString b (nat_text b n) = Some (int n)" for n
    using p [of n] hd_nat_text [OF assms, of n] digit_char_not_sign
    by (cases "nat_text b n") (auto simp: big_SetString_def)
  have neg: "big_SetString b (CHR ''-'' # nat_text b n) = Some (- int n)" for n
    using p [of n] by (simp add: big_SetString_def)
  show ?thesis
    by (cases "x < 0") (simp_all add: big_Text_def pos neg)
qed

lemma big_Text_inject:
  assumes "2 \<le> b" "b \<le> 16"
  shows "big_Text b x = big_Text b y \<longleftrightarrow> x = y"
  using big_SetString_Text [OF assms] by (metis option.inject)

subsection \<open>Bytes of a number\<close>

function nat_bytes :: "nat \<Rightarrow> bytes" where
  "nat_bytes n = (if n = 0 then [] else nat_bytes (n div 256) @ [of_nat (n mod 256)])"
  by pat_completeness auto
termination
  by (relation "measure id") auto

declare nat_bytes.simps [simp del]

text \<open>\<^verbatim>\<open>(*big.Int).Bytes\<close> (the absolute value, big-endian, no leading zero) and \<^verbatim>\<open>SetBytes\<close>.\<close>

definition big_Bytes :: "int \<Rightarrow> bytes" where
  "big_Bytes x = nat_bytes (nat \<bar>x\<bar>)"

definition big_SetBytes :: "bytes \<Rightarrow> int" where
  "big_SetBytes bs = foldl (\<lambda>a b. a * 256 + uint b) 0 bs"

lemma big_SetBytes_snoc [simp]: "big_SetBytes (bs @ [b]) = big_SetBytes bs * 256 + uint b"
  by (simp add: big_SetBytes_def)

lemma big_SetBytes_nat_bytes: "big_SetBytes (nat_bytes n) = int n"
proof (induction n rule: nat_bytes.induct)
  case (1 n)
  show ?case
  proof (cases "n = 0")
    case True
    then show ?thesis by (subst nat_bytes.simps) (simp add: big_SetBytes_def)
  next
    case False
    have "uint (of_nat (n mod 256) :: u8) = int (n mod 256)"
      by (simp add: uint_nat unat_of_nat)
    with False 1 show ?thesis
      by (subst nat_bytes.simps) (simp add: zdiv_int zmod_int)
  qed
qed

lemma big_SetBytes_Bytes: "0 \<le> x \<Longrightarrow> big_SetBytes (big_Bytes x) = x"
  by (simp add: big_Bytes_def big_SetBytes_nat_bytes)

end
