(* ===== verification/Smt_Utils.thy ===== *)
theory Smt_Utils
  imports Go_Prelude
begin

text \<open>
  The helpers of the sparse Merkle tree, \<^verbatim>\<open>src/smt/pkg/utils/utils.go\<close>: node keys and node
  values, their conversions to and from scalars, paths, remaining keys, account keys and key
  sources. A Go array of fixed size is a list of that length, a \<^verbatim>\<open>*big.Int\<close> element an
  \<^typ>\<open>int option\<close>; \<^verbatim>\<open>NodeKey\<close> is a datatype of its four words. The Poseidon permutation is
  third-party code and an argument of the definitions that call it.
\<close>

section \<open>Node keys\<close>

datatype node_key = NodeKey u64 u64 u64 u64

type_synonym node_value = "int option list"
type_synonym poseidon = "u64 list \<Rightarrow> node_key \<Rightarrow> node_key"

fun nk_nth :: "node_key \<Rightarrow> nat \<Rightarrow> u64" where
  "nk_nth (NodeKey a b c d) i = [a, b, c, d] ! i"

definition mk_key :: "(nat \<Rightarrow> u64) \<Rightarrow> node_key" where
  "mk_key f = NodeKey (f 0) (f 1) (f 2) (f 3)"

fun nk_list :: "node_key \<Rightarrow> u64 list" where
  "nk_list (NodeKey a b c d) = [a, b, c, d]"

definition zero_key :: node_key where
  "zero_key = NodeKey 0 0 0 0"

definition LeafCapacity :: node_key where
  "LeafCapacity = NodeKey 1 0 0 0"

definition BranchCapacity :: node_key where
  "BranchCapacity = NodeKey 0 0 0 0"

definition Hash :: "poseidon \<Rightarrow> u64 list \<Rightarrow> node_key \<Rightarrow> node_key" where
  "Hash hashFunc inp capacity = hashFunc inp capacity"

definition IsZero :: "node_key \<Rightarrow> bool" where
  "IsZero nk \<longleftrightarrow> nk_nth nk 0 = 0 \<and> nk_nth nk 1 = 0 \<and> nk_nth nk 2 = 0 \<and> nk_nth nk 3 = 0"

definition IsEqualTo :: "node_key \<Rightarrow> node_key \<Rightarrow> bool" where
  "IsEqualTo nk nk2 \<longleftrightarrow>
     nk_nth nk 0 = nk_nth nk2 0 \<and> nk_nth nk 1 = nk_nth nk2 1 \<and>
     nk_nth nk 2 = nk_nth nk2 2 \<and> nk_nth nk 3 = nk_nth nk2 3"

section \<open>Node values\<close>

definition opt_Uint64 :: "int option \<Rightarrow> u64" where
  "opt_Uint64 x = (case x of None \<Rightarrow> 0 | Some v \<Rightarrow> big_Uint64 v)"

definition deref_Uint64 :: "int option \<Rightarrow> u64 res" where
  "deref_Uint64 x = (case x of None \<Rightarrow> Inl (Panic ''nil pointer dereference'') | Some v \<Rightarrow> Inr (big_Uint64 v))"

definition slice :: "nat \<Rightarrow> nat \<Rightarrow> 'a list \<Rightarrow> 'a list" where
  "slice a b xs = take (b - a) (drop a xs)"

definition value8_IsZero :: "node_value option \<Rightarrow> bool" where
  "value8_IsZero nv =
     (case nv of
        None \<Rightarrow> True
      | Some xs \<Rightarrow> list_all (\<lambda>x. case x of None \<Rightarrow> False | Some v \<Rightarrow> big_Uint64 v = 0) xs)"

definition SetHalfValue :: "node_value \<Rightarrow> node_key \<Rightarrow> int \<Rightarrow> node_value res" where
  "SetHalfValue nv values part =
     (if part < 0 \<or> part > 1 then Inl (Error ''part must be 0 or 1'')
      else let partI = nat part * 4 in
        Inr (fold (\<lambda>i xs. xs[i + partI := Some (uint (nk_nth values i))]) [0, 1, 2, 3] nv))"

definition ToUintArray :: "node_value option \<Rightarrow> u64 list" where
  "ToUintArray nv = (case nv of None \<Rightarrow> replicate 8 0 | Some xs \<Rightarrow> map opt_Uint64 xs)"

definition Get0to4 :: "node_value \<Rightarrow> node_key res" where
  "Get0to4 nv =
     res_bind (deref_Uint64 (nv ! 0)) (\<lambda>a. res_bind (deref_Uint64 (nv ! 1)) (\<lambda>b.
     res_bind (deref_Uint64 (nv ! 2)) (\<lambda>c. res_bind (deref_Uint64 (nv ! 3)) (\<lambda>d.
       Inr (NodeKey a b c d)))))"

definition Get4to8 :: "node_value \<Rightarrow> node_key res" where
  "Get4to8 nv =
     res_bind (deref_Uint64 (nv ! 4)) (\<lambda>a. res_bind (deref_Uint64 (nv ! 5)) (\<lambda>b.
     res_bind (deref_Uint64 (nv ! 6)) (\<lambda>c. res_bind (deref_Uint64 (nv ! 7)) (\<lambda>d.
       Inr (NodeKey a b c d)))))"

definition GetNodeValue8 :: "node_value \<Rightarrow> node_value" where
  "GetNodeValue8 nv = [nv ! 0, nv ! 1, nv ! 2, nv ! 3, nv ! 4, nv ! 5, nv ! 6, nv ! 7]"

definition NodeKeyFromBigIntArray :: "node_value \<Rightarrow> node_key res" where
  "NodeKeyFromBigIntArray arr =
     (if length arr > 4 then Inl (Panic ''index out of range'')
      else Inr (mk_key (\<lambda>i. if i < length arr then opt_Uint64 (arr ! i) else 0)))"

fun unique_sibling_loop :: "node_value \<Rightarrow> nat \<Rightarrow> nat \<Rightarrow> int \<Rightarrow> nat \<Rightarrow> int res" where
  "unique_sibling_loop a 0 i fnd count = Inr (if count = 1 then fnd else - 1)"
| "unique_sibling_loop a (Suc n) i fnd count =
     res_bind (NodeKeyFromBigIntArray (slice i (i + 4) a)) (\<lambda>k.
       if \<not> IsZero k then unique_sibling_loop a n (i + 4) (int (i div 4)) (Suc count)
       else unique_sibling_loop a n (i + 4) fnd count)"

definition IsUniqueSibling :: "node_value \<Rightarrow> int res" where
  "IsUniqueSibling nv = unique_sibling_loop nv 3 0 0 0"

definition IsArrayUint64Empty :: "u64 list \<Rightarrow> bool" where
  "IsArrayUint64Empty arr = list_all (\<lambda>v. \<not> v > 0) arr"

definition Value8FromBigIntArray :: "node_value \<Rightarrow> node_value" where
  "Value8FromBigIntArray arr = take 8 arr @ replicate (8 - length arr) None"

definition NodeValue12FromBigIntArray :: "node_value \<Rightarrow> node_value res" where
  "NodeValue12FromBigIntArray arr =
     (if length arr \<noteq> 12 then Inl (Error ''invalid array length'') else Inr arr)"

definition NodeValue8FromBigIntArray :: "node_value \<Rightarrow> node_value res" where
  "NodeValue8FromBigIntArray arr =
     (if length arr \<noteq> 8 then Inl (Error ''invalid array length'') else Inr arr)"

definition BigIntArrayFromNodeValue8 :: "node_value \<Rightarrow> node_value" where
  "BigIntArrayFromNodeValue8 nv = nv"

fun value12_IsZero :: "node_value \<Rightarrow> bool \<Rightarrow> bool res" where
  "value12_IsZero [] zero = Inr zero"
| "value12_IsZero (v # vs) zero =
     (case v of
        None \<Rightarrow> Inl (Panic ''nil pointer dereference'')
      | Some n \<Rightarrow> if n = 0 then value12_IsZero vs True else Inr False)"

definition IsFinalNode :: "node_value \<Rightarrow> bool" where
  "IsFinalNode nv = (case nv ! 8 of None \<Rightarrow> False | Some v \<Rightarrow> v = 1)"

section \<open>Scalars\<close>

text \<open>\<^verbatim>\<open>Text\<close> of a nil \<^verbatim>\<open>*big.Int\<close> is the string \<^verbatim>\<open><nil>\<close>.\<close>

definition ConvertBigIntToHex :: "int option \<Rightarrow> string" where
  "ConvertBigIntToHex n = ''0x'' @ (case n of None \<Rightarrow> ''<nil>'' | Some x \<Rightarrow> big_Text 16 x)"

definition TrimPrefix :: "string \<Rightarrow> string \<Rightarrow> string" where
  "TrimPrefix p s = (if take (length p) s = p then drop (length p) s else s)"

definition ConvertHexToBigInt :: "string \<Rightarrow> int option" where
  "ConvertHexToBigInt hex = big_SetString 16 (TrimPrefix ''0x'' hex)"

fun ArrayToScalar :: "u64 list \<Rightarrow> int" where
  "ArrayToScalar [] = 0"
| "ArrayToScalar (x # xs) = ArrayToScalar xs * 2 ^ 64 + uint x"

definition ToBigInt :: "node_key \<Rightarrow> int" where
  "ToBigInt nk = ArrayToScalar (nk_list nk)"

definition ScalarToArray :: "int \<Rightarrow> u64 list" where
  "ScalarToArray scalar =
     (let mask = 0xFFFFFFFFFFFFFFFF in
      [big_Uint64 (scalar AND mask),
       big_Uint64 (drop_bit 64 scalar AND mask),
       big_Uint64 (drop_bit 128 scalar AND mask),
       big_Uint64 (drop_bit 192 scalar AND mask)])"

fun ArrayToScalarBig :: "int list \<Rightarrow> int" where
  "ArrayToScalarBig [] = 0"
| "ArrayToScalarBig (x # xs) = ArrayToScalarBig xs * 2 ^ 64 + x"

fun scalar_to_root_loop :: "nat \<Rightarrow> int \<Rightarrow> u64 list" where
  "scalar_to_root_loop 0 s = []"
| "scalar_to_root_loop (Suc n) s = big_Uint64 (s mod 2 ^ 64) # scalar_to_root_loop n (s div 2 ^ 64)"

definition ScalarToRoot :: "int \<Rightarrow> node_key" where
  "ScalarToRoot s = mk_key (\<lambda>i. scalar_to_root_loop 4 s ! i)"

fun scalar_to_value_loop :: "nat \<Rightarrow> int \<Rightarrow> node_value" where
  "scalar_to_value_loop 0 s = []"
| "scalar_to_value_loop (Suc n) s =
     Some (s AND 0xFFFFFFFFFFFFFFFF) # scalar_to_value_loop n (drop_bit 64 s)"

definition ScalarToNodeValue :: "int \<Rightarrow> node_value" where
  "ScalarToNodeValue scalarIn = scalar_to_value_loop 12 scalarIn"

definition ScalarToNodeValue8 :: "int \<Rightarrow> node_value" where
  "ScalarToNodeValue8 scalarIn = scalar_to_value_loop 8 scalarIn"

definition ScalarToArrayBig :: "int \<Rightarrow> int list" where
  "ScalarToArrayBig scalar =
     (let mask = 4294967295 in
      [scalar AND mask, drop_bit 32 scalar AND mask, drop_bit 64 scalar AND mask,
       drop_bit 96 scalar AND mask, drop_bit 128 scalar AND mask, drop_bit 160 scalar AND mask,
       drop_bit 192 scalar AND mask, drop_bit 224 scalar AND mask])"

definition ScalarToArrayBig12 :: "int \<Rightarrow> int list" where
  "ScalarToArrayBig12 scalar =
     (let mask = 0xFFFFFFFF in
      [scalar AND mask, drop_bit 32 scalar AND mask, drop_bit 64 scalar AND mask,
       drop_bit 96 scalar AND mask, drop_bit 128 scalar AND mask, drop_bit 160 scalar AND mask,
       drop_bit 192 scalar AND mask, drop_bit 224 scalar AND mask, drop_bit 256 scalar AND mask,
       drop_bit 288 scalar AND mask, drop_bit 320 scalar AND mask, drop_bit 352 scalar AND mask])"

fun ArrayBigToScalar :: "int list \<Rightarrow> int" where
  "ArrayBigToScalar [] = 0"
| "ArrayBigToScalar (x # xs) = ArrayBigToScalar xs * 2 ^ 32 + x"

definition NodeValue8FromBigInt :: "int \<Rightarrow> node_value res" where
  "NodeValue8FromBigInt value = NodeValue8FromBigIntArray (map Some (ScalarToArrayBig value))"

fun all_some :: "'a option list \<Rightarrow> 'a list option" where
  "all_some [] = Some []"
| "all_some (x # xs) =
     (case x of None \<Rightarrow> None | Some v \<Rightarrow> map_option ((#) v) (all_some xs))"

definition NodeValue8ToBigInt :: "node_value \<Rightarrow> int res" where
  "NodeValue8ToBigInt value =
     (case all_some (BigIntArrayFromNodeValue8 value) of
        None \<Rightarrow> Inl (Panic ''nil pointer dereference'')
      | Some xs \<Rightarrow> Inr (ArrayBigToScalar xs))"

section \<open>Paths and remaining keys\<close>

fun get_path_loop :: "nat \<Rightarrow> node_key \<Rightarrow> int list" where
  "get_path_loop 0 auxk = []"
| "get_path_loop (Suc j) auxk =
     [uint (nk_nth auxk 0 AND 1), uint (nk_nth auxk 1 AND 1),
      uint (nk_nth auxk 2 AND 1), uint (nk_nth auxk 3 AND 1)]
     @ get_path_loop j (mk_key (\<lambda>i. drop_bit 1 (nk_nth auxk i)))"

definition GetPath :: "node_key \<Rightarrow> int list" where
  "GetPath nk = get_path_loop 64 nk"

fun key_from_path_loop :: "int list \<Rightarrow> nat \<Rightarrow> u64 list \<Rightarrow> u64 list" where
  "key_from_path_loop [] j r = r"
| "key_from_path_loop (p # ps) j r =
     key_from_path_loop ps (Suc j)
       (r[j mod 4 := r ! (j mod 4) OR push_bit (j div 4) (word_of_int p)])"

definition NodeKeyFromPath :: "int list \<Rightarrow> node_key res" where
  "NodeKeyFromPath path =
     (if length path \<noteq> 256 then Inl (Error ''path is not 256 bits'')
      else Inr (mk_key (\<lambda>i. key_from_path_loop path 0 [0, 0, 0, 0] ! i)))"

definition ConcatArrays4 :: "node_key \<Rightarrow> node_key \<Rightarrow> u64 list" where
  "ConcatArrays4 a b = nk_list a @ nk_list b"

definition ConcatArrays8AndCapacity :: "u64 list \<Rightarrow> node_key \<Rightarrow> node_value" where
  "ConcatArrays8AndCapacity inp capacity =
     map (\<lambda>w. Some (uint w)) inp @ map (\<lambda>w. Some (uint w)) (nk_list capacity)"

definition HashKeyAndValue :: "poseidon \<Rightarrow> u64 list \<Rightarrow> node_key \<Rightarrow> node_key \<times> node_value" where
  "HashKeyAndValue H inp capacity = (Hash H inp capacity, ConcatArrays8AndCapacity inp capacity)"

definition RemoveKeyBits :: "node_key \<Rightarrow> nat \<Rightarrow> node_key" where
  "RemoveKeyBits k nBits =
     (let fullLevels = nBits div 4 in
      mk_key (\<lambda>i. drop_bit (if fullLevels * 4 + i < nBits then fullLevels + 1 else fullLevels)
                    (nk_nth k i)))"

fun join_key_loop :: "int list \<Rightarrow> nat \<Rightarrow> u64 list \<Rightarrow> u64 list \<Rightarrow> u64 list \<times> u64 list" where
  "join_key_loop [] i n accs = (n, accs)"
| "join_key_loop (b # bs) i n accs =
     join_key_loop bs (Suc i) (n[i mod 4 := n ! (i mod 4) + 1])
       (if b = 1 then accs[i mod 4 := accs ! (i mod 4) OR push_bit (unat (n ! (i mod 4))) 1]
        else accs)"

definition JoinKey :: "int list \<Rightarrow> node_key \<Rightarrow> node_key" where
  "JoinKey usedBits remainingKey =
     (let (n, accs) = join_key_loop usedBits 0 [0, 0, 0, 0] [0, 0, 0, 0] in
      mk_key (\<lambda>i. push_bit (unat (n ! i)) (nk_nth remainingKey i) OR accs ! i))"

text \<open>
  \<^verbatim>\<open>RemoveOver\<close> on the siblings map: its keys are the levels \<open>0, 1, \<dots>\<close>, so the map is the
  list of its values.
\<close>

definition RemoveOver :: "'a list \<Rightarrow> nat \<Rightarrow> 'a list" where
  "RemoveOver m level = take level m"

fun sort_less_loop :: "nat \<Rightarrow> node_key \<Rightarrow> node_key \<Rightarrow> bool" where
  "sort_less_loop 0 a b = True"
| "sort_less_loop (Suc l) a b =
     (let ba = map (\<lambda>w. w AND 1) (nk_list a); bb = map (\<lambda>w. w AND 1) (nk_list b) in
      if ba ! 0 \<noteq> bb ! 0 then ba ! 0 < bb ! 0
      else if ba ! 1 \<noteq> bb ! 1 then ba ! 1 < bb ! 1
      else if ba ! 2 \<noteq> bb ! 2 then ba ! 2 < bb ! 2
      else if ba ! 3 \<noteq> bb ! 3 then ba ! 3 < bb ! 3
      else sort_less_loop l (mk_key (\<lambda>i. drop_bit 1 (nk_nth a i)))
             (mk_key (\<lambda>i. drop_bit 1 (nk_nth b i))))"

text \<open>The \<^verbatim>\<open>less\<close> function that \<^verbatim>\<open>SortNodeKeysBitwiseAsc\<close> gives to \<^verbatim>\<open>sort.Slice\<close>.\<close>

definition sort_less :: "node_key \<Rightarrow> node_key \<Rightarrow> bool" where
  "sort_less a b = sort_less_loop 64 a b"

end
