(* ===== verification/Smt_Keys.thy ===== *)
theory Smt_Keys
  imports Smt_Utils
begin

text \<open>
  Bits of node keys: the path of a key, the key that remains below a level and the key joined
  back from the two. The bit of level \<open>j\<close> is bit \<open>j div 4\<close> of word \<open>j mod 4\<close>.
\<close>

section \<open>Node keys by their words and bits\<close>

lemma unat_of_nat64: "n < 2 ^ 64 \<Longrightarrow> unat (of_nat n :: u64) = n"
  by (simp add: unat_of_nat)

lemma less_4_cases: "i < (4::nat) \<Longrightarrow> i = 0 \<or> i = 1 \<or> i = 2 \<or> i = 3"
  by auto

lemma nk_nth_mk_key [simp]: "i < 4 \<Longrightarrow> nk_nth (mk_key f) i = f i"
  by (auto simp: mk_key_def dest!: less_4_cases)

lemma mk_key_nk_nth [simp]: "mk_key (nk_nth k) = k"
  by (cases k) (simp add: mk_key_def)

lemma mk_key_cong: "(\<And>i. i < 4 \<Longrightarrow> f i = g i) \<Longrightarrow> mk_key f = mk_key g"
  by (simp add: mk_key_def)

lemma node_key_eqI: "(\<And>i. i < 4 \<Longrightarrow> nk_nth k i = nk_nth k' i) \<Longrightarrow> k = k'"
  using mk_key_cong [of "nk_nth k" "nk_nth k'"] by simp

lemma IsEqualTo_iff [simp]: "IsEqualTo k k' \<longleftrightarrow> k = k'"
  by (cases k; cases k') (auto simp: IsEqualTo_def)

lemma IsZero_iff [simp]: "IsZero k \<longleftrightarrow> k = zero_key"
  by (cases k) (auto simp: IsZero_def zero_key_def)

lemma length_nk_list [simp]: "length (nk_list k) = 4"
  by (cases k) simp

lemma nk_list_inject [simp]: "nk_list k = nk_list k' \<longleftrightarrow> k = k'"
  by (cases k; cases k') auto

lemma ConcatArrays4_inject [simp]:
  "ConcatArrays4 a b = ConcatArrays4 a' b' \<longleftrightarrow> a = a' \<and> b = b'"
  by (simp add: ConcatArrays4_def)

lemma length_ConcatArrays4 [simp]: "length (ConcatArrays4 a b) = 8"
  by (simp add: ConcatArrays4_def)

lemma map_uint_inject [simp]:
  "map (\<lambda>w. Some (uint w)) xs = map (\<lambda>w. Some (uint w)) ys \<longleftrightarrow> xs = (ys :: u64 list)"
proof -
  have "inj (\<lambda>w :: u64. Some (uint w))"
    by (auto simp: inj_def word_uint_eq_iff)
  then show ?thesis by (simp add: inj_map_eq_map)
qed

definition kbit :: "node_key \<Rightarrow> nat \<Rightarrow> bool" where
  "kbit k j = bit (nk_nth k (j mod 4)) (j div 4)"

lemma kbit_eqI:
  assumes "\<And>j. j < 256 \<Longrightarrow> kbit k j = kbit k' j"
  shows "k = k'"
proof (rule node_key_eqI, rule bit_word_eqI)
  fix i m :: nat
  assume "i < 4" "m < LENGTH(64)"
  then show "bit (nk_nth k i) m = bit (nk_nth k' i) m"
    using assms [of "4 * m + i"] by (simp add: kbit_def)
qed

section \<open>Paths\<close>

lemma length_get_path_loop [simp]: "length (get_path_loop n k) = 4 * n"
  by (induction n arbitrary: k) auto

lemma uint_and_one: "uint (w AND 1 :: u64) = of_bool (bit w 0)"
  by (simp add: and_one_eq odd_iff_mod_2_eq_one bit_0)

lemma nth_get_path_loop:
  "j < 4 * n \<Longrightarrow> get_path_loop n k ! j = of_bool (kbit k j)"
proof (induction n arbitrary: k j)
  case 0
  then show ?case by simp
next
  case (Suc n)
  show ?case
  proof (cases "j < 4")
    case True
    then show ?thesis
      by (auto simp: kbit_def uint_and_one dest!: less_4_cases)
  next
    case False
    then obtain i where j: "j = 4 + i" by (metis le_add_diff_inverse not_less)
    have "kbit (mk_key (\<lambda>i. drop_bit 1 (nk_nth k i))) i = kbit k j"
      by (simp add: kbit_def j bit_drop_bit_eq div_add_self1)
    then show ?thesis using Suc.IH [of i] Suc.prems j by (simp add: nth_append)
  qed
qed

lemma length_GetPath [simp]: "length (GetPath k) = 256"
  by (simp add: GetPath_def)

lemma nth_GetPath [simp]: "j < 256 \<Longrightarrow> GetPath k ! j = of_bool (kbit k j)"
  by (simp add: GetPath_def nth_get_path_loop)

lemma GetPath_eq_iff [simp]: "GetPath k = GetPath k' \<longleftrightarrow> k = k'"
proof
  assume eq: "GetPath k = GetPath k'"
  have "kbit k j = kbit k' j" if "j < 256" for j
    using arg_cong [OF eq, of "\<lambda>p. p ! j"] that by (auto split: if_splits)
  then show "k = k'" by (rule kbit_eqI)
qed simp

section \<open>Remaining keys\<close>

text \<open>The number of levels below \<open>n\<close> whose bit is in word \<open>i\<close>.\<close>

definition level_count :: "nat \<Rightarrow> nat \<Rightarrow> nat" where
  "level_count n i = (n + 3 - i) div 4"

lemma level_count_0 [simp]: "i < 4 \<Longrightarrow> level_count 0 i = 0"
  by (auto simp: level_count_def dest!: less_4_cases)

lemma level_count_alt: "i < 4 \<Longrightarrow> r < 4 \<Longrightarrow> level_count (4 * q + r) i = q + of_bool (i < r)"
proof -
  assume a: "i < 4" "r < 4"
  have "4 * q + r + 3 - i = (r + 3 - i) + 4 * q" using a by simp
  moreover have "(r + 3 - i) div 4 = of_bool (i < r)"
    using a by (cases "i < r") auto
  ultimately show ?thesis by (simp add: level_count_def)
qed

lemma div_mod_4_cases: 
  obtains q r where "n = 4 * q + r" "r < (4::nat)"
  by (metis div_mult_mod_eq mod_less_divisor mult.commute zero_less_numeral)

lemma level_count_Suc:
  assumes "i < 4" shows "level_count (Suc n) i = level_count n i + of_bool (n mod 4 = i)"
proof -
  obtain q r where n: "n = 4 * q + r" "r < 4" by (rule div_mod_4_cases)
  show ?thesis
  proof (cases "r = 3")
    case True
    then have "Suc n = 4 * (q + 1) + 0" using n by simp
    with True n assms show ?thesis by (simp only: level_count_alt) auto
  next
    case False
    then have "Suc n = 4 * q + Suc r" "Suc r < 4" using n by simp_all
    with n assms show ?thesis by (simp only: level_count_alt) auto
  qed
qed

lemma level_count_le: "i < 4 \<Longrightarrow> n \<le> 256 \<Longrightarrow> level_count n i \<le> 64"
  by (auto simp: level_count_def dest!: less_4_cases)

lemma level_count_less: "i < 4 \<Longrightarrow> m < level_count n i \<longleftrightarrow> 4 * m + i < n"
  by (auto simp: level_count_def dest!: less_4_cases)

lemma nk_nth_RemoveKeyBits:
  assumes "i < 4"
  shows "nk_nth (RemoveKeyBits k n) i = drop_bit (level_count n i) (nk_nth k i)"
proof -
  obtain q r where n: "n = 4 * q + r" "r < 4" by (rule div_mod_4_cases)
  then have "(if n div 4 * 4 + i < n then n div 4 + 1 else n div 4) = level_count n i"
    using assms by (simp add: level_count_alt)
  then show ?thesis using assms by (simp add: RemoveKeyBits_def Let_def split: if_splits)
qed

lemma RemoveKeyBits_0 [simp]: "RemoveKeyBits k 0 = k"
  by (rule node_key_eqI) (simp add: nk_nth_RemoveKeyBits)

section \<open>Joining keys\<close>

text \<open>The state of the loop of \<^verbatim>\<open>JoinKey\<close> after the bits \<open>ps\<close>.\<close>

definition join_inv :: "int list \<Rightarrow> u64 list \<Rightarrow> u64 list \<Rightarrow> bool" where
  "join_inv ps n accs \<longleftrightarrow>
     length n = 4 \<and> length accs = 4 \<and>
     (\<forall>q < 4. n ! q = of_nat (level_count (length ps) q)) \<and>
     (\<forall>q < 4. \<forall>m < 64. bit (accs ! q) m \<longleftrightarrow> 4 * m + q < length ps \<and> ps ! (4 * m + q) = 1)"

lemma join_inv_step:
  assumes inv: "join_inv ps n accs" and len: "length ps < 256"
  defines "i \<equiv> length ps"
  shows "join_inv (ps @ [b]) (n[i mod 4 := n ! (i mod 4) + 1])
           (if b = 1 then accs[i mod 4 := accs ! (i mod 4) OR push_bit (unat (n ! (i mod 4))) 1]
            else accs)"
proof -
  have lc: "level_count i (i mod 4) = i div 4"
    by (simp add: level_count_def) presburger
  have cnt: "unat (n ! (i mod 4)) = i div 4"
  proof -
    have "n ! (i mod 4) = of_nat (i div 4)"
      using inv lc by (simp add: join_inv_def i_def)
    moreover have "i div 4 < 2 ^ LENGTH(64)" using len by (simp add: i_def)
    ultimately show ?thesis by (simp add: unat_of_nat64)
  qed
  have pos: "4 * m + q = i \<longleftrightarrow> m = i div 4 \<and> q = i mod 4" if "q < 4" for m q
    using that by auto
  have n': "(n[i mod 4 := n ! (i mod 4) + 1]) ! q = of_nat (level_count (length (ps @ [b])) q)"
    if "q < 4" for q
    using inv that by (auto simp: join_inv_def level_count_Suc i_def nth_list_update)
  have acc': "bit ((if b = 1 then accs[i mod 4 := accs ! (i mod 4) OR push_bit (i div 4) 1]
            else accs) ! q) m \<longleftrightarrow> 4 * m + q < length (ps @ [b]) \<and> (ps @ [b]) ! (4 * m + q) = 1"
    if q: "q < 4" and m: "m < 64" for q m
  proof (cases "4 * m + q = i")
    case True
    then show ?thesis
      using inv q m pos [OF q, of m]
      by (auto simp: join_inv_def i_def nth_append bit_or_iff bit_push_bit_iff bit_exp_iff)
  next
    case False
    then have "q = i mod 4 \<Longrightarrow> m \<noteq> i div 4" using pos [OF q, of m] by blast
    then show ?thesis
      using inv q m False
      by (auto simp: join_inv_def i_def nth_append nth_list_update bit_or_iff bit_push_bit_iff bit_exp_iff)
  qed
  have len4: "length (n[i mod 4 := n ! (i mod 4) + 1]) = 4"
    "length (if b = 1 then accs[i mod 4 := accs ! (i mod 4) OR push_bit (i div 4) 1] else accs) = 4"
    using inv by (simp_all add: join_inv_def)
  show ?thesis
    unfolding join_inv_def cnt using len4 n' acc' by blast
qed

lemma join_key_loop_inv:
  assumes "join_inv ps n accs" "length (ps @ bs) \<le> 256"
  shows "case join_key_loop bs (length ps) n accs of (n', accs') \<Rightarrow> join_inv (ps @ bs) n' accs'"
  using assms
proof (induction bs arbitrary: ps n accs)
  case Nil
  then show ?case by simp
next
  case (Cons b bs)
  from Cons.prems have "length ps < 256" by simp
  note step = join_inv_step [OF Cons.prems(1) this, of b]
  show ?case
    using Cons.IH [OF step] Cons.prems(2) by simp
qed

lemma nk_nth_JoinKey:
  assumes "length bs \<le> 256" "i < 4" "m < 64"
  shows "bit (nk_nth (JoinKey bs r) i) m \<longleftrightarrow>
     (if 4 * m + i < length bs then bs ! (4 * m + i) = 1
      else bit (nk_nth r i) (m - level_count (length bs) i))"
proof -
  obtain n accs where loop: "join_key_loop bs 0 [0, 0, 0, 0] [0, 0, 0, 0] = (n, accs)"
    by fastforce
  have "join_inv [] [0, 0, 0, 0] [0, 0, 0, 0]"
    by (auto simp: join_inv_def dest!: less_4_cases)
  from join_key_loop_inv [OF this, of bs] assms(1) loop
  have inv: "join_inv bs n accs" by simp
  have "level_count (length bs) i \<le> 64" using assms level_count_le by blast
  then have n: "unat (n ! i) = level_count (length bs) i"
    using inv assms by (simp add: join_inv_def unat_of_nat64)
  have acc: "bit (accs ! i) m \<longleftrightarrow> 4 * m + i < length bs \<and> bs ! (4 * m + i) = 1"
    using inv assms by (simp add: join_inv_def)
  have "bit (nk_nth (JoinKey bs r) i) m \<longleftrightarrow>
     (level_count (length bs) i \<le> m \<and> bit (nk_nth r i) (m - level_count (length bs) i))
     \<or> bit (accs ! i) m"
    using assms by (simp add: JoinKey_def loop n bit_or_iff bit_push_bit_iff)
  then show ?thesis
    using acc level_count_less [OF assms(2), of m "length bs"] by auto
qed

lemma JoinKey_RemoveKeyBits:
  assumes "n \<le> 256"
  shows "JoinKey (take n (GetPath k)) (RemoveKeyBits k n) = k"
proof (rule node_key_eqI, rule bit_word_eqI)
  fix i m :: nat
  assume i: "i < 4" and m: "m < LENGTH(64)"
  have lc: "\<not> 4 * m + i < n \<Longrightarrow> level_count n i \<le> m"
    using level_count_less [OF i, of m n] by simp
  show "bit (nk_nth (JoinKey (take n (GetPath k)) (RemoveKeyBits k n)) i) m = bit (nk_nth k i) m"
    using i m assms lc
    by (simp add: nk_nth_JoinKey nk_nth_RemoveKeyBits bit_drop_bit_eq kbit_def min_def)
qed

lemma RemoveKeyBits_inject:
  assumes "n \<le> 256" "take n (GetPath k) = take n (GetPath k')"
  shows "RemoveKeyBits k n = RemoveKeyBits k' n \<longleftrightarrow> k = k'"
  using assms JoinKey_RemoveKeyBits by metis

end
