(* ===== verification/Smt_Db.thy ===== *)
theory Smt_Db
  imports Smt_Keys
begin

text \<open>
  The node store of the tree. The Go interface \<^verbatim>\<open>DB\<close> (\<^verbatim>\<open>src/smt/pkg/smt/smt.go\<close>) is a record
  of operations; the locale \<open>smt_db\<close> states what the tree relies on. \<open>mem_db\<close> is the
  in-memory implementation, \<^verbatim>\<open>src/smt/pkg/db/mem-db.go\<close>, with its maps keyed by the text of the
  scalar of a node key; it interprets the locale.
\<close>

section \<open>The interface\<close>

record 's smt_db_ops =
  db_Get :: "'s \<Rightarrow> node_key \<Rightarrow> node_value res"
  db_Insert :: "'s \<Rightarrow> node_key \<Rightarrow> node_value \<Rightarrow> 's res"
  db_InsertHashKey :: "'s \<Rightarrow> node_key \<Rightarrow> node_key \<Rightarrow> 's res"
  db_GetDepth :: "'s \<Rightarrow> u8 res"
  db_SetDepth :: "'s \<Rightarrow> u8 \<Rightarrow> 's res"
  db_GetLastRoot :: "'s \<Rightarrow> int res"
  db_SetLastRoot :: "'s \<Rightarrow> int \<Rightarrow> 's res"

text \<open>
  \<open>node_at s k\<close> is what \<^verbatim>\<open>Get\<close> reads at key \<open>k\<close>. Nodes are written with 64-bit words only,
  and roots are not negative.
\<close>

locale smt_db =
  fixes ops :: "'s smt_db_ops"
    and node_at :: "'s \<Rightarrow> node_key \<Rightarrow> node_value"
    and invar :: "'s \<Rightarrow> bool"
  assumes get_node: "invar s \<Longrightarrow> db_Get ops s k = Inr (node_at s k)"
    and insert_node: "invar s \<Longrightarrow> length inp = 8 \<Longrightarrow>
      \<exists>s'. db_Insert ops s k (ConcatArrays8AndCapacity inp cap) = Inr s' \<and> invar s' \<and>
        node_at s' = (node_at s)(k := ConcatArrays8AndCapacity inp cap)"
    and insert_hash_key: "invar s \<Longrightarrow>
      \<exists>s'. db_InsertHashKey ops s k k' = Inr s' \<and> invar s' \<and> node_at s' = node_at s"
    and depth_no_panic: "invar s \<Longrightarrow> db_GetDepth ops s \<noteq> Inl (Panic m) \<and> db_SetDepth ops s d \<noteq> Inl (Panic m)"
    and set_depth: "invar s \<Longrightarrow> db_SetDepth ops s d = Inr s' \<Longrightarrow> invar s' \<and> node_at s' = node_at s"
    and set_last_root: "invar s \<Longrightarrow> 0 \<le> r \<Longrightarrow>
      \<exists>s'. db_SetLastRoot ops s r = Inr s' \<and> invar s' \<and> node_at s' = node_at s \<and>
        db_GetLastRoot ops s' = Inr r"

section \<open>The in-memory database\<close>

record mem_db =
  Db :: "string \<rightharpoonup> string list"
  DbAccVal :: "string \<rightharpoonup> string list"
  DbKeySource :: "string \<rightharpoonup> bytes"
  DbHashKey :: "string \<rightharpoonup> bytes"
  DbCode :: "string \<rightharpoonup> bytes"
  LastRoot :: int
  Depth :: u8

definition NewMemDb :: mem_db where
  "NewMemDb = \<lparr>Db = Map.empty, DbAccVal = Map.empty, DbKeySource = Map.empty,
     DbHashKey = Map.empty, DbCode = Map.empty, LastRoot = 0, Depth = 0\<rparr>"

text \<open>The key text shared by the maps: \<^verbatim>\<open>ConvertBigIntToHex(ArrayToScalar(key[:]))\<close>.\<close>

definition key_hex :: "node_key \<Rightarrow> string" where
  "key_hex key = ConvertBigIntToHex (Some (ArrayToScalar (nk_list key)))"

definition read_values :: "nat \<Rightarrow> string list option \<Rightarrow> node_value res" where
  "read_values n vs =
     (case vs of
        None \<Rightarrow> Inr (replicate n None)
      | Some ss \<Rightarrow> if length ss > n then Inl (Panic ''index out of range'')
                  else Inr (map ConvertHexToBigInt ss @ replicate (n - length ss) None))"

definition mem_GetLastRoot :: "mem_db \<Rightarrow> int res" where
  "mem_GetLastRoot m = Inr (LastRoot m)"

definition mem_SetLastRoot :: "mem_db \<Rightarrow> int \<Rightarrow> mem_db res" where
  "mem_SetLastRoot m value = Inr (m\<lparr>LastRoot := value\<rparr>)"

definition mem_GetDepth :: "mem_db \<Rightarrow> u8 res" where
  "mem_GetDepth m = Inr (Depth m)"

definition mem_SetDepth :: "mem_db \<Rightarrow> u8 \<Rightarrow> mem_db res" where
  "mem_SetDepth m depth = Inr (m\<lparr>Depth := depth\<rparr>)"

definition mem_Get :: "mem_db \<Rightarrow> node_key \<Rightarrow> node_value res" where
  "mem_Get m key = read_values 12 (Db m (key_hex key))"

definition mem_Insert :: "mem_db \<Rightarrow> node_key \<Rightarrow> node_value \<Rightarrow> mem_db res" where
  "mem_Insert m key value = Inr (m\<lparr>Db := (Db m)(key_hex key \<mapsto> map ConvertBigIntToHex value)\<rparr>)"

definition mem_Delete :: "mem_db \<Rightarrow> string \<Rightarrow> mem_db res" where
  "mem_Delete m key = Inr (m\<lparr>Db := (Db m)(key := None)\<rparr>)"

definition mem_DeleteByNodeKey :: "mem_db \<Rightarrow> node_key \<Rightarrow> mem_db res" where
  "mem_DeleteByNodeKey m key = Inr (m\<lparr>Db := (Db m)(key_hex key := None)\<rparr>)"

definition mem_GetAccountValue :: "mem_db \<Rightarrow> node_key \<Rightarrow> node_value res" where
  "mem_GetAccountValue m key = read_values 8 (DbAccVal m (key_hex key))"

definition mem_InsertAccountValue :: "mem_db \<Rightarrow> node_key \<Rightarrow> node_value \<Rightarrow> mem_db res" where
  "mem_InsertAccountValue m key value =
     Inr (m\<lparr>DbAccVal := (DbAccVal m)(key_hex key \<mapsto> map ConvertBigIntToHex value)\<rparr>)"

text \<open>Key sources are keyed by the decimal text of the scalar.\<close>

definition key_dec :: "node_key \<Rightarrow> string" where
  "key_dec key = big_Text 10 (ArrayToScalar (nk_list key))"

definition mem_InsertKeySource :: "mem_db \<Rightarrow> node_key \<Rightarrow> bytes \<Rightarrow> mem_db res" where
  "mem_InsertKeySource m key value = Inr (m\<lparr>DbKeySource := (DbKeySource m)(key_dec key \<mapsto> value)\<rparr>)"

definition mem_DeleteKeySource :: "mem_db \<Rightarrow> node_key \<Rightarrow> mem_db res" where
  "mem_DeleteKeySource m key = Inr (m\<lparr>DbKeySource := (DbKeySource m)(key_dec key := None)\<rparr>)"

definition mem_GetKeySource :: "mem_db \<Rightarrow> node_key \<Rightarrow> bytes res" where
  "mem_GetKeySource m key =
     (case DbKeySource m (key_dec key) of
        None \<Rightarrow> Inl (Error ''key not found'')
      | Some s \<Rightarrow> Inr s)"

definition mem_InsertHashKey :: "mem_db \<Rightarrow> node_key \<Rightarrow> node_key \<Rightarrow> mem_db res" where
  "mem_InsertHashKey m key value =
     Inr (m\<lparr>DbHashKey := (DbHashKey m)(key_hex key \<mapsto> big_Bytes (ArrayToScalar (nk_list value)))\<rparr>)"

definition mem_DeleteHashKey :: "mem_db \<Rightarrow> node_key \<Rightarrow> mem_db res" where
  "mem_DeleteHashKey m key = Inr (m\<lparr>DbHashKey := (DbHashKey m)(key_hex key := None)\<rparr>)"

definition mem_GetHashKey :: "mem_db \<Rightarrow> node_key \<Rightarrow> node_key res" where
  "mem_GetHashKey m key =
     (case DbHashKey m (key_hex key) of
        None \<Rightarrow> Inl (Error ''key not found'')
      | Some s \<Rightarrow> let na = ScalarToArray (big_SetBytes s) in
                  Inr (NodeKey (na ! 0) (na ! 1) (na ! 2) (na ! 3)))"

definition mem_ops :: "mem_db smt_db_ops" where
  "mem_ops = \<lparr>db_Get = mem_Get, db_Insert = mem_Insert, db_InsertHashKey = mem_InsertHashKey,
     db_GetDepth = mem_GetDepth, db_SetDepth = mem_SetDepth,
     db_GetLastRoot = mem_GetLastRoot, db_SetLastRoot = mem_SetLastRoot\<rparr>"

section \<open>Keys and values survive their texts\<close>

lemma ConvertHexToBigInt_ConvertBigIntToHex [simp]:
  "ConvertHexToBigInt (ConvertBigIntToHex n) = n"
proof (cases n)
  case None
  then show ?thesis
    by (simp add: ConvertHexToBigInt_def ConvertBigIntToHex_def TrimPrefix_def big_SetString_def
        parse_nat_def digit_val_def Let_def)
next
  case (Some x)
  then show ?thesis
    by (simp add: ConvertHexToBigInt_def ConvertBigIntToHex_def TrimPrefix_def big_SetString_Text)
qed

lemma ConvertBigIntToHex_inject [simp]:
  "ConvertBigIntToHex x = ConvertBigIntToHex y \<longleftrightarrow> x = y"
  by (metis ConvertHexToBigInt_ConvertBigIntToHex)

lemma ArrayToScalar_nonneg: "0 \<le> ArrayToScalar xs"
  by (induction xs) auto

lemma ArrayToScalar_inject:
  "length xs = length ys \<Longrightarrow> ArrayToScalar xs = ArrayToScalar ys \<longleftrightarrow> xs = ys"
proof (induction xs ys rule: list_induct2)
  case Nil
  then show ?case by simp
next
  case (Cons x xs y ys)
  have r: "(a * 2 ^ 64 + uint u = b * 2 ^ 64 + uint v) = (a = b \<and> u = v)"
    for a b :: int and u v :: u64
  proof
    assume eq: "a * 2 ^ 64 + uint u = b * 2 ^ 64 + uint v"
    have "(a * 2 ^ 64 + uint u) mod 2 ^ 64 = uint u" "(b * 2 ^ 64 + uint v) mod 2 ^ 64 = uint v"
      using uint_lt2p [of u] uint_lt2p [of v] by (simp_all add: mod_pos_pos_trivial)
    with eq have "uint u = uint v" by simp
    with eq show "a = b \<and> u = v" by (simp add: word_uint_eq_iff)
  qed auto
  show ?case unfolding ArrayToScalar.simps r using Cons.IH by auto
qed

lemma key_hex_inject [simp]: "key_hex k = key_hex k' \<longleftrightarrow> k = k'"
  by (simp add: key_hex_def ArrayToScalar_inject)

lemma key_dec_inject [simp]: "key_dec k = key_dec k' \<longleftrightarrow> k = k'"
  by (simp add: key_dec_def big_Text_inject ArrayToScalar_inject)

section \<open>The in-memory database is a node store\<close>

definition mem_invar :: "mem_db \<Rightarrow> bool" where
  "mem_invar m \<longleftrightarrow> (\<forall>h vs. Db m h = Some vs \<longrightarrow> length vs = 12)"

definition mem_node_at :: "mem_db \<Rightarrow> node_key \<Rightarrow> node_value" where
  "mem_node_at m k =
     (case Db m (key_hex k) of None \<Rightarrow> replicate 12 None | Some vs \<Rightarrow> map ConvertHexToBigInt vs)"

lemma mem_invar_NewMemDb [simp]: "mem_invar NewMemDb"
  by (simp add: mem_invar_def NewMemDb_def)

lemma mem_node_at_NewMemDb [simp]: "mem_node_at NewMemDb k = replicate 12 None"
  by (simp add: mem_node_at_def NewMemDb_def)

lemma map_ConvertHexToBigInt [simp]: "map (ConvertHexToBigInt \<circ> ConvertBigIntToHex) xs = xs"
  by (rule map_idI) simp

lemma mem_Get_node_at: "mem_invar m \<Longrightarrow> mem_Get m k = Inr (mem_node_at m k)"
  by (auto simp: mem_Get_def read_values_def mem_node_at_def mem_invar_def split: option.splits)

lemma mem_Insert_node_at:
  "mem_Insert m k v = Inr m' \<Longrightarrow> mem_node_at m' = (mem_node_at m)(k := v)"
  by (auto simp: mem_Insert_def mem_node_at_def fun_eq_iff)

lemma mem_Insert_invar:
  "mem_invar m \<Longrightarrow> length v = 12 \<Longrightarrow> mem_Insert m k v = Inr m' \<Longrightarrow> mem_invar m'"
  by (auto simp: mem_Insert_def mem_invar_def split: if_splits)

lemma length_ConcatArrays8AndCapacity:
  "length inp = 8 \<Longrightarrow> length (ConcatArrays8AndCapacity inp cap) = 12"
  by (simp add: ConcatArrays8AndCapacity_def)

interpretation mem: smt_db mem_ops mem_node_at mem_invar
proof unfold_locales
  fix m :: mem_db and k :: node_key
  assume "mem_invar m"
  then show "db_Get mem_ops m k = Inr (mem_node_at m k)"
    by (simp add: mem_ops_def mem_Get_node_at)
next
  fix m :: mem_db and inp :: "u64 list" and k cap :: node_key
  assume "mem_invar m" "length inp = 8"
  then show "\<exists>m'. db_Insert mem_ops m k (ConcatArrays8AndCapacity inp cap) = Inr m' \<and> mem_invar m' \<and>
      mem_node_at m' = (mem_node_at m)(k := ConcatArrays8AndCapacity inp cap)"
    using mem_Insert_node_at mem_Insert_invar length_ConcatArrays8AndCapacity
    by (fastforce simp: mem_ops_def mem_Insert_def)
qed (auto simp: mem_ops_def mem_InsertHashKey_def mem_GetDepth_def mem_SetDepth_def mem_SetLastRoot_def
    mem_GetLastRoot_def mem_invar_def mem_node_at_def fun_eq_iff)

end
