(* ===== verification/Smt_Insert.thy ===== *)
theory Smt_Insert
  imports Smt_Db
begin

text \<open>
  The single-key insertion of the sparse Merkle tree, \<^verbatim>\<open>src/smt/pkg/smt/smt.go\<close>: the walk
  down the path of the key, the seven modes (update, insertFound, insertNotFound, deleteFound,
  deleteNotFound, deleteLast, zeroToZero) and the rehashing of the path up to the root.
  The siblings map of the code has the keys \<open>0, 1, \<dots>\<close>; it is the list of its values.
  \<^verbatim>\<open>proofHashCounter\<close> is written and never read, and is left out. The hash function and the node
  store are arguments.
\<close>

record smt_response =
  NewRootScalar :: node_key
  Mode :: string

record insert_walk =
  w_oldRoot :: node_key
  w_level :: nat
  w_usedKey :: "int list"
  w_siblings :: "node_value list"
  w_foundKey :: "node_key option"
  w_foundVal :: node_value
  w_foundRKey :: node_key
  w_foundOldValHash :: node_key

definition walk_init :: "node_key \<Rightarrow> insert_walk" where
  "walk_init oldRoot =
     \<lparr>w_oldRoot = oldRoot, w_level = 0, w_usedKey = [], w_siblings = [], w_foundKey = None,
      w_foundVal = replicate 8 None, w_foundRKey = zero_key, w_foundOldValHash = zero_key\<rparr>"

section \<open>Saving nodes\<close>

definition hashSave ::
  "'s smt_db_ops \<Rightarrow> bool \<Rightarrow> 's \<Rightarrow> u64 list \<Rightarrow> node_key \<Rightarrow> node_key \<Rightarrow> 's res" where
  "hashSave ops noSave s inp capacity h =
     (if noSave then Inr s else db_Insert ops s h (ConcatArrays8AndCapacity inp capacity))"

definition hashcalcAndSave ::
  "'s smt_db_ops \<Rightarrow> poseidon \<Rightarrow> bool \<Rightarrow> 's \<Rightarrow> u64 list \<Rightarrow> node_key \<Rightarrow> (node_key \<times> 's) res" where
  "hashcalcAndSave ops H noSave s inp capacity =
     (let h = Hash H inp capacity in
      res_bind (hashSave ops noSave s inp capacity h) (\<lambda>s. Inr (h, s)))"

text \<open>The value node: hashed here unless the caller brings its hash.\<close>

definition save_value ::
  "'s smt_db_ops \<Rightarrow> poseidon \<Rightarrow> bool \<Rightarrow> 's \<Rightarrow> node_value \<Rightarrow> node_key \<Rightarrow> (node_key \<times> 's) res" where
  "save_value ops H noSave s v newValH =
     (if newValH = zero_key
      then hashcalcAndSave ops H noSave s (ToUintArray (Some v)) BranchCapacity
      else res_bind (hashSave ops noSave s (ToUintArray (Some v)) BranchCapacity newValH)
             (\<lambda>s. Inr (newValH, s)))"

section \<open>The walk\<close>

function walk_down ::
  "'s smt_db_ops \<Rightarrow> 's \<Rightarrow> int list \<Rightarrow> insert_walk \<Rightarrow> insert_walk res" where
  "walk_down ops s keys w =
     (if IsZero (w_oldRoot w) \<or> w_foundKey w \<noteq> None then Inr w
      else res_bind (db_Get ops s (w_oldRoot w)) (\<lambda>sl.
        if IsFinalNode sl then
          res_bind (NodeKeyFromBigIntArray (slice 4 8 sl)) (\<lambda>valHash.
          res_bind (db_Get ops s valHash) (\<lambda>fva.
          res_bind (NodeKeyFromBigIntArray (slice 0 4 sl)) (\<lambda>rKey.
            Inr (w\<lparr>w_siblings := w_siblings w @ [sl], w_foundOldValHash := valHash,
                   w_foundRKey := rKey, w_foundVal := Value8FromBigIntArray (slice 0 8 fva),
                   w_foundKey := Some (JoinKey (w_usedKey w) rKey)\<rparr>))))
        else if w_level w < length keys then
          res_bind (NodeKeyFromBigIntArray
              (slice (nat (keys ! w_level w) * 4) (nat (keys ! w_level w) * 4 + 4) sl)) (\<lambda>r.
            walk_down ops s keys
              (w\<lparr>w_siblings := w_siblings w @ [sl], w_oldRoot := r,
                 w_usedKey := w_usedKey w @ [keys ! w_level w], w_level := Suc (w_level w)\<rparr>))
        else Inl (Panic ''index out of range'')))"
  by pat_completeness auto
termination
  by (relation "measure (\<lambda>(ops, s, keys, w). length keys - w_level w)") auto

declare walk_down.simps [simp del]

section \<open>Rewriting the path\<close>

text \<open>The state of the second half of \<^verbatim>\<open>insert\<close>; \<open>p_level\<close> runs down to \<open>-1\<close>.\<close>

record 's insert_path =
  p_siblings :: "node_value list"
  p_level :: int
  p_newRoot :: node_key
  p_mode :: string
  p_db :: 's

text \<open>\<^verbatim>\<open>siblings[level][keys[level]*4+j] = h[j]\<close> for the four words.\<close>

definition set_child :: "node_value \<Rightarrow> int \<Rightarrow> node_key \<Rightarrow> node_value" where
  "set_child sl b h =
     fold (\<lambda>j xs. xs[nat b * 4 + j := Some (uint (nk_nth h j))]) [0, 1, 2, 3] sl"

definition set_sibling :: "int list \<Rightarrow> node_key \<Rightarrow> nat \<Rightarrow> node_value list \<Rightarrow> node_value list" where
  "set_sibling keys h l sibs = sibs[l := set_child (sibs ! l) (keys ! l) h]"

text \<open>A new child goes below the sibling of the current level, or becomes the root.\<close>

definition place_child :: "int list \<Rightarrow> node_key \<Rightarrow> 's insert_path \<Rightarrow> 's insert_path" where
  "place_child keys h p =
     (if p_level p \<ge> 0
      then p\<lparr>p_siblings := set_sibling keys h (nat (p_level p)) (p_siblings p)\<rparr>
      else p\<lparr>p_newRoot := h\<rparr>)"

definition node_with :: "int \<Rightarrow> node_key \<Rightarrow> u64 list \<Rightarrow> u64 list" where
  "node_with b h node = fold (\<lambda>j xs. xs[nat b * 4 + j := nk_nth h j]) [0, 1, 2, 3] node"

definition insert_update ::
  "'s smt_db_ops \<Rightarrow> poseidon \<Rightarrow> bool \<Rightarrow> node_key \<Rightarrow> node_value \<Rightarrow> node_key \<Rightarrow> insert_walk \<Rightarrow>
   's insert_path \<Rightarrow> 's insert_path res" where
  "insert_update ops H noSave k v newValH w p =
     res_bind (save_value ops H noSave (p_db p) v newValH) (\<lambda>(valH, s).
     res_bind (hashcalcAndSave ops H noSave s (ConcatArrays4 (w_foundRKey w) valH) LeafCapacity)
       (\<lambda>(newLeafHash, s).
     res_bind (db_InsertHashKey ops s newLeafHash k) (\<lambda>s.
       Inr (place_child (GetPath k) newLeafHash (p\<lparr>p_mode := ''update'', p_db := s\<rparr>)))))"

function first_diff :: "int list \<Rightarrow> int list \<Rightarrow> nat \<Rightarrow> nat" where
  "first_diff keys foundKeys level2 =
     (if level2 \<ge> length keys \<or> level2 \<ge> length foundKeys then level2
      else if keys ! level2 \<noteq> foundKeys ! level2 then level2
      else first_diff keys foundKeys (Suc level2))"
  by pat_completeness auto
termination
  by (relation "measure (\<lambda>(keys, foundKeys, l). length keys - l)") auto

declare first_diff.simps [simp del]

text \<open>The loop that hashes the single-child branches above the split, from \<^verbatim>\<open>level2\<close> down to
  \<^verbatim>\<open>level + 1\<close>; the list holds those levels in that order.\<close>

fun hash_up ::
  "'s smt_db_ops \<Rightarrow> poseidon \<Rightarrow> bool \<Rightarrow> int list \<Rightarrow> nat list \<Rightarrow> 's \<Rightarrow> node_key \<Rightarrow> (node_key \<times> 's) res" where
  "hash_up ops H noSave keys [] s r2 = Inr (r2, s)"
| "hash_up ops H noSave keys (l # ls) s r2 =
     res_bind (hashcalcAndSave ops H noSave s (node_with (keys ! l) r2 (replicate 8 0)) BranchCapacity)
       (\<lambda>(r2, s). hash_up ops H noSave keys ls s r2)"

text \<open>The errors of \<^verbatim>\<open>InsertHashKey\<close> are dropped in this mode.\<close>

definition insert_found ::
  "'s smt_db_ops \<Rightarrow> poseidon \<Rightarrow> bool \<Rightarrow> node_key \<Rightarrow> node_value \<Rightarrow> node_key \<Rightarrow> insert_walk \<Rightarrow>
   node_key \<Rightarrow> 's insert_path \<Rightarrow> 's insert_path res" where
  "insert_found ops H noSave k v newValH w foundKey p =
     (let keys = GetPath k; foundKeys = GetPath foundKey;
          level2 = first_diff keys foundKeys (nat (p_level p + 1));
          oldKey = RemoveKeyBits foundKey (level2 + 1) in
      res_bind (hashcalcAndSave ops H noSave (p_db p) (ConcatArrays4 oldKey (w_foundOldValHash w)) LeafCapacity)
        (\<lambda>(oldLeafHash, s).
      res_bind (drop_err s (db_InsertHashKey ops s oldLeafHash foundKey)) (\<lambda>s.
      let newKey = RemoveKeyBits k (level2 + 1) in
      res_bind (save_value ops H noSave s v newValH) (\<lambda>(valH, s).
      res_bind (hashcalcAndSave ops H noSave s (ConcatArrays4 newKey valH) LeafCapacity) (\<lambda>(newLeafHash, s).
      res_bind (drop_err s (db_InsertHashKey ops s newLeafHash k)) (\<lambda>s.
      if level2 \<ge> length keys then Inl (Panic ''index out of range'')
      else
        res_bind (hashcalcAndSave ops H noSave s
            (node_with (foundKeys ! level2) oldLeafHash
              (node_with (keys ! level2) newLeafHash (replicate 8 0))) BranchCapacity) (\<lambda>(r2, s).
        res_bind (hash_up ops H noSave keys (rev [nat (p_level p + 1)..<level2]) s r2) (\<lambda>(r2, s).
          Inr (place_child keys r2 (p\<lparr>p_mode := ''insertFound'', p_db := s\<rparr>))))))))))"

definition insert_not_found ::
  "'s smt_db_ops \<Rightarrow> poseidon \<Rightarrow> bool \<Rightarrow> node_key \<Rightarrow> node_value \<Rightarrow> node_key \<Rightarrow> 's insert_path \<Rightarrow>
   's insert_path res" where
  "insert_not_found ops H noSave k v newValH p =
     (let newKey = RemoveKeyBits k (nat (p_level p + 1)) in
      res_bind (save_value ops H noSave (p_db p) v newValH) (\<lambda>(valH, s).
      res_bind (hashcalcAndSave ops H noSave s (ConcatArrays4 newKey valH) LeafCapacity) (\<lambda>(newLeafHash, s).
      res_bind (drop_err s (db_InsertHashKey ops s newLeafHash k)) (\<lambda>s.
        Inr (place_child (GetPath k) newLeafHash (p\<lparr>p_mode := ''insertNotFound'', p_db := s\<rparr>))))))"

section \<open>Deleting\<close>

text \<open>
  \<^verbatim>\<open>for uKey >= 0 && level >= 0\<close>: the level the remaining leaf moves up to. The argument is
  \<^verbatim>\<open>level + 1\<close>, the result the final \<^verbatim>\<open>level + 1\<close>.
\<close>

fun climb :: "node_value list \<Rightarrow> int \<Rightarrow> nat \<Rightarrow> nat res" where
  "climb sibs uKey 0 = Inr 0"
| "climb sibs uKey (Suc n) =
     (if uKey < 0 then Inr (Suc n)
      else if n = 0 then Inr 0
      else res_bind (IsUniqueSibling (sibs ! (n - 1))) (\<lambda>uKey. climb sibs uKey n))"

definition map_put :: "'a list \<Rightarrow> nat \<Rightarrow> 'a \<Rightarrow> 'a list" where
  "map_put xs i x = (if i < length xs then xs[i := x] else xs @ [x])"

definition insert_delete ::
  "'s smt_db_ops \<Rightarrow> poseidon \<Rightarrow> bool \<Rightarrow> node_key \<Rightarrow> int list \<Rightarrow> 's insert_path \<Rightarrow> 's insert_path res" where
  "insert_delete ops H noSave k usedKey p =
     (if p_level p \<ge> 0 then
        let keys = GetPath k; level = nat (p_level p);
            sibs = set_sibling keys zero_key level (p_siblings p) in
        res_bind (IsUniqueSibling (sibs ! level)) (\<lambda>uKey.
        if uKey \<ge> 0 then
          res_bind (NodeKeyFromBigIntArray (slice (nat uKey * 4) (nat uKey * 4 + 4) (sibs ! level))) (\<lambda>dk.
          res_bind (db_Get ops (p_db p) dk) (\<lambda>sl.
          let sibs = map_put sibs (level + 1) sl in
          if IsFinalNode sl then
            res_bind (Get4to8 sl) (\<lambda>valH.
            res_bind (Get0to4 sl) (\<lambda>rKey.
            let insKey = JoinKey (usedKey @ [uKey]) rKey in
            res_bind (climb sibs uKey (level + 1)) (\<lambda>n.
            let oldKey = RemoveKeyBits insKey n in
            res_bind (hashcalcAndSave ops H noSave (p_db p) (ConcatArrays4 oldKey valH) LeafCapacity)
              (\<lambda>(oldLeafHash, s).
            res_bind (drop_err s (db_InsertHashKey ops s oldLeafHash insKey)) (\<lambda>s.
              Inr (place_child keys oldLeafHash
                (p\<lparr>p_siblings := sibs, p_level := int n - 1, p_mode := ''deleteFound'', p_db := s\<rparr>)))))))
          else Inr (p\<lparr>p_siblings := sibs, p_mode := ''deleteNotFound''\<rparr>)))
        else Inr (p\<lparr>p_siblings := sibs, p_mode := ''deleteNotFound''\<rparr>))
      else Inr (p\<lparr>p_mode := ''deleteLast'', p_newRoot := zero_key\<rparr>))"

section \<open>Rehashing up to the root\<close>

definition updateDepth :: "'s smt_db_ops \<Rightarrow> 's \<Rightarrow> nat \<Rightarrow> 's res" where
  "updateDepth ops s newDepth =
     res_bind (drop_err 0 (db_GetDepth ops s)) (\<lambda>oldDepth.
     let newDepth = (if newDepth > 255 then 255 else newDepth);
         newDepthAsByte = of_nat newDepth in
     if oldDepth < newDepthAsByte then drop_err s (db_SetDepth ops s newDepthAsByte) else Inr s)"

text \<open>The final loop; the argument is \<^verbatim>\<open>level + 1\<close>.\<close>

fun rehash ::
  "'s smt_db_ops \<Rightarrow> poseidon \<Rightarrow> bool \<Rightarrow> int list \<Rightarrow> nat \<Rightarrow> node_value list \<Rightarrow> 's \<Rightarrow> node_key \<Rightarrow>
   (node_key \<times> 's) res" where
  "rehash ops H noSave keys 0 sibs s newRoot = Inr (newRoot, s)"
| "rehash ops H noSave keys (Suc level) sibs s newRoot =
     res_bind (NodeValue8FromBigIntArray (slice 0 8 (sibs ! level))) (\<lambda>hashValueIn.
     res_bind (NodeKeyFromBigIntArray (slice 8 12 (sibs ! level))) (\<lambda>hashCapIn.
     res_bind (hashcalcAndSave ops H noSave s (ToUintArray (Some hashValueIn)) hashCapIn) (\<lambda>(newRoot, s).
     rehash ops H noSave keys level
       (if level \<ge> 1 then set_sibling keys newRoot (level - 1) sibs else sibs) s newRoot)))"

section \<open>Insertion\<close>

definition insert_mode ::
  "'s smt_db_ops \<Rightarrow> poseidon \<Rightarrow> bool \<Rightarrow> node_key \<Rightarrow> node_value \<Rightarrow> node_key \<Rightarrow> insert_walk \<Rightarrow>
   's insert_path \<Rightarrow> 's insert_path res" where
  "insert_mode ops H noSave k v newValH w p =
     (if \<not> value8_IsZero (Some v) then
        (case w_foundKey w of
           Some foundKey \<Rightarrow>
             if IsEqualTo foundKey k then insert_update ops H noSave k v newValH w p
             else insert_found ops H noSave k v newValH w foundKey p
         | None \<Rightarrow> insert_not_found ops H noSave k v newValH p)
      else
        (case w_foundKey w of
           Some foundKey \<Rightarrow>
             if IsEqualTo foundKey k then insert_delete ops H noSave k (butlast (w_usedKey w)) p
             else Inr (p\<lparr>p_mode := ''zeroToZero''\<rparr>)
         | None \<Rightarrow> Inr (p\<lparr>p_mode := ''zeroToZero''\<rparr>)))"

definition smt_insert ::
  "'s smt_db_ops \<Rightarrow> poseidon \<Rightarrow> bool \<Rightarrow> 's \<Rightarrow> node_key \<Rightarrow> node_value \<Rightarrow> node_key \<Rightarrow> node_key \<Rightarrow>
   (smt_response \<times> 's) res" where
  "smt_insert ops H noSave s k v newValH oldRoot =
     res_bind (walk_down ops s (GetPath k) (walk_init oldRoot)) (\<lambda>w.
     res_bind (insert_mode ops H noSave k v newValH w
         \<lparr>p_siblings = w_siblings w, p_level = int (w_level w) - 1, p_newRoot = oldRoot,
          p_mode = ''not run'', p_db = s\<rparr>) (\<lambda>p.
     let sibs = RemoveOver (p_siblings p) (nat (p_level p + 1)) in
     res_bind (updateDepth ops (p_db p) (length sibs)) (\<lambda>s.
     res_bind (rehash ops H noSave (GetPath k) (nat (p_level p + 1)) sibs s (p_newRoot p)) (\<lambda>(newRoot, s).
       Inr (\<lparr>NewRootScalar = newRoot, Mode = p_mode p\<rparr>, s)))))"

definition getLastRoot :: "'s smt_db_ops \<Rightarrow> 's \<Rightarrow> node_key res" where
  "getLastRoot ops s = res_bind (db_GetLastRoot ops s) (\<lambda>or. Inr (ScalarToRoot or))"

definition setLastRoot :: "'s smt_db_ops \<Rightarrow> 's \<Rightarrow> node_key \<Rightarrow> 's res" where
  "setLastRoot ops s newRoot = db_SetLastRoot ops s (ToBigInt newRoot)"

definition insertSingle ::
  "'s smt_db_ops \<Rightarrow> poseidon \<Rightarrow> bool \<Rightarrow> 's \<Rightarrow> node_key \<Rightarrow> node_value \<Rightarrow> node_key \<Rightarrow>
   (smt_response \<times> 's) res" where
  "insertSingle ops H noSave s k v newValH =
     res_bind (getLastRoot ops s) (\<lambda>or.
     res_bind (smt_insert ops H noSave s k v newValH or) (\<lambda>(smtr, s).
     res_bind (setLastRoot ops s (NewRootScalar smtr)) (\<lambda>s. Inr (smtr, s))))"

definition smt_Insert ::
  "'s smt_db_ops \<Rightarrow> poseidon \<Rightarrow> bool \<Rightarrow> 's \<Rightarrow> node_key \<Rightarrow> node_value \<Rightarrow> (smt_response \<times> 's) res" where
  "smt_Insert ops H noSave s key value = insertSingle ops H noSave s key value zero_key"

definition InsertKA ::
  "'s smt_db_ops \<Rightarrow> poseidon \<Rightarrow> bool \<Rightarrow> 's \<Rightarrow> node_key \<Rightarrow> int \<Rightarrow> (smt_response \<times> 's) res" where
  "InsertKA ops H noSave s key value =
     res_bind (NodeValue8FromBigIntArray (map Some (ScalarToArrayBig value))) (\<lambda>v.
       insertSingle ops H noSave s key v zero_key)"

end
