(* ===== verification/Smt_Tree.thy ===== *)
theory Smt_Tree
  imports Smt_Keys
begin

text \<open>
  The abstract sparse Merkle tree that the node store represents: leaves sit as high as the
  bits of their keys allow. Its root hash, the nodes it needs in the store, its content as a map,
  and the insertion and deletion that \<^verbatim>\<open>SMT.insert\<close> implements.
\<close>

type_synonym value8 = "u64 list"

datatype smt_tree = Tip | Lf node_key value8 | Br smt_tree smt_tree

fun leaf_pre :: "poseidon \<Rightarrow> nat \<Rightarrow> node_key \<Rightarrow> value8 \<Rightarrow> u64 list \<times> node_key" where
  "leaf_pre H d k v = (ConcatArrays4 (RemoveKeyBits k d) (H v BranchCapacity), LeafCapacity)"

fun tree_root :: "poseidon \<Rightarrow> nat \<Rightarrow> smt_tree \<Rightarrow> node_key" where
  "tree_root H d Tip = zero_key"
| "tree_root H d (Lf k v) = case_prod H (leaf_pre H d k v)"
| "tree_root H d (Br l r) =
     H (ConcatArrays4 (tree_root H (Suc d) l) (tree_root H (Suc d) r)) BranchCapacity"

definition branch_pre :: "poseidon \<Rightarrow> nat \<Rightarrow> smt_tree \<Rightarrow> smt_tree \<Rightarrow> u64 list \<times> node_key" where
  "branch_pre H d l r =
     (ConcatArrays4 (tree_root H (Suc d) l) (tree_root H (Suc d) r), BranchCapacity)"

text \<open>The hash inputs of the nodes of a tree whose root is at level \<open>d\<close>.\<close>

fun tree_nodes :: "poseidon \<Rightarrow> nat \<Rightarrow> smt_tree \<Rightarrow> (u64 list \<times> node_key) set" where
  "tree_nodes H d Tip = {}"
| "tree_nodes H d (Lf k v) = {(v, BranchCapacity), leaf_pre H d k v}"
| "tree_nodes H d (Br l r) =
     insert (branch_pre H d l r) (tree_nodes H (Suc d) l \<union> tree_nodes H (Suc d) r)"

fun tree_keys :: "smt_tree \<Rightarrow> node_key set" where
  "tree_keys Tip = {}"
| "tree_keys (Lf k v) = {k}"
| "tree_keys (Br l r) = tree_keys l \<union> tree_keys r"

text \<open>A value is eight words, not all zero.\<close>

definition value_ok :: "value8 \<Rightarrow> bool" where
  "value_ok v \<longleftrightarrow> length v = 8 \<and> \<not> list_all (\<lambda>w. w = 0) v"

text \<open>No branch has fewer than two leaves below it.\<close>

fun branching :: "smt_tree \<Rightarrow> smt_tree \<Rightarrow> bool" where
  "branching Tip (Br l r) = True"
| "branching Tip _ = False"
| "branching (Lf k v) Tip = False"
| "branching _ _ = True"

fun wf_tree :: "nat \<Rightarrow> smt_tree \<Rightarrow> bool" where
  "wf_tree d Tip = True"
| "wf_tree d (Lf k v) = value_ok v"
| "wf_tree d (Br l r) \<longleftrightarrow>
     d < 256 \<and> wf_tree (Suc d) l \<and> wf_tree (Suc d) r \<and> branching l r \<and>
     (\<forall>k \<in> tree_keys l. \<not> kbit k d) \<and> (\<forall>k \<in> tree_keys r. kbit k d)"

fun tree_lookup :: "nat \<Rightarrow> smt_tree \<Rightarrow> node_key \<Rightarrow> value8 option" where
  "tree_lookup d Tip k = None"
| "tree_lookup d (Lf k' v) k = (if k = k' then Some v else None)"
| "tree_lookup d (Br l r) k = (if kbit k d then tree_lookup (Suc d) r k else tree_lookup (Suc d) l k)"

text \<open>Two different keys that share a prefix: a chain of branches down to their first different bit.\<close>

function tree_split :: "nat \<Rightarrow> node_key \<Rightarrow> value8 \<Rightarrow> node_key \<Rightarrow> value8 \<Rightarrow> smt_tree" where
  "tree_split d k v k' v' =
     (if d \<ge> 256 then Tip
      else if kbit k d \<noteq> kbit k' d then
        (if kbit k d then Br (Lf k' v') (Lf k v) else Br (Lf k v) (Lf k' v'))
      else if kbit k d then Br Tip (tree_split (Suc d) k v k' v')
      else Br (tree_split (Suc d) k v k' v') Tip)"
  by pat_completeness auto
termination
  by (relation "measure (\<lambda>(d, _). 256 - d)") auto

declare tree_split.simps [simp del]

fun tree_insert :: "nat \<Rightarrow> node_key \<Rightarrow> value8 \<Rightarrow> smt_tree \<Rightarrow> smt_tree" where
  "tree_insert d k v Tip = Lf k v"
| "tree_insert d k v (Lf k' v') = (if k = k' then Lf k v else tree_split d k v k' v')"
| "tree_insert d k v (Br l r) =
     (if kbit k d then Br l (tree_insert (Suc d) k v r) else Br (tree_insert (Suc d) k v l) r)"

fun collapse :: "smt_tree \<Rightarrow> smt_tree \<Rightarrow> smt_tree" where
  "collapse Tip Tip = Tip"
| "collapse Tip (Lf k v) = Lf k v"
| "collapse (Lf k v) Tip = Lf k v"
| "collapse l r = Br l r"

fun tree_delete :: "nat \<Rightarrow> node_key \<Rightarrow> smt_tree \<Rightarrow> smt_tree" where
  "tree_delete d k Tip = Tip"
| "tree_delete d k (Lf k' v') = (if k = k' then Tip else Lf k' v')"
| "tree_delete d k (Br l r) =
     (if kbit k d then collapse l (tree_delete (Suc d) k r) else collapse (tree_delete (Suc d) k l) r)"

text \<open>What inserting a value means: the zero value deletes.\<close>

definition tree_update :: "node_key \<Rightarrow> value8 \<Rightarrow> smt_tree \<Rightarrow> smt_tree" where
  "tree_update k v t =
     (if list_all (\<lambda>w. w = 0) v then tree_delete 0 k t else tree_insert 0 k v t)"

definition map_update :: "node_key \<Rightarrow> value8 \<Rightarrow> (node_key \<rightharpoonup> value8) \<Rightarrow> (node_key \<rightharpoonup> value8)" where
  "map_update k v m = (if list_all (\<lambda>w. w = 0) v then m(k := None) else m(k \<mapsto> v))"

section \<open>Prefixes\<close>

definition same_prefix :: "nat \<Rightarrow> node_key \<Rightarrow> node_key \<Rightarrow> bool" where
  "same_prefix d k k' \<longleftrightarrow> (\<forall>j < d. kbit k j = kbit k' j)"

lemma same_prefix_0 [simp]: "same_prefix 0 k k'"
  by (simp add: same_prefix_def)

lemma same_prefix_refl [simp]: "same_prefix d k k"
  by (simp add: same_prefix_def)

lemma same_prefix_Suc: "same_prefix (Suc d) k k' \<longleftrightarrow> same_prefix d k k' \<and> kbit k d = kbit k' d"
  by (auto simp: same_prefix_def less_Suc_eq)

lemma same_prefix_full: "same_prefix d k k' \<Longrightarrow> 256 \<le> d \<Longrightarrow> k = k'"
  by (rule kbit_eqI) (simp add: same_prefix_def)

text \<open>All keys of a tree share the first \<open>d\<close> bits of \<open>k\<close>.\<close>

definition below :: "nat \<Rightarrow> node_key \<Rightarrow> smt_tree \<Rightarrow> bool" where
  "below d k t \<longleftrightarrow> (\<forall>k' \<in> tree_keys t. same_prefix d k k')"

lemma below_simps [simp]:
  "below 0 k t" "below d k Tip" "below d k (Lf k' v) \<longleftrightarrow> same_prefix d k k'"
  "below d k (Br l r) \<longleftrightarrow> below d k l \<and> below d k r"
  by (auto simp: below_def)

lemma below_child:
  assumes "wf_tree d (Br l r)" "below d k (Br l r)"
  shows "kbit k d \<Longrightarrow> below (Suc d) k r" "\<not> kbit k d \<Longrightarrow> below (Suc d) k l"
  using assms by (auto simp: below_def same_prefix_Suc)

section \<open>Keys\<close>

lemma tree_lookup_None: "k \<notin> tree_keys t \<Longrightarrow> tree_lookup d t k = None"
  by (induction t arbitrary: d) auto

lemma tree_keys_lookup: "wf_tree d t \<Longrightarrow> k \<in> tree_keys t \<longleftrightarrow> tree_lookup d t k \<noteq> None"
  by (induction t arbitrary: d) auto

lemma tree_keys_split: "k \<noteq> k' \<Longrightarrow> same_prefix d k k' \<Longrightarrow> tree_keys (tree_split d k v k' v') = {k, k'}"
proof (induction d k v k' v' rule: tree_split.induct)
  case (1 d k v k' v')
  then show ?case
    using same_prefix_full [of d k k']
    by (subst tree_split.simps) (auto simp: same_prefix_Suc)
qed

lemma tree_keys_insert:
  "wf_tree d t \<Longrightarrow> below d k t \<Longrightarrow> tree_keys (tree_insert d k v t) = insert k (tree_keys t)"
proof (induction t arbitrary: d)
  case (Lf k' v')
  then show ?case by (auto simp: tree_keys_split)
next
  case (Br l r)
  then show ?case using below_child [OF Br.prems] by auto
qed simp

lemma tree_keys_collapse [simp]: "tree_keys (collapse l r) = tree_keys l \<union> tree_keys r"
  by (induction l r rule: collapse.induct) auto

lemma tree_keys_delete: "wf_tree d t \<Longrightarrow> tree_keys (tree_delete d k t) = tree_keys t - {k}"
  by (induction t arbitrary: d) auto

section \<open>The updates keep the shape\<close>

definition is_Br :: "smt_tree \<Rightarrow> bool" where
  "is_Br t = (case t of Br l r \<Rightarrow> True | _ \<Rightarrow> False)"

lemma is_Br_simps [simp]: "\<not> is_Br Tip" "\<not> is_Br (Lf k v)" "is_Br (Br l r)"
  by (simp_all add: is_Br_def)

lemma branching_iff: "branching l r \<longleftrightarrow> is_Br l \<or> is_Br r \<or> l \<noteq> Tip \<and> r \<noteq> Tip"
  by (induction l r rule: branching.induct) auto

lemma is_Br_split: "k \<noteq> k' \<Longrightarrow> same_prefix d k k' \<Longrightarrow> is_Br (tree_split d k v k' v')"
  using same_prefix_full [of d k k'] by (subst tree_split.simps) auto

lemma wf_tree_split:
  "k \<noteq> k' \<Longrightarrow> same_prefix d k k' \<Longrightarrow> value_ok v \<Longrightarrow> value_ok v' \<Longrightarrow>
   wf_tree d (tree_split d k v k' v')"
proof (induction d k v k' v' rule: tree_split.induct)
  case (1 d k v k' v')
  have "d < 256" using same_prefix_full [of d k k'] "1.prems" by (meson not_le)
  then show ?case
    using 1 is_Br_split [of k k' "Suc d" v v'] tree_keys_split [of k k' "Suc d" v v']
    by (subst tree_split.simps) (auto simp: same_prefix_Suc branching_iff)
qed

lemma tree_insert_not_Tip: "below d k t \<Longrightarrow> tree_insert d k v t \<noteq> Tip"
  by (cases t) (auto, metis is_Br_split is_Br_simps(1))

lemma is_Br_insert: "is_Br t \<Longrightarrow> is_Br (tree_insert d k v t)"
  by (cases t) auto

lemma wf_tree_insert:
  "wf_tree d t \<Longrightarrow> below d k t \<Longrightarrow> value_ok v \<Longrightarrow> wf_tree d (tree_insert d k v t)"
proof (induction t arbitrary: d)
  case (Lf k' v')
  then show ?case by (auto intro: wf_tree_split)
next
  case (Br l r)
  show ?case
  proof (cases "kbit k d")
    case True
    then show ?thesis
      using Br below_child(1) [OF Br.prems(1,2) True] tree_keys_insert [of "Suc d" r k v]
        tree_insert_not_Tip [of "Suc d" k r v] is_Br_insert [of r "Suc d" k v]
      by (auto simp: branching_iff)
  next
    case False
    then show ?thesis
      using Br below_child(2) [OF Br.prems(1,2) False] tree_keys_insert [of "Suc d" l k v]
        tree_insert_not_Tip [of "Suc d" k l v] is_Br_insert [of l "Suc d" k v]
      by (auto simp: branching_iff)
  qed
qed simp

lemma wf_tree_collapse:
  "d < 256 \<Longrightarrow> wf_tree (Suc d) l \<Longrightarrow> wf_tree (Suc d) r \<Longrightarrow>
   \<forall>k \<in> tree_keys l. \<not> kbit k d \<Longrightarrow> \<forall>k \<in> tree_keys r. kbit k d \<Longrightarrow> wf_tree d (collapse l r)"
  by (induction l r rule: collapse.induct) (auto simp: branching_iff)

lemma wf_tree_delete: "wf_tree d t \<Longrightarrow> wf_tree d (tree_delete d k t)"
proof (induction t arbitrary: d)
  case (Br l r)
  then show ?case
    using tree_keys_delete [of "Suc d" r k] tree_keys_delete [of "Suc d" l k]
    by (auto intro!: wf_tree_collapse)
qed auto

section \<open>The updates act on the content\<close>

lemma tree_lookup_split:
  "k \<noteq> k' \<Longrightarrow> same_prefix d k k' \<Longrightarrow>
   tree_lookup d (tree_split d k v k' v') x =
     (if x = k then Some v else if x = k' then Some v' else None)"
proof (induction d k v k' v' rule: tree_split.induct)
  case (1 d k v k' v')
  then show ?case
    using same_prefix_full [of d k k'] tree_keys_split [of k k' "Suc d" v v']
    by (subst tree_split.simps) (auto simp: same_prefix_Suc)
qed

lemma tree_lookup_insert:
  "wf_tree d t \<Longrightarrow> below d k t \<Longrightarrow>
   tree_lookup d (tree_insert d k v t) = (tree_lookup d t)(k \<mapsto> v)"
proof (induction t arbitrary: d)
  case (Lf k' v')
  then show ?case by (auto simp: tree_lookup_split fun_eq_iff)
next
  case (Br l r)
  then show ?case using below_child [OF Br.prems] by (auto simp: fun_eq_iff)
qed (simp add: fun_eq_iff)

lemma tree_lookup_collapse:
  "\<forall>k \<in> tree_keys l. \<not> kbit k d \<Longrightarrow> \<forall>k \<in> tree_keys r. kbit k d \<Longrightarrow>
   tree_lookup d (collapse l r) x = tree_lookup d (Br l r) x"
  by (induction l r rule: collapse.induct) auto

lemma tree_lookup_delete:
  "wf_tree d t \<Longrightarrow> tree_lookup d (tree_delete d k t) = (tree_lookup d t)(k := None)"
proof (induction t arbitrary: d)
  case (Br l r)
  then have wf: "wf_tree (Suc d) l" "wf_tree (Suc d) r"
    and b: "\<forall>k \<in> tree_keys l. \<not> kbit k d" "\<forall>k \<in> tree_keys r. kbit k d" by auto
  show ?case
  proof (cases "kbit k d")
    case True
    have "\<forall>x \<in> tree_keys (tree_delete (Suc d) k r). kbit x d"
      using b(2) by (simp add: tree_keys_delete [OF wf(2)])
    from tree_lookup_collapse [OF b(1) this] show ?thesis
      using Br.IH(2) [OF wf(2)] True by (auto simp: fun_eq_iff)
  next
    case False
    have "\<forall>x \<in> tree_keys (tree_delete (Suc d) k l). \<not> kbit x d"
      using b(1) by (simp add: tree_keys_delete [OF wf(1)])
    from tree_lookup_collapse [OF this b(2)] show ?thesis
      using Br.IH(1) [OF wf(1)] False by (auto simp: fun_eq_iff)
  qed
qed (auto simp: fun_eq_iff)

lemma wf_tree_update: "wf_tree 0 t \<Longrightarrow> length v = 8 \<Longrightarrow> wf_tree 0 (tree_update k v t)"
  by (simp add: tree_update_def wf_tree_delete wf_tree_insert value_ok_def)

lemma tree_lookup_update:
  "wf_tree 0 t \<Longrightarrow> tree_lookup 0 (tree_update k v t) = map_update k v (tree_lookup 0 t)"
  by (simp add: tree_update_def map_update_def tree_lookup_delete tree_lookup_insert)

section \<open>A tree is determined by its content\<close>

lemma branch_two_keys:
  "wf_tree d t \<Longrightarrow> is_Br t \<Longrightarrow> \<exists>x \<in> tree_keys t. \<exists>y \<in> tree_keys t. x \<noteq> y"
proof (induction t arbitrary: d)
  case (Br l r)
  show ?case
  proof (cases "is_Br l \<or> is_Br r")
    case True
    then show ?thesis using Br by fastforce
  next
    case False
    then obtain k v k' v' where "l = Lf k v" "r = Lf k' v'"
      using Br.prems by (cases l; cases r) auto
    then show ?thesis using Br.prems by auto
  qed
qed auto

lemma tree_keys_empty: "wf_tree d t \<Longrightarrow> tree_keys t = {} \<longleftrightarrow> t = Tip"
  using branch_two_keys [of d t] by (cases t) auto

lemma lookup_child:
  assumes "wf_tree d (Br l r)"
  shows "tree_lookup (Suc d) l x = (if kbit x d then None else tree_lookup d (Br l r) x)"
    "tree_lookup (Suc d) r x = (if kbit x d then tree_lookup d (Br l r) x else None)"
  using assms tree_lookup_None [of x l "Suc d"] tree_lookup_None [of x r "Suc d"] by auto

lemma wf_tree_unique:
  "wf_tree d t \<Longrightarrow> wf_tree d t' \<Longrightarrow> tree_lookup d t = tree_lookup d t' \<Longrightarrow> t = t'"
proof (induction t arbitrary: d t')
  case Tip
  have "tree_lookup d t' x = None" for x using fun_cong [OF Tip.prems(3), of x] by simp
  then have "tree_keys t' = {}" using tree_keys_lookup [OF Tip.prems(2)] by auto
  then show ?case using tree_keys_empty [OF Tip.prems(2)] by simp
next
  case (Lf k v)
  have "tree_lookup d t' x = (if x = k then Some v else None)" for x
    using fun_cong [OF Lf.prems(3), of x] by simp
  then have keys: "tree_keys t' = {k}"
    using tree_keys_lookup [OF Lf.prems(2)] by (auto split: if_splits)
  then have "\<not> is_Br t'" using branch_two_keys [OF Lf.prems(2)] by auto
  then show ?case
    using keys fun_cong [OF Lf.prems(3), of k] by (cases t') auto
next
  case (Br l r)
  have keys: "tree_keys t' = tree_keys (Br l r)"
    unfolding set_eq_iff tree_keys_lookup [OF Br.prems(2)] tree_keys_lookup [OF Br.prems(1)] Br.prems(3)
    by simp
  obtain x y where "x \<in> tree_keys t'" "y \<in> tree_keys t'" "x \<noteq> y"
    using branch_two_keys [OF Br.prems(1), folded keys] is_Br_simps(3) by blast
  then obtain l' r' where t': "t' = Br l' r'" by (cases t') auto
  have "tree_lookup (Suc d) l = tree_lookup (Suc d) l'" "tree_lookup (Suc d) r = tree_lookup (Suc d) r'"
    unfolding fun_eq_iff lookup_child [OF Br.prems(1)] lookup_child [OF Br.prems(2) [unfolded t']]
    by (simp_all only: Br.prems(3) t' simp_thms)
  then show ?case
    using Br.IH(1) [of "Suc d" l'] Br.IH(2) [of "Suc d" r'] Br.prems t' by simp
qed

end
