(* ===== verification/Smt_Nodes.thy ===== *)
theory Smt_Nodes
  imports Smt_Insert Smt_Tree
begin

text \<open>
  How the twelve words of a stored node encode a branch or a leaf, and how the walk of
  \<^verbatim>\<open>SMT.insert\<close> corresponds to a context of the abstract tree.
\<close>

section \<open>Branch and leaf nodes\<close>

definition branch_node :: "node_key \<Rightarrow> node_key \<Rightarrow> node_value" where
  "branch_node a b = ConcatArrays8AndCapacity (ConcatArrays4 a b) BranchCapacity"

definition leaf_node :: "node_key \<Rightarrow> node_key \<Rightarrow> node_value" where
  "leaf_node rKey valH = ConcatArrays8AndCapacity (ConcatArrays4 rKey valH) LeafCapacity"

lemmas node_defs = branch_node_def leaf_node_def ConcatArrays8AndCapacity_def ConcatArrays4_def
  BranchCapacity_def LeafCapacity_def

lemma opt_Uint64_uint [simp]: "opt_Uint64 (Some (uint w)) = w" "opt_Uint64 None = 0"
  by (simp_all add: opt_Uint64_def)

lemma deref_Uint64_uint [simp]: "deref_Uint64 (Some (uint w)) = Inr w"
  by (simp add: deref_Uint64_def)

lemma NodeKeyFromBigIntArray_words [simp]:
  "NodeKeyFromBigIntArray [Some (uint a), Some (uint b), Some (uint c), Some (uint d)] = Inr (NodeKey a b c d)"
  by (simp add: NodeKeyFromBigIntArray_def mk_key_def)

lemma slice_branch_node [simp]:
  "slice 0 4 (branch_node (NodeKey a b c d) y) = [Some (uint a), Some (uint b), Some (uint c), Some (uint d)]"
  "slice 4 8 (branch_node x (NodeKey a b c d)) = [Some (uint a), Some (uint b), Some (uint c), Some (uint d)]"
  by (simp_all add: node_defs slice_def)

lemma slice_capacity: "slice 8 12 (branch_node x y) = [Some 0, Some 0, Some 0, Some 0]"
  by (simp add: node_defs slice_def)

lemma slice_leaf_node [simp]:
  "slice 0 4 (leaf_node (NodeKey a b c d) y) = [Some (uint a), Some (uint b), Some (uint c), Some (uint d)]"
  "slice 4 8 (leaf_node x (NodeKey a b c d)) = [Some (uint a), Some (uint b), Some (uint c), Some (uint d)]"
  by (simp_all add: node_defs slice_def)

lemma IsFinalNode_node [simp]: "\<not> IsFinalNode (branch_node a b)" "IsFinalNode (leaf_node a b)"
  by (simp_all add: IsFinalNode_def node_defs nth_append)

lemma read_branch_node [simp]:
  "NodeKeyFromBigIntArray (slice 0 4 (branch_node a b)) = Inr a"
  "NodeKeyFromBigIntArray (slice 4 8 (branch_node a b)) = Inr b"
  "NodeKeyFromBigIntArray (slice 8 12 (branch_node a b)) = Inr BranchCapacity"
  by (cases a, simp, cases b, simp, simp add: slice_capacity NodeKeyFromBigIntArray_def mk_key_def opt_Uint64_def BranchCapacity_def big_Uint64_def)

lemma read_leaf_node [simp]:
  "NodeKeyFromBigIntArray (slice 0 4 (leaf_node a b)) = Inr a"
  "NodeKeyFromBigIntArray (slice 4 8 (leaf_node a b)) = Inr b"
  by (cases a, simp, cases b, simp)

lemma Get_leaf_node [simp]: "Get0to4 (leaf_node a b) = Inr a" "Get4to8 (leaf_node a b) = Inr b"
  by (cases a; cases b; simp add: Get0to4_def Get4to8_def node_defs)+

text \<open>The node of a branch seen from the bit of the path: the other child, then the child on the path.\<close>

definition bit_node :: "bool \<Rightarrow> node_key \<Rightarrow> node_key \<Rightarrow> node_value" where
  "bit_node c a x = (if c then branch_node a x else branch_node x a)"

lemma IsFinalNode_bit_node [simp]: "\<not> IsFinalNode (bit_node c a x)"
  by (simp add: bit_node_def)

lemma read_bit_node [simp]:
  "NodeKeyFromBigIntArray (slice (nat (of_bool c) * 4) (nat (of_bool c) * 4 + 4) (bit_node c a x)) = Inr x"
  "NodeKeyFromBigIntArray (slice (nat (of_bool (\<not> c)) * 4) (nat (of_bool (\<not> c)) * 4 + 4) (bit_node c a x)) = Inr a"
  by (cases c; simp add: bit_node_def)+

lemma read_bit_node_bool [simp]:
  "NodeKeyFromBigIntArray (slice 4 8 (bit_node True a x)) = Inr x"
  "NodeKeyFromBigIntArray (slice 0 4 (bit_node True a x)) = Inr a"
  "NodeKeyFromBigIntArray (slice 0 4 (bit_node False a x)) = Inr x"
  "NodeKeyFromBigIntArray (slice 4 8 (bit_node False a x)) = Inr a"
  by (simp_all add: bit_node_def)

lemma set_child_branch_node:
  "set_child (branch_node a x) 1 y = branch_node a y" "set_child (branch_node x a) 0 y = branch_node y a"
  by (cases a; cases x; cases y; simp add: set_child_def node_defs)+

lemma set_child_bit_node [simp]: "set_child (bit_node c a x) (of_bool c) y = bit_node c a y"
  by (simp add: bit_node_def set_child_branch_node)

lemma IsUniqueSibling_branch_node:
  "IsUniqueSibling (branch_node a b) =
     Inr (if a = zero_key \<and> b \<noteq> zero_key then 1 else if a \<noteq> zero_key \<and> b = zero_key then 0 else - 1)"
proof -
  have z: "NodeKeyFromBigIntArray (slice 8 12 (branch_node a b)) = Inr zero_key" for a b
    by (simp add: BranchCapacity_def zero_key_def)
  show ?thesis
    by (simp add: IsUniqueSibling_def numeral_3_eq_3 z IsZero_iff del: read_branch_node(3))
qed

lemma IsUniqueSibling_bit_node:
  "IsUniqueSibling (bit_node c a x) =
     Inr (if a = zero_key \<and> x \<noteq> zero_key then of_bool c
          else if a \<noteq> zero_key \<and> x = zero_key then of_bool (\<not> c) else - 1)"
  by (simp add: bit_node_def IsUniqueSibling_branch_node)

text \<open>The hash input that \<^verbatim>\<open>rehash\<close> reads back from a branch node.\<close>

definition bit_words :: "bool \<Rightarrow> node_key \<Rightarrow> node_key \<Rightarrow> u64 list" where
  "bit_words c a x = (if c then ConcatArrays4 a x else ConcatArrays4 x a)"

lemma length_bit_words [simp]: "length (bit_words c a x) = 8"
  by (simp add: bit_words_def)

lemma rehash_words:
  "\<exists>xs. NodeValue8FromBigIntArray (slice 0 8 (bit_node c a x)) = Inr xs \<and>
     ToUintArray (Some xs) = bit_words c a x"
proof -
  have "\<exists>xs. NodeValue8FromBigIntArray (slice 0 8 (branch_node a x)) = Inr xs \<and>
      ToUintArray (Some xs) = ConcatArrays4 a x" for a x
    by (cases a; cases x) (simp add: NodeValue8FromBigIntArray_def ToUintArray_def node_defs slice_def)
  then show ?thesis by (simp add: bit_node_def bit_words_def)
qed

lemma read_capacity [simp]:
  "NodeKeyFromBigIntArray (slice 8 12 (bit_node c a x)) = Inr BranchCapacity"
  by (simp add: bit_node_def)

lemma replicate_8: "replicate 8 (0 :: u64) = [0, 0, 0, 0, 0, 0, 0, 0]"
  by (simp add: numeral_eq_Suc)

lemma node_with_zeros [simp]:
  "node_with (of_bool c) h (replicate 8 0) = bit_words c zero_key h"
  by (cases h; cases c; simp add: node_with_def replicate_8 bit_words_def zero_key_def ConcatArrays4_def)

lemma node_with_two [simp]:
  "node_with (of_bool (\<not> c)) a (node_with (of_bool c) h (replicate 8 0)) = bit_words c a h"
  unfolding node_with_zeros
  by (cases h; cases a; cases c; simp add: node_with_def bit_words_def zero_key_def ConcatArrays4_def)

section \<open>Contexts\<close>

text \<open>\<open>plug cs d k u\<close>: the tree at level \<open>d\<close> whose path of \<open>k\<close> has the other children \<open>cs\<close> and ends in \<open>u\<close>.\<close>

definition bit_tree :: "bool \<Rightarrow> smt_tree \<Rightarrow> smt_tree \<Rightarrow> smt_tree" where
  "bit_tree c a x = (if c then Br a x else Br x a)"

fun plug :: "smt_tree list \<Rightarrow> nat \<Rightarrow> node_key \<Rightarrow> smt_tree \<Rightarrow> smt_tree" where
  "plug [] d k u = u"
| "plug (c # cs) d k u = bit_tree (kbit k d) c (plug cs (Suc d) k u)"

lemma plug_snoc: "plug (cs @ [c]) d k u = plug cs d k (bit_tree (kbit k (d + length cs)) c u)"
  by (induction cs arbitrary: d) auto

lemma tree_root_bit_tree:
  "tree_root H d (bit_tree c a x) = H (bit_words c (tree_root H (Suc d) a) (tree_root H (Suc d) x)) BranchCapacity"
  by (simp add: bit_tree_def bit_words_def)

lemma tree_nodes_bit_tree:
  "tree_nodes H d (bit_tree c a x) =
     insert (bit_words c (tree_root H (Suc d) a) (tree_root H (Suc d) x), BranchCapacity)
       (tree_nodes H (Suc d) a \<union> tree_nodes H (Suc d) x)"
  by (auto simp: bit_tree_def bit_words_def branch_pre_def)

lemma tree_nodes_plug: "tree_nodes H (d + length cs) u \<subseteq> tree_nodes H d (plug cs d k u)"
proof (induction cs arbitrary: d)
  case (Cons c cs)
  then show ?case using Cons.IH [of "Suc d"] by (auto simp: tree_nodes_bit_tree)
qed simp

lemma tree_nodes_sibling:
  "i < length cs \<Longrightarrow> tree_nodes H (Suc (d + i)) (cs ! i) \<subseteq> tree_nodes H d (plug cs d k u)"
proof (induction cs arbitrary: d i)
  case (Cons c cs)
  then show ?case
    using Cons.IH [of "i - 1" "Suc d"] by (cases i) (auto simp: tree_nodes_bit_tree)
qed simp

lemma wf_tree_bit_tree:
  "wf_tree d (bit_tree c a x) \<Longrightarrow> wf_tree (Suc d) a \<and> wf_tree (Suc d) x \<and> branching a x"
  by (cases c) (auto simp: bit_tree_def branching_iff)

lemma wf_tree_plug: "wf_tree d (plug cs d k u) \<Longrightarrow> wf_tree (d + length cs) u"
proof (induction cs arbitrary: d)
  case (Cons c cs)
  then show ?case using Cons.IH [of "Suc d"] by (auto dest!: wf_tree_bit_tree)
qed simp

lemma tree_insert_bit_tree:
  "tree_insert d k v (bit_tree (kbit k d) a x) = bit_tree (kbit k d) a (tree_insert (Suc d) k v x)"
  by (simp add: bit_tree_def)

lemma tree_insert_plug:
  "tree_insert d k v (plug cs d k u) = plug cs d k (tree_insert (d + length cs) k v u)"
  by (induction cs arbitrary: d) (simp_all add: tree_insert_bit_tree)

text \<open>Deleting collapses the branches of the path from the leaf upwards.\<close>

definition bit_collapse :: "bool \<Rightarrow> smt_tree \<Rightarrow> smt_tree \<Rightarrow> smt_tree" where
  "bit_collapse c a x = (if c then collapse a x else collapse x a)"

fun plug_collapse :: "smt_tree list \<Rightarrow> nat \<Rightarrow> node_key \<Rightarrow> smt_tree \<Rightarrow> smt_tree" where
  "plug_collapse [] d k u = u"
| "plug_collapse (c # cs) d k u = bit_collapse (kbit k d) c (plug_collapse cs (Suc d) k u)"

lemma plug_collapse_snoc:
  "plug_collapse (cs @ [c]) d k u = plug_collapse cs d k (bit_collapse (kbit k (d + length cs)) c u)"
  by (induction cs arbitrary: d) auto

lemma tree_delete_plug:
  "tree_delete d k (plug cs d k u) = plug_collapse cs d k (tree_delete (d + length cs) k u)"
  by (induction cs arbitrary: d) (simp_all add: bit_tree_def bit_collapse_def)

lemma bit_collapse_Br: "is_Br x \<Longrightarrow> bit_collapse c a x = bit_tree c a x"
  by (cases x; cases a) (auto simp: bit_collapse_def bit_tree_def)

lemma is_Br_bit_tree [simp]: "is_Br (bit_tree c a x)"
  by (simp add: bit_tree_def)

lemma plug_collapse_Br: "is_Br u \<Longrightarrow> plug_collapse cs d k u = plug cs d k u"
proof (induction cs arbitrary: u rule: rev_induct)
  case (snoc c cs)
  then show ?case by (simp add: plug_collapse_snoc plug_snoc bit_collapse_Br)
qed simp

text \<open>A leaf moves up past the empty siblings.\<close>

fun strip_tips :: "smt_tree list \<Rightarrow> smt_tree list" where
  "strip_tips [] = []"
| "strip_tips (c # cs) = (if strip_tips cs = [] \<and> c = Tip then [] else c # strip_tips cs)"

lemma strip_tips_snoc: "strip_tips (cs @ [c]) = (if c = Tip then strip_tips cs else cs @ [c])"
  by (induction cs) auto

lemma plug_collapse_Lf: "plug_collapse cs d k (Lf k' v) = plug (strip_tips cs) d k (Lf k' v)"
proof (induction cs rule: rev_induct)
  case (snoc c cs)
  show ?case
  proof (cases "c = Tip")
    case True
    then show ?thesis
      using snoc by (simp add: plug_collapse_snoc strip_tips_snoc bit_collapse_def)
  next
    case False
    then have "bit_collapse b c (Lf k' v) = bit_tree b c (Lf k' v)" for b
      by (cases c) (auto simp: bit_collapse_def bit_tree_def)
    with False show ?thesis
      by (simp add: plug_collapse_snoc strip_tips_snoc plug_snoc plug_collapse_Br)
  qed
qed simp

lemma strip_tips_prefix: "\<exists>ys. cs = strip_tips cs @ ys \<and> (\<forall>y \<in> set ys. y = Tip)"
proof (induction cs rule: rev_induct)
  case (snoc c cs)
  then obtain ys where ys: "cs = strip_tips cs @ ys" "\<forall>y \<in> set ys. y = Tip" by blast
  show ?case
  proof (cases "c = Tip")
    case True
    have "cs @ [c] = strip_tips (cs @ [c]) @ (ys @ [Tip])"
      unfolding strip_tips_snoc using ys(1) True by simp
    moreover have "\<forall>y \<in> set (ys @ [Tip]). y = Tip" using ys(2) by auto
    ultimately show ?thesis by blast
  qed (simp add: strip_tips_snoc)
qed simp

end
