(* ===== verification/Smt_Walk.thy ===== *)
theory Smt_Walk
  imports Smt_Nodes
begin

text \<open>
  Stores that hold a tree, and the walk of \<^verbatim>\<open>SMT.insert\<close> on them: it follows the path of the key to
  the empty place or the leaf where the path ends, and collects the nodes it passes.
\<close>

section \<open>Stores that hold a tree\<close>

definition stored :: "poseidon \<Rightarrow> (node_key \<Rightarrow> node_value) \<Rightarrow> nat \<Rightarrow> smt_tree \<Rightarrow> bool" where
  "stored H nd d t \<longleftrightarrow>
     (\<forall>(inp, cap) \<in> tree_nodes H d t. nd (H inp cap) = ConcatArrays8AndCapacity inp cap)"

text \<open>No node of the tree hashes to the key of the empty tree.\<close>

definition nonzero :: "poseidon \<Rightarrow> nat \<Rightarrow> smt_tree \<Rightarrow> bool" where
  "nonzero H d t \<longleftrightarrow> (\<forall>(inp, cap) \<in> tree_nodes H d t. H inp cap \<noteq> zero_key)"

text \<open>No two nodes of the tree collide.\<close>

definition collision_free :: "poseidon \<Rightarrow> smt_tree \<Rightarrow> bool" where
  "collision_free H t \<longleftrightarrow> inj_on (case_prod H) (tree_nodes H 0 t)"

definition put_nodes ::
  "bool \<Rightarrow> poseidon \<Rightarrow> (u64 list \<times> node_key) list \<Rightarrow> (node_key \<Rightarrow> node_value) \<Rightarrow> (node_key \<Rightarrow> node_value)" where
  "put_nodes noSave H xs nd =
     (if noSave then nd
      else fold (\<lambda>(inp, cap) nd. nd(H inp cap := ConcatArrays8AndCapacity inp cap)) xs nd)"

lemma put_nodes_Nil [simp]: "put_nodes ns H [] nd = nd"
  by (simp add: put_nodes_def)

lemma put_nodes_append: "put_nodes ns H (xs @ ys) nd = put_nodes ns H ys (put_nodes ns H xs nd)"
  by (simp add: put_nodes_def)

lemma put_nodes_put_nodes [simp]: "put_nodes ns H ys (put_nodes ns H xs nd) = put_nodes ns H (xs @ ys) nd"
  by (simp add: put_nodes_def)

lemma put_nodes_single:
  "put_nodes False H [(inp, cap)] nd = nd(H inp cap := ConcatArrays8AndCapacity inp cap)"
  by (simp add: put_nodes_def)

lemma put_nodes_other:
  "h \<notin> case_prod H ` set xs \<Longrightarrow> put_nodes ns H xs nd h = nd h"
  by (induction xs arbitrary: nd) (auto simp: put_nodes_def)

lemma put_nodes_written:
  "inj_on (case_prod H) (set xs) \<Longrightarrow> (inp, cap) \<in> set xs \<Longrightarrow>
   put_nodes False H xs nd (H inp cap) = ConcatArrays8AndCapacity inp cap"
proof (induction xs arbitrary: nd)
  case (Cons x xs)
  obtain i c where x: "x = (i, c)" by (cases x)
  show ?case
  proof (cases "(inp, cap) \<in> set xs")
    case True
    with Cons show ?thesis by (simp add: put_nodes_def)
  next
    case False
    with Cons.prems x have eq: "i = inp" "c = cap" by auto
    have "H inp cap \<notin> case_prod H ` set xs"
      using Cons.prems(1) False x eq by (auto simp: inj_on_def)
    from put_nodes_other [OF this, of False "nd(H inp cap := ConcatArrays8AndCapacity inp cap)"]
    show ?thesis using x eq by (simp add: put_nodes_def)
  qed
qed simp

lemma stored_put_nodes:
  assumes "stored H nd 0 t" "collision_free H t'"
    and sub: "set xs \<subseteq> tree_nodes H 0 t'" "tree_nodes H 0 t' \<subseteq> set xs \<union> tree_nodes H 0 t"
  shows "stored H (put_nodes False H xs nd) 0 t'"
  unfolding stored_def
proof (safe)
  fix inp cap assume n: "(inp, cap) \<in> tree_nodes H 0 t'"
  have inj: "inj_on (case_prod H) (set xs)"
    using assms(2) sub(1) by (auto simp: collision_free_def intro: inj_on_subset)
  show "put_nodes False H xs nd (H inp cap) = ConcatArrays8AndCapacity inp cap"
  proof (cases "(inp, cap) \<in> set xs")
    case True
    then show ?thesis by (rule put_nodes_written [OF inj])
  next
    case False
    then have old: "(inp, cap) \<in> tree_nodes H 0 t" using n sub(2) by auto
    have "H inp cap \<notin> case_prod H ` set xs"
      using inj_on_image_mem_iff [OF assms(2) [unfolded collision_free_def] n sub(1)] False by simp
    then show ?thesis
      using put_nodes_other [of "H inp cap" H xs False nd] assms(1) old by (auto simp: stored_def)
  qed
qed

lemma stored_bit_tree:
  "stored H nd d (bit_tree c a x) \<longleftrightarrow>
     nd (tree_root H d (bit_tree c a x)) = bit_node c (tree_root H (Suc d) a) (tree_root H (Suc d) x) \<and>
     stored H nd (Suc d) a \<and> stored H nd (Suc d) x"
  by (auto simp: stored_def tree_nodes_bit_tree tree_root_bit_tree bit_node_def bit_words_def branch_node_def)

lemma stored_Lf:
  "stored H nd d (Lf k v) \<longleftrightarrow>
     nd (H v BranchCapacity) = ConcatArrays8AndCapacity v BranchCapacity \<and>
     nd (tree_root H d (Lf k v)) = leaf_node (RemoveKeyBits k d) (H v BranchCapacity)"
  by (auto simp: stored_def leaf_node_def)

lemma nonzero_bit_tree:
  "nonzero H d (bit_tree c a x) \<longleftrightarrow>
     tree_root H d (bit_tree c a x) \<noteq> zero_key \<and> nonzero H (Suc d) a \<and> nonzero H (Suc d) x"
  by (auto simp: nonzero_def tree_nodes_bit_tree tree_root_bit_tree)

lemma nonzero_root: "nonzero H d t \<Longrightarrow> tree_root H d t = zero_key \<longleftrightarrow> t = Tip"
  by (cases t) (auto simp: nonzero_def branch_pre_def)

lemma bit_tree_of_Br: "Br l r = bit_tree c (if c then l else r) (if c then r else l)"
  by (simp add: bit_tree_def)

section \<open>The nodes of a path\<close>

text \<open>The stored nodes along a context, from the root downwards.\<close>

fun path_nodes :: "poseidon \<Rightarrow> nat \<Rightarrow> node_key \<Rightarrow> smt_tree list \<Rightarrow> smt_tree \<Rightarrow> node_value list" where
  "path_nodes H d k [] u = []"
| "path_nodes H d k (c # cs) u =
     bit_node (kbit k d) (tree_root H (Suc d) c) (tree_root H (Suc d) (plug cs (Suc d) k u))
     # path_nodes H (Suc d) k cs u"

fun end_nodes :: "poseidon \<Rightarrow> nat \<Rightarrow> smt_tree \<Rightarrow> node_value list" where
  "end_nodes H d (Lf k v) = [leaf_node (RemoveKeyBits k d) (H v BranchCapacity)]"
| "end_nodes H d _ = []"

lemma length_path_nodes [simp]: "length (path_nodes H d k cs u) = length cs"
  by (induction cs arbitrary: d) auto

lemma nth_path_nodes:
  "i < length cs \<Longrightarrow> \<exists>x. path_nodes H d k cs u ! i = bit_node (kbit k (d + i)) (tree_root H (Suc (d + i)) (cs ! i)) x"
proof (induction cs arbitrary: d i)
  case (Cons c cs)
  then show ?case using Cons.IH [of "i - 1" "Suc d"] by (cases i) auto
qed simp

lemma last_path_nodes:
  "path_nodes H d k (cs @ [c]) u ! length cs =
     bit_node (kbit k (d + length cs)) (tree_root H (Suc (d + length cs)) c) (tree_root H (Suc (d + length cs)) u)"
  by (induction cs arbitrary: d) auto

section \<open>The walk finds the leaf of the path\<close>

definition walk_post ::
  "poseidon \<Rightarrow> nat \<Rightarrow> node_key \<Rightarrow> smt_tree list \<Rightarrow> smt_tree \<Rightarrow> insert_walk \<Rightarrow> insert_walk \<Rightarrow> bool" where
  "walk_post H d k cs u w w' \<longleftrightarrow>
     w_level w' = d + length cs \<and> w_usedKey w' = take (d + length cs) (GetPath k) \<and>
     w_siblings w' = w_siblings w @ path_nodes H d k cs u @ end_nodes H (d + length cs) u \<and>
     (case u of
        Lf k' v \<Rightarrow> w_foundKey w' = Some k' \<and> w_foundRKey w' = RemoveKeyBits k' (d + length cs) \<and>
                   w_foundOldValHash w' = H v BranchCapacity
      | _ \<Rightarrow> w_foundKey w' = None)"

lemma take_GetPath_prefix: "same_prefix d k k' \<Longrightarrow> d \<le> 256 \<Longrightarrow> take d (GetPath k) = take d (GetPath k')"
  by (auto simp: same_prefix_def intro!: nth_equalityI)

lemma JoinKey_prefix:
  "same_prefix d k k' \<Longrightarrow> d \<le> 256 \<Longrightarrow> JoinKey (take d (GetPath k)) (RemoveKeyBits k' d) = k'"
  using JoinKey_RemoveKeyBits [of d k'] by (simp add: take_GetPath_prefix)

context smt_db
begin

lemma walk_down_correct:
  assumes "invar s"
  shows "stored H (node_at s) d t \<Longrightarrow> nonzero H d t \<Longrightarrow> wf_tree d t \<Longrightarrow> below d k t \<Longrightarrow> d \<le> 256 \<Longrightarrow>
    w_oldRoot w = tree_root H d t \<Longrightarrow> w_level w = d \<Longrightarrow> w_usedKey w = take d (GetPath k) \<Longrightarrow>
    w_foundKey w = None \<Longrightarrow>
    \<exists>cs u w'. t = plug cs d k u \<and> \<not> is_Br u \<and> walk_down ops s (GetPath k) w = Inr w' \<and>
      walk_post H d k cs u w w'"
proof (induction t arbitrary: d w)
  case Tip
  then have "walk_down ops s (GetPath k) w = Inr w"
    by (subst walk_down.simps) simp
  with Tip show ?case
    by (intro exI [of _ "[]"] exI [of _ Tip] exI [of _ w]) (simp add: walk_post_def)
next
  case (Lf k' v)
  have nz: "w_oldRoot w \<noteq> zero_key" using nonzero_root [OF Lf.prems(2)] Lf.prems(6) by simp
  have node: "node_at s (w_oldRoot w) = leaf_node (RemoveKeyBits k' d) (H v BranchCapacity)"
    using Lf.prems(1,6) by (simp add: stored_Lf)
  have key: "JoinKey (take d (GetPath k)) (RemoveKeyBits k' d) = k'"
    using Lf.prems(4,5) by (simp add: JoinKey_prefix)
  show ?case
    by (intro exI [of _ "[]"] exI [of _ "Lf k' v"], subst walk_down.simps)
      (simp add: nz Lf.prems(7-9) get_node [OF assms] node key walk_post_def)
next
  case (Br l r)
  define c where "c = kbit k d"
  define a where "a = (if c then l else r)"
  define x where "x = (if c then r else l)"
  have br: "Br l r = bit_tree c a x" by (simp add: a_def x_def bit_tree_def)
  have d: "d < 256" "wf_tree (Suc d) x" "below (Suc d) k x"
    using Br.prems(3) below_child [OF Br.prems(3,4)] by (auto simp: x_def c_def)
  have nz: "w_oldRoot w \<noteq> zero_key" using nonzero_root [OF Br.prems(2)] Br.prems(6) by simp
  have st: "node_at s (w_oldRoot w) = bit_node c (tree_root H (Suc d) a) (tree_root H (Suc d) x)"
    "stored H (node_at s) (Suc d) x"
    using Br.prems(1,6) unfolding br stored_bit_tree by simp_all
  have nzx: "nonzero H (Suc d) x" using Br.prems(2) unfolding br nonzero_bit_tree by simp
  define w1 where "w1 = w\<lparr>w_siblings := w_siblings w @ [node_at s (w_oldRoot w)],
    w_oldRoot := tree_root H (Suc d) x, w_usedKey := take (Suc d) (GetPath k), w_level := Suc d\<rparr>"
  have step: "walk_down ops s (GetPath k) w = walk_down ops s (GetPath k) w1"
    using d(1) Br.prems(7-9)
    by (subst walk_down.simps)
      (simp add: nz get_node [OF assms] st(1) c_def w1_def take_Suc_conv_app_nth)
  have pre: "Suc d \<le> 256" "w_oldRoot w1 = tree_root H (Suc d) x" "w_level w1 = Suc d"
    "w_usedKey w1 = take (Suc d) (GetPath k)" "w_foundKey w1 = None"
    using d(1) Br.prems(9) by (simp_all add: w1_def)
  have "\<exists>cs u w'. x = plug cs (Suc d) k u \<and> \<not> is_Br u \<and> walk_down ops s (GetPath k) w1 = Inr w' \<and>
      walk_post H (Suc d) k cs u w1 w'"
  proof (cases c)
    case True
    then have x: "x = r" by (simp add: x_def)
    show ?thesis
      unfolding x by (rule Br.IH(2)) (use st(2) nzx d(2,3) pre x in simp_all)
  next
    case False
    then have x: "x = l" by (simp add: x_def)
    show ?thesis
      unfolding x by (rule Br.IH(1)) (use st(2) nzx d(2,3) pre x in simp_all)
  qed
  then obtain cs u w' where IH: "x = plug cs (Suc d) k u" "\<not> is_Br u"
    "walk_down ops s (GetPath k) w1 = Inr w'" "walk_post H (Suc d) k cs u w1 w'" by blast
  have post: "walk_post H d k (a # cs) u w w'"
    using IH(4) by (cases u) (simp_all add: walk_post_def w1_def st(1) c_def IH(1))
  have eq: "Br l r = plug (a # cs) d k u"
    unfolding br by (simp add: c_def IH(1))
  show ?case
    using eq IH(2) IH(3) [folded step] post
    by (intro exI [of _ "a # cs"] exI [of _ u] exI [of _ w'] conjI)
qed

end

end
