(* ===== verification/Smt_Rehash.thy ===== *)
theory Smt_Rehash
  imports Smt_Walk
begin

text \<open>
  The writing half of \<^verbatim>\<open>SMT.insert\<close>: the nodes each call saves, and the loop that rehashes the
  path of the key from the changed place up to the root.
\<close>

lemma length_8_words [simp]: "length v = 8 \<Longrightarrow> length (ToUintArray (Some v)) = 8"
  by (simp add: ToUintArray_def)

text \<open>The siblings hold the other children of a context, whatever is on the path itself.\<close>

definition siblings_ok :: "poseidon \<Rightarrow> node_key \<Rightarrow> smt_tree list \<Rightarrow> node_value list \<Rightarrow> bool" where
  "siblings_ok H k cs sibs \<longleftrightarrow>
     length cs \<le> length sibs \<and> length cs \<le> 256 \<and>
     (\<forall>i < length cs. \<exists>x. sibs ! i = bit_node (kbit k i) (tree_root H (Suc i) (cs ! i)) x)"

text \<open>The lowest sibling, or the root when there is none, carries the hash \<open>h\<close>.\<close>

definition bottom_ok ::
  "poseidon \<Rightarrow> node_key \<Rightarrow> smt_tree list \<Rightarrow> node_value list \<Rightarrow> node_key \<Rightarrow> node_key \<Rightarrow> bool" where
  "bottom_ok H k cs sibs r h \<longleftrightarrow>
     (if cs = [] then r = h
      else sibs ! (length cs - 1) =
        bit_node (kbit k (length cs - 1)) (tree_root H (length cs) (last cs)) h)"

lemma siblings_ok_butlast: "siblings_ok H k (cs @ [c]) sibs \<Longrightarrow> siblings_ok H k cs sibs"
  unfolding siblings_ok_def by (metis Suc_leD length_append_singleton less_SucI nth_append)

lemma siblings_ok_prefix: "siblings_ok H k (cs @ ds) sibs \<Longrightarrow> siblings_ok H k cs sibs"
proof (induction ds rule: rev_induct)
  case (snoc d ds)
  then show ?case by (metis append_assoc siblings_ok_butlast)
qed simp

lemma set_sibling_ok:
  assumes "siblings_ok H k cs sibs" "i < length cs"
  shows "siblings_ok H k cs (set_sibling (GetPath k) h i sibs)"
    "set_sibling (GetPath k) h i sibs ! i = bit_node (kbit k i) (tree_root H (Suc i) (cs ! i)) h"
proof -
  obtain x where x: "sibs ! i = bit_node (kbit k i) (tree_root H (Suc i) (cs ! i)) x"
    using assms by (auto simp: siblings_ok_def)
  have i: "i < 256" "i < length sibs" using assms by (auto simp: siblings_ok_def)
  have "set_child (sibs ! i) (GetPath k ! i) h = bit_node (kbit k i) (tree_root H (Suc i) (cs ! i)) h"
    using i x by simp
  then show "set_sibling (GetPath k) h i sibs ! i = bit_node (kbit k i) (tree_root H (Suc i) (cs ! i)) h"
    using i by (simp add: set_sibling_def)
  with assms show "siblings_ok H k cs (set_sibling (GetPath k) h i sibs)"
    by (auto simp: siblings_ok_def set_sibling_def nth_list_update)
qed

lemma bottom_ok_snoc:
  "bottom_ok H k (cs @ [c]) sibs r h \<longleftrightarrow>
     sibs ! length cs = bit_node (kbit k (length cs)) (tree_root H (Suc (length cs)) c) h"
  by (simp add: bottom_ok_def)

lemma bottom_ok_set_sibling:
  "siblings_ok H k cs sibs \<Longrightarrow> cs \<noteq> [] \<Longrightarrow>
   bottom_ok H k cs (set_sibling (GetPath k) h (length cs - 1) sibs) r h"
  using set_sibling_ok(2) [of H k cs sibs "length cs - 1" h] by (simp add: bottom_ok_def last_conv_nth)

lemma siblings_ok_take:
  "siblings_ok H k cs sibs \<Longrightarrow> siblings_ok H k cs (take (length cs) sibs)"
  by (simp add: siblings_ok_def)

lemma bottom_ok_take:
  "bottom_ok H k cs sibs r h \<Longrightarrow> bottom_ok H k cs (take (length cs) sibs) r h"
  by (cases "cs = []") (simp_all add: bottom_ok_def)

context smt_db
begin

lemma hashSave_correct:
  assumes "invar s" "length inp = 8"
  shows "\<exists>s'. hashSave ops ns s inp cap (H inp cap) = Inr s' \<and> invar s' \<and>
    node_at s' = put_nodes ns H [(inp, cap)] (node_at s)"
  using assms insert_node [OF assms, of "H inp cap" cap]
  by (auto simp: hashSave_def put_nodes_def)

lemma hashcalcAndSave_correct:
  assumes "invar s" "length inp = 8"
  obtains s' where "hashcalcAndSave ops H ns s inp cap = Inr (H inp cap, s')" "invar s'"
    "node_at s' = put_nodes ns H [(inp, cap)] (node_at s)"
  using hashSave_correct [OF assms, of ns cap H] by (auto simp: hashcalcAndSave_def Hash_def)

lemma save_value_correct:
  assumes "invar s" "length v = 8" "vh = zero_key \<or> vh = H (ToUintArray (Some v)) BranchCapacity"
  obtains s' where "save_value ops H ns s v vh = Inr (H (ToUintArray (Some v)) BranchCapacity, s')" "invar s'"
    "node_at s' = put_nodes ns H [(ToUintArray (Some v), BranchCapacity)] (node_at s)"
proof (cases "vh = zero_key")
  case True
  obtain s' where "hashcalcAndSave ops H ns s (ToUintArray (Some v)) BranchCapacity =
      Inr (H (ToUintArray (Some v)) BranchCapacity, s')" "invar s'"
    "node_at s' = put_nodes ns H [(ToUintArray (Some v), BranchCapacity)] (node_at s)"
    by (rule hashcalcAndSave_correct [OF assms(1) length_8_words [OF assms(2)]])
  with True show ?thesis by (intro that [of s']) (simp_all add: save_value_def)
next
  case False
  with that assms(3) show ?thesis
    using hashSave_correct [OF assms(1) length_8_words [OF assms(2)], of ns BranchCapacity H]
    by (auto simp: save_value_def)
qed

lemma updateDepth_correct:
  assumes "invar s"
  shows "\<exists>s'. updateDepth ops s n = Inr s' \<and> invar s' \<and> node_at s' = node_at s"
  using depth_no_panic [OF assms] set_depth [OF assms] assms
  by (auto simp: updateDepth_def drop_err_def Let_def split: sum.splits go_error.splits)

lemma rehash_correct:
  assumes "siblings_ok H k cs sibs" "bottom_ok H k cs sibs r (tree_root H (length cs) u)" "invar s"
  shows "\<exists>s' xs. rehash ops H ns (GetPath k) (length cs) sibs s r = Inr (tree_root H 0 (plug cs 0 k u), s') \<and>
    invar s' \<and> node_at s' = put_nodes ns H xs (node_at s) \<and>
    set xs \<subseteq> tree_nodes H 0 (plug cs 0 k u) \<and>
    tree_nodes H 0 (plug cs 0 k u) \<subseteq>
      set xs \<union> tree_nodes H (length cs) u \<union> (\<Union>i<length cs. tree_nodes H (Suc i) (cs ! i))"
  using assms
proof (induction cs arbitrary: sibs r s u rule: rev_induct)
  case Nil
  then show ?case by (intro exI [of _ s] exI [of _ "[]"]) (simp add: bottom_ok_def)
next
  case (snoc c cs)
  let ?m = "length cs"
  define b where "b = kbit k ?m"
  define a where "a = tree_root H (Suc ?m) c"
  define x where "x = tree_root H (Suc ?m) u"
  define u' where "u' = bit_tree b c u"
  have node: "sibs ! ?m = bit_node b a x"
    using snoc.prems(2) by (simp add: bottom_ok_snoc a_def b_def x_def)
  obtain ws where ws: "NodeValue8FromBigIntArray (slice 0 8 (bit_node b a x)) = Inr ws"
    "ToUintArray (Some ws) = bit_words b a x" using rehash_words by blast
  have root: "H (bit_words b a x) BranchCapacity = tree_root H ?m u'"
    by (simp add: u'_def tree_root_bit_tree a_def x_def)
  obtain s1 where s1: "hashcalcAndSave ops H ns s (bit_words b a x) BranchCapacity = Inr (tree_root H ?m u', s1)"
    "invar s1" "node_at s1 = put_nodes ns H [(bit_words b a x, BranchCapacity)] (node_at s)"
    using hashcalcAndSave_correct [OF snoc.prems(3) length_bit_words [of b a x], of H ns BranchCapacity]
    unfolding root by blast
  define sibs' where "sibs' = (if ?m \<ge> 1 then set_sibling (GetPath k) (tree_root H ?m u') (?m - 1) sibs else sibs)"
  have ok: "siblings_ok H k cs sibs'" "bottom_ok H k cs sibs' (tree_root H ?m u') (tree_root H ?m u')"
    using siblings_ok_butlast [OF snoc.prems(1)]
      set_sibling_ok(1) [of H k cs sibs "?m - 1"] bottom_ok_set_sibling [of H k cs sibs]
    by (cases "cs = []"; auto simp: sibs'_def bottom_ok_def Suc_le_eq)+
  obtain s' xs where IH: "rehash ops H ns (GetPath k) ?m sibs' s1 (tree_root H ?m u') =
      Inr (tree_root H 0 (plug cs 0 k u'), s')" "invar s'" "node_at s' = put_nodes ns H xs (node_at s1)"
    "set xs \<subseteq> tree_nodes H 0 (plug cs 0 k u')" "tree_nodes H 0 (plug cs 0 k u') \<subseteq>
      set xs \<union> tree_nodes H ?m u' \<union> (\<Union>i<?m. tree_nodes H (Suc i) (cs ! i))"
    using snoc.IH [OF ok s1(2)] by blast
  have plug: "plug (cs @ [c]) 0 k u = plug cs 0 k u'" by (simp add: plug_snoc u'_def b_def)
  have nodes: "tree_nodes H ?m u' = insert (bit_words b a x, BranchCapacity)
      (tree_nodes H (Suc ?m) c \<union> tree_nodes H (Suc ?m) u)"
    by (simp add: u'_def tree_nodes_bit_tree a_def x_def)
  have in_tree: "(bit_words b a x, BranchCapacity) \<in> tree_nodes H 0 (plug cs 0 k u')"
    using tree_nodes_plug [of H 0 cs u' k] nodes by auto
  have others: "(\<Union>i<length (cs @ [c]). tree_nodes H (Suc i) ((cs @ [c]) ! i)) =
      (\<Union>i<?m. tree_nodes H (Suc i) (cs ! i)) \<union> tree_nodes H (Suc ?m) c"
    by (auto simp: nth_append less_Suc_eq split: if_splits)
  show ?case
  proof (intro exI [of _ s'] exI [of _ "(bit_words b a x, BranchCapacity) # xs"] conjI)
    show "rehash ops H ns (GetPath k) (length (cs @ [c])) sibs s r =
        Inr (tree_root H 0 (plug (cs @ [c]) 0 k u), s')"
      unfolding plug using IH(1) by (simp add: node ws s1(1) sibs'_def)
    show "node_at s' = put_nodes ns H ((bit_words b a x, BranchCapacity) # xs) (node_at s)"
      unfolding IH(3) s1(3) by simp
    show "tree_nodes H 0 (plug (cs @ [c]) 0 k u) \<subseteq> set ((bit_words b a x, BranchCapacity) # xs) \<union>
        tree_nodes H (length (cs @ [c])) u \<union> (\<Union>i<length (cs @ [c]). tree_nodes H (Suc i) ((cs @ [c]) ! i))"
      unfolding plug others using IH(5) nodes by auto
  qed (use IH(2,4) in_tree plug in auto)
qed

end

end
