(* ===== verification/Smt_Modes.thy ===== *)
theory Smt_Modes
  imports Smt_Rehash
begin

text \<open>
  The modes of \<^verbatim>\<open>SMT.insert\<close> that write a value: update, insertFound and insertNotFound. Each
  leaves the path ready for the rehashing of the updated abstract tree.
\<close>

section \<open>The state between the modes and the rehashing\<close>

definition path_post ::
  "poseidon \<Rightarrow> node_key \<Rightarrow> smt_tree list \<Rightarrow> smt_tree \<Rightarrow> 's insert_path \<Rightarrow> bool" where
  "path_post H k cs u p \<longleftrightarrow>
     p_level p = int (length cs) - 1 \<and> siblings_ok H k cs (p_siblings p) \<and>
     bottom_ok H k cs (p_siblings p) (p_newRoot p) (tree_root H (length cs) u)"

lemma path_post_siblings: "path_post H k cs u p \<Longrightarrow> p_level p = int (length cs) - 1 \<and> siblings_ok H k cs (p_siblings p)"
  by (simp add: path_post_def)

lemma place_child_post:
  assumes "p_level p = int (length cs) - 1" "siblings_ok H k cs (p_siblings p)"
  shows "path_post H k cs u (place_child (GetPath k) (tree_root H (length cs) u) p)"
proof (cases "cs = []")
  case True
  with assms show ?thesis by (simp add: path_post_def place_child_def bottom_ok_def)
next
  case False
  then have "nat (p_level p) = length cs - 1" "p_level p \<ge> 0" "length cs - 1 < length cs"
    using assms(1) by (cases cs; simp)+
  with False assms show ?thesis
    using bottom_ok_set_sibling [OF assms(2) False, of "tree_root H (length cs) u" "p_newRoot p"]
    by (simp add: path_post_def place_child_def set_sibling_ok)
qed

lemma place_child_db [simp]:
  "p_db (place_child keys h p) = p_db p" "p_mode (place_child keys h p) = p_mode p"
  by (simp_all add: place_child_def)

lemma plug_depth: "wf_tree d (plug cs d k u) \<Longrightarrow> d \<le> 256 \<Longrightarrow> d + length cs \<le> 256"
proof (induction cs arbitrary: d)
  case (Cons c cs)
  then have "d < 256" "wf_tree (Suc d) (plug cs (Suc d) k u)"
    by (auto simp: bit_tree_def split: if_splits)
  then show ?case using Cons.IH [of "Suc d"] by simp
qed simp

lemma below_plug: "wf_tree d (plug cs d k u) \<Longrightarrow> below d k (plug cs d k u) \<Longrightarrow> below (d + length cs) k u"
proof (induction cs arbitrary: d)
  case (Cons c cs)
  then have "wf_tree (Suc d) (plug cs (Suc d) k u)" "below (Suc d) k (plug cs (Suc d) k u)"
    by (auto simp: bit_tree_def below_def same_prefix_Suc split: if_splits)
  then show ?case using Cons.IH [of "Suc d"] by simp
qed simp

text \<open>What the walk hands over.\<close>

lemma walk_path_post:
  assumes "length cs \<le> 256"
  shows "path_post H k cs u
    \<lparr>p_siblings = path_nodes H 0 k cs u @ end_nodes H (length cs) u, p_level = int (length cs) - 1,
     p_newRoot = tree_root H 0 (plug cs 0 k u), p_mode = m, p_db = s\<rparr>"
proof -
  have "siblings_ok H k cs (path_nodes H 0 k cs u @ xs)" for xs
    using assms nth_path_nodes [of _ cs H 0 k u] by (auto simp: siblings_ok_def nth_append)
  moreover have "bottom_ok H k cs (path_nodes H 0 k cs u @ xs) (tree_root H 0 (plug cs 0 k u)) (tree_root H (length cs) u)" for xs
  proof (cases cs rule: rev_cases)
    case (snoc ds c)
    then show ?thesis
      using last_path_nodes [of H 0 k ds c u] by (simp add: bottom_ok_def nth_append)
  qed (simp add: bottom_ok_def)
  ultimately show ?thesis by (simp add: path_post_def)
qed

section \<open>The split\<close>

lemma first_diff_correct:
  assumes "k \<noteq> k'" "same_prefix n k k'" "n \<le> 256"
  obtains m where "first_diff (GetPath k) (GetPath k') n = m" "n \<le> m" "m < 256" "same_prefix m k k'"
    "kbit k m \<noteq> kbit k' m"
proof -
  have "\<exists>m. first_diff (GetPath k) (GetPath k') n = m \<and> n \<le> m \<and> m < 256 \<and> same_prefix m k k' \<and> kbit k m \<noteq> kbit k' m"
    using assms(2,3)
  proof (induction "256 - n" arbitrary: n)
    case 0
    then show ?case using same_prefix_full [of n k k'] assms(1) by simp
  next
    case (Suc j)
    then have n: "n < 256" "j = 256 - Suc n" by simp_all
    show ?case
    proof (cases "kbit k n = kbit k' n")
      case True
      have "first_diff (GetPath k) (GetPath k') n = first_diff (GetPath k) (GetPath k') (Suc n)"
        using n True by (subst first_diff.simps) simp
      then show ?thesis
        using Suc.hyps(1) [of "Suc n"] Suc.hyps(2) Suc.prems(1) n True
        by (auto simp: same_prefix_Suc intro: Suc_leD)
    next
      case False
      then have "first_diff (GetPath k) (GetPath k') n = n"
        using n by (subst first_diff.simps) auto
      then show ?thesis using Suc.prems(1) n False by blast
    qed
  qed
  then show thesis using that by blast
qed

lemma tree_split_here:
  "m < 256 \<Longrightarrow> kbit k m \<noteq> kbit k' m \<Longrightarrow> tree_split m k v k' v' = bit_tree (kbit k m) (Lf k' v') (Lf k v)"
  by (subst tree_split.simps) (auto simp: bit_tree_def)

lemma tree_split_deeper:
  "m < 256 \<Longrightarrow> kbit k m = kbit k' m \<Longrightarrow>
   tree_split m k v k' v' = bit_tree (kbit k m) Tip (tree_split (Suc m) k v k' v')"
  by (subst tree_split.simps) (auto simp: bit_tree_def)

lemma same_prefix_bit: "same_prefix m k k' \<Longrightarrow> i < m \<Longrightarrow> kbit k i = kbit k' i"
  by (simp add: same_prefix_def)

section \<open>The modes that insert\<close>

text \<open>What each mode leaves: the state for the rehashing, the nodes it saved and its name.\<close>

definition mode_post ::
  "poseidon \<Rightarrow> bool \<Rightarrow> node_key \<Rightarrow> smt_tree list \<Rightarrow> smt_tree \<Rightarrow> ('s \<Rightarrow> node_key \<Rightarrow> node_value) \<Rightarrow> ('s \<Rightarrow> bool) \<Rightarrow>
   's insert_path \<Rightarrow> (u64 list \<times> node_key) list \<Rightarrow> string \<Rightarrow> 's insert_path \<Rightarrow> bool" where
  "mode_post H ns k cs u node_at invar p xs m p' \<longleftrightarrow>
     path_post H k cs u p' \<and> invar (p_db p') \<and>
     node_at (p_db p') = put_nodes ns H xs (node_at (p_db p)) \<and> p_mode p' = m"

lemma leaf_root: "tree_root H d (Lf k v) = H (ConcatArrays4 (RemoveKeyBits k d) (H v BranchCapacity)) LeafCapacity"
  by simp

context smt_db
begin

lemma drop_err_InsertHashKey:
  assumes "invar s"
  obtains s' where "drop_err s (db_InsertHashKey ops s h k) = Inr s'" "invar s'" "node_at s' = node_at s"
  using insert_hash_key [OF assms, of h k] by auto

lemma save_leaf_correct:
  assumes "invar s" "length v = 8" "vh = zero_key \<or> vh = H (ToUintArray (Some v)) BranchCapacity"
  obtains s1 s2 where "save_value ops H ns s v vh = Inr (H (ToUintArray (Some v)) BranchCapacity, s1)"
    "hashcalcAndSave ops H ns s1
       (ConcatArrays4 (RemoveKeyBits k n) (H (ToUintArray (Some v)) BranchCapacity)) LeafCapacity =
     Inr (tree_root H n (Lf k (ToUintArray (Some v))), s2)" "invar s2"
    "node_at s2 = put_nodes ns H [(ToUintArray (Some v), BranchCapacity),
       leaf_pre H n k (ToUintArray (Some v))] (node_at s)"
proof -
  let ?v = "ToUintArray (Some v)"
  obtain s1 where s1: "save_value ops H ns s v vh = Inr (H ?v BranchCapacity, s1)" "invar s1"
    "node_at s1 = put_nodes ns H [(?v, BranchCapacity)] (node_at s)"
    by (rule save_value_correct [where H = H, OF assms])
  obtain s2 where "hashcalcAndSave ops H ns s1 (ConcatArrays4 (RemoveKeyBits k n) (H ?v BranchCapacity)) LeafCapacity =
      Inr (H (ConcatArrays4 (RemoveKeyBits k n) (H ?v BranchCapacity)) LeafCapacity, s2)" "invar s2"
    "node_at s2 = put_nodes ns H [(ConcatArrays4 (RemoveKeyBits k n) (H ?v BranchCapacity), LeafCapacity)] (node_at s1)"
    by (rule hashcalcAndSave_correct [OF s1(2) length_ConcatArrays4])
  then show thesis using that [OF s1(1), of s2] s1(3) by simp
qed

lemma insert_update_correct:
  assumes "path_post H k cs u p" "invar (p_db p)" "length v = 8"
    and "vh = zero_key \<or> vh = H (ToUintArray (Some v)) BranchCapacity"
    and "w_foundRKey w = RemoveKeyBits k (length cs)"
  defines "u' \<equiv> Lf k (ToUintArray (Some v))"
  shows "\<exists>p' xs. insert_update ops H ns k v vh w p = Inr p' \<and>
    mode_post H ns k cs u' node_at invar p xs ''update'' p' \<and>
    set xs = tree_nodes H (length cs) u'"
proof -
  let ?v = "ToUintArray (Some v)" and ?n = "length cs"
  obtain s1 s2 where s2: "save_value ops H ns (p_db p) v vh = Inr (H ?v BranchCapacity, s1)"
    "hashcalcAndSave ops H ns s1 (ConcatArrays4 (RemoveKeyBits k ?n) (H ?v BranchCapacity)) LeafCapacity =
       Inr (tree_root H ?n u', s2)" "invar s2"
    "node_at s2 = put_nodes ns H [(?v, BranchCapacity), leaf_pre H ?n k ?v] (node_at (p_db p))"
    unfolding u'_def by (rule save_leaf_correct [where H = H, OF assms(2-4)])
  obtain s3 where s3: "db_InsertHashKey ops s2 (tree_root H ?n u') k = Inr s3" "invar s3" "node_at s3 = node_at s2"
    using insert_hash_key [OF s2(3)] by blast
  let ?p = "place_child (GetPath k) (tree_root H ?n u') (p\<lparr>p_mode := ''update'', p_db := s3\<rparr>)"
  have "path_post H k cs u' ?p"
    by (rule place_child_post) (use assms(1) in \<open>simp_all add: path_post_def\<close>)
  moreover have "insert_update ops H ns k v vh w p = Inr ?p"
    using s2(1,2) s3(1) by (simp add: insert_update_def assms(5))
  ultimately show ?thesis
    using s2(4) s3(2,3)
    by (intro exI [of _ ?p] exI [of _ "[(?v, BranchCapacity), leaf_pre H ?n k ?v]"])
      (simp add: mode_post_def u'_def)
qed

lemma insert_not_found_correct:
  assumes "path_post H k cs u p" "invar (p_db p)" "length v = 8"
    and "vh = zero_key \<or> vh = H (ToUintArray (Some v)) BranchCapacity"
  defines "u' \<equiv> Lf k (ToUintArray (Some v))"
  shows "\<exists>p' xs. insert_not_found ops H ns k v vh p = Inr p' \<and>
    mode_post H ns k cs u' node_at invar p xs ''insertNotFound'' p' \<and>
    set xs = tree_nodes H (length cs) u'"
proof -
  let ?v = "ToUintArray (Some v)" and ?n = "length cs"
  obtain s1 s2 where s2: "save_value ops H ns (p_db p) v vh = Inr (H ?v BranchCapacity, s1)"
    "hashcalcAndSave ops H ns s1 (ConcatArrays4 (RemoveKeyBits k ?n) (H ?v BranchCapacity)) LeafCapacity =
       Inr (tree_root H ?n u', s2)" "invar s2"
    "node_at s2 = put_nodes ns H [(?v, BranchCapacity), leaf_pre H ?n k ?v] (node_at (p_db p))"
    unfolding u'_def by (rule save_leaf_correct [where H = H, OF assms(2-4)])
  obtain s3 where s3: "drop_err s2 (db_InsertHashKey ops s2 (tree_root H ?n u') k) = Inr s3" "invar s3"
    "node_at s3 = node_at s2"
    by (rule drop_err_InsertHashKey [OF s2(3)])
  let ?p = "place_child (GetPath k) (tree_root H ?n u') (p\<lparr>p_mode := ''insertNotFound'', p_db := s3\<rparr>)"
  have level: "nat (p_level p + 1) = ?n" using assms(1) by (simp add: path_post_def)
  have "path_post H k cs u' ?p"
    by (rule place_child_post) (use assms(1) in \<open>simp_all add: path_post_def\<close>)
  moreover have "insert_not_found ops H ns k v vh p = Inr ?p"
    using s2(1,2) s3(1) by (simp add: insert_not_found_def level)
  ultimately show ?thesis
    using s2(4) s3(2,3)
    by (intro exI [of _ ?p] exI [of _ "[(?v, BranchCapacity), leaf_pre H ?n k ?v]"])
      (simp add: mode_post_def u'_def)
qed

lemma hash_up_correct:
  assumes "n \<le> m" "m < 256" "same_prefix m k k'" "invar s"
  shows "\<exists>s' xs. hash_up ops H ns (GetPath k) (rev [n..<m]) s (tree_root H m (tree_split m k v k' v')) =
      Inr (tree_root H n (tree_split n k v k' v'), s') \<and> invar s' \<and>
    node_at s' = put_nodes ns H xs (node_at s) \<and>
    set xs \<union> tree_nodes H m (tree_split m k v k' v') = tree_nodes H n (tree_split n k v k' v')"
  using assms
proof (induction m arbitrary: s rule: nat_induct_at_least)
  case base
  then show ?case by (intro exI [of _ s] exI [of _ "[]"]) simp
next
  case (Suc m)
  let ?t = "\<lambda>i. tree_split i k v k' v'" and ?c = "kbit k m"
  have split: "?t m = bit_tree ?c Tip (?t (Suc m))"
    using Suc.prems by (intro tree_split_deeper) (auto simp: same_prefix_Suc)
  define inp where "inp = bit_words ?c zero_key (tree_root H (Suc m) (?t (Suc m)))"
  have root: "H inp BranchCapacity = tree_root H m (?t m)"
    unfolding split tree_root_bit_tree inp_def by simp
  obtain s1 where s1: "hashcalcAndSave ops H ns s inp BranchCapacity = Inr (tree_root H m (?t m), s1)"
    "invar s1" "node_at s1 = put_nodes ns H [(inp, BranchCapacity)] (node_at s)"
    using hashcalcAndSave_correct [OF Suc.prems(3), of inp H ns BranchCapacity] root
    by (metis inp_def length_bit_words)
  obtain s' xs where IH: "hash_up ops H ns (GetPath k) (rev [n..<m]) s1 (tree_root H m (?t m)) =
      Inr (tree_root H n (?t n), s')" "invar s'" "node_at s' = put_nodes ns H xs (node_at s1)"
    "set xs \<union> tree_nodes H m (?t m) = tree_nodes H n (?t n)"
    using Suc.IH [of s1] Suc.prems(1,2) s1(2) by (auto simp: same_prefix_Suc)
  have nodes: "tree_nodes H m (?t m) = insert (inp, BranchCapacity) (tree_nodes H (Suc m) (?t (Suc m)))"
    unfolding split tree_nodes_bit_tree inp_def by simp
  have "hash_up ops H ns (GetPath k) (rev [n..<Suc m]) s (tree_root H (Suc m) (?t (Suc m))) =
      Inr (tree_root H n (?t n), s')"
    using Suc.hyps Suc.prems(1) s1(1) IH(1) by (simp add: inp_def [symmetric])
  then show ?case
    using IH(2-4) s1(3) nodes
    by (intro exI [of _ s'] exI [of _ "(inp, BranchCapacity) # xs"]) auto
qed

lemma insert_found_correct:
  assumes p: "path_post H k cs u p" and invar: "invar (p_db p)" and v: "length v = 8"
    and vh: "vh = zero_key \<or> vh = H (ToUintArray (Some v)) BranchCapacity"
    and w: "w_foundOldValHash w = H v' BranchCapacity"
    and k': "k \<noteq> k'" "same_prefix (length cs) k k'"
  defines "u' \<equiv> tree_split (length cs) k (ToUintArray (Some v)) k' v'"
  shows "\<exists>p' xs. insert_found ops H ns k v vh w k' p = Inr p' \<and>
    mode_post H ns k cs u' node_at invar p xs ''insertFound'' p' \<and>
    set xs \<union> {(v', BranchCapacity)} = tree_nodes H (length cs) u'"
proof -
  let ?v = "ToUintArray (Some v)" and ?n = "length cs"
  have n: "?n \<le> 256" "nat (p_level p + 1) = ?n" using p by (auto simp: path_post_def siblings_ok_def)
  obtain m where m: "first_diff (GetPath k) (GetPath k') ?n = m" "?n \<le> m" "m < 256" "same_prefix m k k'"
    "kbit k m \<noteq> kbit k' m" by (rule first_diff_correct [OF k' n(1)])
  let ?t = "\<lambda>i. tree_split i k ?v k' v'"
  have split: "?t m = bit_tree (kbit k m) (Lf k' v') (Lf k ?v)" using m by (intro tree_split_here)
  obtain s1 where s1: "hashcalcAndSave ops H ns (p_db p) (ConcatArrays4 (RemoveKeyBits k' (Suc m)) (H v' BranchCapacity)) LeafCapacity =
      Inr (H (ConcatArrays4 (RemoveKeyBits k' (Suc m)) (H v' BranchCapacity)) LeafCapacity, s1)" "invar s1"
    "node_at s1 = put_nodes ns H [(ConcatArrays4 (RemoveKeyBits k' (Suc m)) (H v' BranchCapacity), LeafCapacity)] (node_at (p_db p))"
    by (rule hashcalcAndSave_correct [OF invar length_ConcatArrays4])
  obtain s2 where s2: "drop_err s1 (db_InsertHashKey ops s1 (tree_root H (Suc m) (Lf k' v')) k') = Inr s2" "invar s2"
    "node_at s2 = node_at s1" by (rule drop_err_InsertHashKey [OF s1(2)])
  obtain s3 s4 where s4: "save_value ops H ns s2 v vh = Inr (H ?v BranchCapacity, s3)"
    "hashcalcAndSave ops H ns s3 (ConcatArrays4 (RemoveKeyBits k (Suc m)) (H ?v BranchCapacity)) LeafCapacity =
       Inr (tree_root H (Suc m) (Lf k ?v), s4)" "invar s4"
    "node_at s4 = put_nodes ns H [(?v, BranchCapacity), leaf_pre H (Suc m) k ?v] (node_at s2)"
    by (rule save_leaf_correct [where H = H, OF s2(2) v vh])
  obtain s5 where s5: "drop_err s4 (db_InsertHashKey ops s4 (tree_root H (Suc m) (Lf k ?v)) k) = Inr s5" "invar s5"
    "node_at s5 = node_at s4" by (rule drop_err_InsertHashKey [OF s4(3)])
  let ?inp = "bit_words (kbit k m) (tree_root H (Suc m) (Lf k' v')) (tree_root H (Suc m) (Lf k ?v))"
  have node: "node_with (GetPath k' ! m) (tree_root H (Suc m) (Lf k' v'))
      (node_with (GetPath k ! m) (tree_root H (Suc m) (Lf k ?v)) (replicate 8 0)) = ?inp"
    using m(3,5) node_with_two [of "kbit k m"] by (cases "kbit k m") simp_all
  obtain s6 where s6: "hashcalcAndSave ops H ns s5 ?inp BranchCapacity = Inr (H ?inp BranchCapacity, s6)" "invar s6"
    "node_at s6 = put_nodes ns H [(?inp, BranchCapacity)] (node_at s5)"
    by (rule hashcalcAndSave_correct [OF s5(2) length_bit_words])
  have root: "H ?inp BranchCapacity = tree_root H m (?t m)"
    unfolding split tree_root_bit_tree ..
  obtain s7 xs where s7: "hash_up ops H ns (GetPath k) (rev [?n..<m]) s6 (tree_root H m (?t m)) =
      Inr (tree_root H ?n u', s7)" "invar s7" "node_at s7 = put_nodes ns H xs (node_at s6)"
    "set xs \<union> tree_nodes H m (?t m) = tree_nodes H ?n u'"
    unfolding u'_def using hash_up_correct [OF m(2,3,4) s6(2)] by blast
  let ?p = "place_child (GetPath k) (tree_root H ?n u') (p\<lparr>p_mode := ''insertFound'', p_db := s7\<rparr>)"
  have "path_post H k cs u' ?p"
    by (rule place_child_post) (use p in \<open>simp_all add: path_post_def\<close>)
  moreover have "insert_found ops H ns k v vh w k' p = Inr ?p"
    using m(1,3) s1(1) s2(1) s4(1,2) s5(1) s6(1) s7(1) node
    by (simp add: insert_found_def w n(2) root [symmetric])
  moreover have "set ([leaf_pre H (Suc m) k' v', (?v, BranchCapacity), leaf_pre H (Suc m) k ?v,
      (?inp, BranchCapacity)] @ xs) \<union> {(v', BranchCapacity)} = tree_nodes H ?n u'"
    unfolding s7(4) [symmetric] split tree_nodes_bit_tree tree_nodes.simps set_append list.set by blast
  ultimately show ?thesis
    using s1(3) s2(3) s4(4) s5(3) s6(3) s7(2,3)
    by (intro exI [of _ ?p] exI [of _ "[leaf_pre H (Suc m) k' v', (?v, BranchCapacity),
        leaf_pre H (Suc m) k ?v, (?inp, BranchCapacity)] @ xs"]) (simp add: mode_post_def)
qed

end

end
