(* ===== verification/Smt_Delete.thy ===== *)
theory Smt_Delete
  imports Smt_Modes
begin

text \<open>
  The modes of \<^verbatim>\<open>SMT.insert\<close> that delete: deleteFound (the sibling is a leaf and moves up past
  the branches it is alone in), deleteNotFound (the sibling is a branch) and deleteLast.
\<close>

section \<open>Siblings on the path\<close>

lemma plug_not_Tip: "u \<noteq> Tip \<Longrightarrow> plug cs d k u \<noteq> Tip"
  by (cases cs) (auto simp: bit_tree_def)

lemma nth_path_nodes_nonzero:
  "nonzero H d (plug cs d k u) \<Longrightarrow> u \<noteq> Tip \<Longrightarrow> i < length cs \<Longrightarrow>
   \<exists>x. x \<noteq> zero_key \<and> path_nodes H d k cs u ! i = bit_node (kbit k (d + i)) (tree_root H (Suc (d + i)) (cs ! i)) x"
proof (induction cs arbitrary: d i)
  case (Cons c cs)
  then have nz: "nonzero H (Suc d) (plug cs (Suc d) k u)" by (simp add: nonzero_bit_tree)
  then show ?case
    using Cons.IH [of "Suc d" "i - 1"] Cons.prems nonzero_root [OF nz] plug_not_Tip [of u cs "Suc d" k]
    by (cases i) auto
qed simp

lemma nonzero_sibling: "nonzero H d (plug cs d k u) \<Longrightarrow> i < length cs \<Longrightarrow> nonzero H (Suc (d + i)) (cs ! i)"
  using tree_nodes_sibling [of i cs H d k u] by (auto simp: nonzero_def)

lemma nth_map_put: "i < j \<Longrightarrow> i < length xs \<Longrightarrow> map_put xs j x ! i = xs ! i"
  by (simp add: map_put_def nth_append)

lemma length_map_put: "length xs \<le> length (map_put xs j x)"
  by (simp add: map_put_def)

lemma siblings_ok_map_put:
  "siblings_ok H k cs sibs \<Longrightarrow> length cs \<le> j \<Longrightarrow> siblings_ok H k cs (map_put sibs j x)"
  using length_map_put [of sibs j x] by (auto simp: siblings_ok_def nth_map_put)

lemma climb_correct:
  assumes "\<And>i. i < length ds \<Longrightarrow> \<exists>x. x \<noteq> zero_key \<and>
      sibs ! i = bit_node (kbit k i) (tree_root H (Suc i) (ds ! i)) x"
    and "\<And>i. i < length ds \<Longrightarrow> nonzero H (Suc i) (ds ! i)"
    and "uKey \<ge> 0"
  shows "climb sibs uKey (Suc (length ds)) = Inr (length (strip_tips ds))"
  using assms
proof (induction ds arbitrary: uKey rule: rev_induct)
  case (snoc d ds)
  let ?m = "length ds"
  obtain x where x: "x \<noteq> zero_key" "sibs ! ?m = bit_node (kbit k ?m) (tree_root H (Suc ?m) d) x"
    using snoc.prems(1) [of ?m] by auto
  have d: "tree_root H (Suc ?m) d = zero_key \<longleftrightarrow> d = Tip"
    using nonzero_root snoc.prems(2) [of ?m] by auto
  have IH: "climb sibs uk (Suc ?m) = Inr (length (strip_tips ds))" if "uk \<ge> 0" for uk
  proof (rule snoc.IH [OF _ _ that])
    fix i assume "i < length ds"
    then show "\<exists>x. x \<noteq> zero_key \<and> sibs ! i = bit_node (kbit k i) (tree_root H (Suc i) (ds ! i)) x"
      "nonzero H (Suc i) (ds ! i)"
      using snoc.prems(1,2) [of i] by (auto simp: nth_append)
  qed
  show ?case
    using x d IH snoc.prems(3) by (auto simp: IsUniqueSibling_bit_node strip_tips_snoc)
qed simp

lemma sibling_key:
  assumes "wf_tree m (bit_tree (kbit k m) (Lf k' v') u)" "below m k (bit_tree (kbit k m) (Lf k' v') u)"
  shows "JoinKey (take m (GetPath k) @ [of_bool (\<not> kbit k m)]) (RemoveKeyBits k' (Suc m)) = k'"
proof -
  have m: "m < 256" "same_prefix m k k'" "kbit k' m \<longleftrightarrow> \<not> kbit k m"
    using assms by (auto simp: bit_tree_def split: if_splits)
  then have "take m (GetPath k) @ [of_bool (\<not> kbit k m)] = take (Suc m) (GetPath k')"
    by (simp add: take_Suc_conv_app_nth take_GetPath_prefix [of m k k'])
  then show ?thesis using JoinKey_RemoveKeyBits [of "Suc m" k'] m(1) by simp
qed

section \<open>Deleting\<close>

context smt_db
begin

text \<open>The leaf is the only one of the tree.\<close>

lemma delete_last_correct:
  assumes "path_post H k [] u p" "invar (p_db p)"
  shows "\<exists>p'. insert_delete ops H ns k usedKey p = Inr p' \<and>
    mode_post H ns k [] Tip node_at invar p [] ''deleteLast'' p'"
  using assms by (simp add: insert_delete_def mode_post_def path_post_def siblings_ok_def bottom_ok_def)

text \<open>The node the code reads for the sibling of the deleted leaf.\<close>

lemma sibling_node:
  assumes "stored H (node_at s) d c" "c \<noteq> Tip" "invar s"
  shows "db_Get ops s (tree_root H d c) =
    Inr (case c of Lf k v \<Rightarrow> leaf_node (RemoveKeyBits k d) (H v BranchCapacity)
         | Br l r \<Rightarrow> branch_node (tree_root H (Suc d) l) (tree_root H (Suc d) r) | Tip \<Rightarrow> [])"
  using assms(1,2) get_node [OF assms(3)]
  by (cases c) (auto simp: stored_def leaf_node_def branch_node_def branch_pre_def)

lemma delete_found_correct:
  assumes t: "t = plug (ds @ [Lf k' v']) 0 k (Lf k v0)"
    and wf: "wf_tree 0 t" and nz: "nonzero H 0 t" and st: "stored H (node_at (p_db p)) 0 t" and invar: "invar (p_db p)"
    and sibs: "p_siblings p = path_nodes H 0 k (ds @ [Lf k' v']) (Lf k v0) @ xs"
    and level: "p_level p = int (length ds)"
  shows "\<exists>p'. insert_delete ops H ns k (take (length ds) (GetPath k)) p = Inr p' \<and>
    mode_post H ns k (strip_tips ds) (Lf k' v') node_at invar p
      [leaf_pre H (length (strip_tips ds)) k' v'] ''deleteFound'' p'"
proof -
  let ?m = "length ds" and ?cs = "ds @ [Lf k' v']" and ?u = "Lf k v0" and ?n = "length (strip_tips ds)"
  define b where "b = kbit k ?m"
  define a where "a = tree_root H (Suc ?m) (Lf k' v')"
  define S where "S = set_sibling (GetPath k) zero_key ?m (p_siblings p)"
  define sl where "sl = leaf_node (RemoveKeyBits k' (Suc ?m)) (H v' BranchCapacity)"
  define S' where "S' = map_put S (Suc ?m) sl"
  have sl: "IsFinalNode sl" "Get4to8 sl = Inr (H v' BranchCapacity)" "Get0to4 sl = Inr (RemoveKeyBits k' (Suc ?m))"
    by (simp_all add: sl_def)
  have wfm: "wf_tree ?m (bit_tree b (Lf k' v') ?u)" "below ?m k (bit_tree b (Lf k' v') ?u)"
    using wf_tree_plug [of 0 ds k "bit_tree b (Lf k' v') ?u"] below_plug [of 0 ds k "bit_tree b (Lf k' v') ?u"] wf
    unfolding t plug_snoc by (simp_all add: b_def)
  have len: "length ?cs \<le> 256" using plug_depth [of 0 ?cs k ?u] wf t by simp
  have ok: "siblings_ok H k ?cs (p_siblings p)"
    using path_post_siblings [OF walk_path_post [OF len, of H k ?u undefined undefined]] len
    by (auto simp: sibs siblings_ok_def nth_append)
  have okS: "siblings_ok H k ?cs S" "S ! ?m = bit_node b a zero_key"
    using set_sibling_ok [OF ok, of ?m zero_key] by (simp_all add: S_def b_def a_def)
  have a: "a \<noteq> zero_key" using nonzero_sibling [of H 0 ?cs k ?u ?m] nz t nonzero_root [of H "Suc ?m" "Lf k' v'"]
    by (simp add: a_def)
  have "stored H (node_at (p_db p)) (Suc ?m) (Lf k' v')"
    using st tree_nodes_sibling [of ?m ?cs H 0 k ?u] unfolding t stored_def by force
  from sibling_node [OF this _ invar] have get: "db_Get ops (p_db p) a = Inr sl" by (simp add: a_def sl_def)
  have key: "JoinKey (take ?m (GetPath k) @ [of_bool (\<not> b)]) (RemoveKeyBits k' (Suc ?m)) = k'"
    using sibling_key [of ?m k k' v' ?u] wfm by (simp add: b_def)
  have S': "S' ! i = p_siblings p ! i" if "i < ?m" for i
    using that ok by (simp add: S'_def S_def nth_map_put set_sibling_def siblings_ok_def)
  have climb: "climb S' (of_bool (\<not> b)) (Suc ?m) = Inr ?n"
  proof (rule climb_correct)
    fix i assume i: "i < ?m"
    show "\<exists>x. x \<noteq> zero_key \<and> S' ! i = bit_node (kbit k i) (tree_root H (Suc i) (ds ! i)) x"
      using nth_path_nodes_nonzero [of H 0 ?cs k ?u i] nz i unfolding S' [OF i] t sibs
      by (auto simp: nth_append)
    show "nonzero H (Suc i) (ds ! i)"
      using nonzero_sibling [of H 0 ?cs k ?u i] nz i unfolding t by (simp add: nth_append)
  qed simp
  obtain s1 where s1: "hashcalcAndSave ops H ns (p_db p) (ConcatArrays4 (RemoveKeyBits k' ?n) (H v' BranchCapacity)) LeafCapacity =
      Inr (H (ConcatArrays4 (RemoveKeyBits k' ?n) (H v' BranchCapacity)) LeafCapacity, s1)" "invar s1"
    "node_at s1 = put_nodes ns H [(ConcatArrays4 (RemoveKeyBits k' ?n) (H v' BranchCapacity), LeafCapacity)] (node_at (p_db p))"
    by (rule hashcalcAndSave_correct [OF invar length_ConcatArrays4])
  obtain s2 where s2: "drop_err s1 (db_InsertHashKey ops s1 (tree_root H ?n (Lf k' v')) k') = Inr s2" "invar s2"
    "node_at s2 = node_at s1" by (rule drop_err_InsertHashKey [OF s1(2)])
  let ?q = "p\<lparr>p_siblings := S', p_level := int ?n - 1, p_mode := ''deleteFound'', p_db := s2\<rparr>"
  let ?p = "place_child (GetPath k) (tree_root H ?n (Lf k' v')) ?q"
  obtain ys where ys: "ds = strip_tips ds @ ys" using strip_tips_prefix by blast
  have "siblings_ok H k ?cs S'" unfolding S'_def by (rule siblings_ok_map_put [OF okS(1)]) simp
  then have "siblings_ok H k (strip_tips ds) S'"
    using siblings_ok_prefix [of H k "strip_tips ds" "ys @ [Lf k' v']"] ys by (metis append_assoc)
  then have "path_post H k (strip_tips ds) (Lf k' v') ?p"
    by (intro place_child_post) simp_all
  moreover have "insert_delete ops H ns k (take ?m (GetPath k)) p = Inr ?p"
    using level okS(2) a get key climb s1(1) s2(1)
    by (cases b) (simp_all add: insert_delete_def Let_def S_def [symmetric] S'_def [symmetric]
        IsUniqueSibling_bit_node sl del: climb.simps)
  ultimately show ?thesis
    using s1(3) s2(2,3) by (intro exI [of _ ?p]) (simp add: mode_post_def)
qed

lemma delete_not_found_correct:
  assumes t: "t = plug (ds @ [Br l r]) 0 k (Lf k v0)"
    and wf: "wf_tree 0 t" and nz: "nonzero H 0 t" and st: "stored H (node_at (p_db p)) 0 t" and invar: "invar (p_db p)"
    and sibs: "p_siblings p = path_nodes H 0 k (ds @ [Br l r]) (Lf k v0) @ xs"
    and level: "p_level p = int (length ds)"
  shows "\<exists>p'. insert_delete ops H ns k (take (length ds) (GetPath k)) p = Inr p' \<and>
    mode_post H ns k (ds @ [Br l r]) Tip node_at invar p [] ''deleteNotFound'' p'"
proof -
  let ?m = "length ds" and ?cs = "ds @ [Br l r]" and ?u = "Lf k v0"
  define b where "b = kbit k ?m"
  define a where "a = tree_root H (Suc ?m) (Br l r)"
  define S where "S = set_sibling (GetPath k) zero_key ?m (p_siblings p)"
  define sl where "sl = branch_node (tree_root H (Suc (Suc ?m)) l) (tree_root H (Suc (Suc ?m)) r)"
  have len: "length ?cs \<le> 256" using plug_depth [of 0 ?cs k ?u] wf t by simp
  have ok: "siblings_ok H k ?cs (p_siblings p)"
    using path_post_siblings [OF walk_path_post [OF len, of H k ?u undefined undefined]] len
    by (auto simp: sibs siblings_ok_def nth_append)
  have okS: "siblings_ok H k ?cs S" "S ! ?m = bit_node b a zero_key"
    using set_sibling_ok [OF ok, of ?m zero_key] by (simp_all add: S_def b_def a_def)
  have a: "a \<noteq> zero_key" using nonzero_sibling [of H 0 ?cs k ?u ?m] nz t nonzero_root [of H "Suc ?m" "Br l r"]
    by (simp add: a_def)
  have "stored H (node_at (p_db p)) (Suc ?m) (Br l r)"
    using st tree_nodes_sibling [of ?m ?cs H 0 k ?u] unfolding t stored_def by force
  from sibling_node [OF this _ invar] have get: "db_Get ops (p_db p) a = Inr sl"
    unfolding a_def sl_def by simp
  have sl: "\<not> IsFinalNode sl" by (simp add: sl_def)
  let ?p = "p\<lparr>p_siblings := map_put S (Suc ?m) sl, p_mode := ''deleteNotFound''\<rparr>"
  have "siblings_ok H k ?cs (map_put S (Suc ?m) sl)" by (rule siblings_ok_map_put [OF okS(1)]) simp
  moreover have "map_put S (Suc ?m) sl ! ?m = bit_node b a zero_key"
    using okS by (subst nth_map_put) (simp_all add: siblings_ok_def)
  ultimately have "path_post H k ?cs Tip ?p"
    using level by (simp add: path_post_def bottom_ok_def b_def a_def)
  moreover have "insert_delete ops H ns k (take ?m (GetPath k)) p = Inr ?p"
    using level okS(2) a get
    by (cases b) (simp_all add: insert_delete_def Let_def S_def [symmetric] IsUniqueSibling_bit_node sl)
  ultimately show ?thesis
    using invar by (intro exI [of _ ?p]) (simp add: mode_post_def)
qed

lemma insert_delete_correct:
  assumes t: "t = plug cs 0 k (Lf k v0)"
    and wf: "wf_tree 0 t" and nz: "nonzero H 0 t" and st: "stored H (node_at (p_db p)) 0 t" and invar: "invar (p_db p)"
    and p: "path_post H k cs (Lf k v0) p" "p_siblings p = path_nodes H 0 k cs (Lf k v0) @ xs"
  shows "\<exists>cs' u' p' xs m. insert_delete ops H ns k (butlast (take (length cs) (GetPath k))) p = Inr p' \<and>
    mode_post H ns k cs' u' node_at invar p xs m p' \<and> tree_delete 0 k t = plug cs' 0 k u' \<and>
    set xs \<subseteq> tree_nodes H (length cs') u' \<and> tree_nodes H (length cs') u' \<subseteq> set xs \<union> tree_nodes H 0 t \<and>
    (\<exists>ys. cs = cs' @ ys)"
proof (cases cs rule: rev_cases)
  case Nil
  then show ?thesis
    using delete_last_correct [of H k "Lf k v0" p ns "[]"] p(1) invar
    by (intro exI [of _ "[]"] exI [of _ Tip]) (auto simp: t)
next
  case (snoc ds c)
  have del: "tree_delete 0 k t = plug_collapse cs 0 k Tip" unfolding t tree_delete_plug by simp
  have level: "p_level p = int (length ds)" using p(1) snoc by (simp add: path_post_def)
  have "length cs \<le> 256" using p(1) by (simp add: path_post_def siblings_ok_def)
  then have used: "butlast (take (length cs) (GetPath k)) = take (length ds) (GetPath k)"
    by (simp add: snoc butlast_take)
  have "branching c (Lf k v0)"
    using wf wf_tree_plug [of 0 ds k] unfolding t snoc plug_snoc
    by (metis wf_tree_bit_tree)
  then consider (Lf) k' v' where "c = Lf k' v'" | (Br) l r where "c = Br l r" by (cases c) auto
  then show ?thesis
  proof cases
    case Lf
    obtain p' where p': "insert_delete ops H ns k (take (length ds) (GetPath k)) p = Inr p'"
      "mode_post H ns k (strip_tips ds) (Lf k' v') node_at invar p
        [leaf_pre H (length (strip_tips ds)) k' v'] ''deleteFound'' p'"
      using delete_found_correct [of t ds k' v' k v0 H p xs ns] assms level snoc Lf by auto
    have "tree_delete 0 k t = plug (strip_tips ds) 0 k (Lf k' v')"
      using plug_collapse_Lf [of ds 0 k k' v']
      by (simp add: del snoc Lf plug_collapse_snoc bit_collapse_def)
    moreover have "(v', BranchCapacity) \<in> tree_nodes H 0 t"
      using tree_nodes_sibling [of "length ds" cs H 0 k "Lf k v0"] unfolding t by (simp add: snoc Lf)
    moreover have "\<exists>ys. cs = strip_tips ds @ ys"
      using strip_tips_prefix [of ds] snoc by (metis append_assoc)
    ultimately show ?thesis
      using p' unfolding used
      by (intro exI [of _ "strip_tips ds"] exI [of _ "Lf k' v'"] exI [of _ p']
          exI [of _ "[leaf_pre H (length (strip_tips ds)) k' v']"] exI [of _ "''deleteFound''"]) auto
  next
    case Br
    obtain p' where p': "insert_delete ops H ns k (take (length ds) (GetPath k)) p = Inr p'"
      "mode_post H ns k cs Tip node_at invar p [] ''deleteNotFound'' p'"
      using delete_not_found_correct [of t ds l r k v0 H p xs ns] assms level snoc Br by auto
    have "tree_delete 0 k t = plug cs 0 k Tip"
      by (simp add: del snoc Br plug_collapse_snoc plug_snoc bit_collapse_def bit_tree_def plug_collapse_Br)
    then show ?thesis
      using p' unfolding used
      by (intro exI [of _ cs] exI [of _ Tip] exI [of _ p'] exI [of _ "[]"]
          exI [of _ "''deleteNotFound''"]) auto
  qed
qed

end

end
