(* ===== verification/Smt_Refine.thy ===== *)
theory Smt_Refine
  imports Smt_Delete
begin

text \<open>
  \<^verbatim>\<open>SMT.insert\<close> refines the update of the abstract tree: on a store that holds the tree of the old
  root it returns the root of the updated tree, and leaves a store that holds it. The lemmas are
  proved once in the locale of the node store, and hold of the in-memory database by its
  interpretation.
\<close>

lemma value8_IsZero_words:
  "None \<notin> set v \<Longrightarrow> value8_IsZero (Some v) \<longleftrightarrow> list_all (\<lambda>w. w = 0) (ToUintArray (Some v))"
  by (induction v) (auto simp: value8_IsZero_def ToUintArray_def opt_Uint64_def split: option.splits)

lemma tree_nodes_prefix:
  "cs = cs' @ ys \<Longrightarrow> (\<Union>i<length cs'. tree_nodes H (Suc i) (cs' ! i)) \<subseteq> tree_nodes H 0 (plug cs 0 k u)"
proof (rule UN_least)
  fix i assume "cs = cs' @ ys" "i \<in> {..<length cs'}"
  then show "tree_nodes H (Suc i) (cs' ! i) \<subseteq> tree_nodes H 0 (plug cs 0 k u)"
    using tree_nodes_sibling [of i cs H 0 k u] by (simp add: nth_append)
qed

lemma tree_lookup_plug: "tree_lookup d (plug cs d k u) k = tree_lookup (d + length cs) u k"
  by (induction cs arbitrary: d) (simp_all add: bit_tree_def)

lemma tree_delete_absent:
  "wf_tree 0 t \<Longrightarrow> tree_lookup 0 t k = None \<Longrightarrow> tree_delete 0 k t = t"
  by (rule wf_tree_unique [of 0]) (auto simp: wf_tree_delete tree_lookup_delete)

context smt_db
begin

lemma smt_insert_finish:
  assumes walk: "walk_down ops s (GetPath k) (walk_init r) = Inr w"
    and mode: "insert_mode ops H ns k v vh w
      \<lparr>p_siblings = w_siblings w, p_level = int (w_level w) - 1, p_newRoot = r, p_mode = ''not run'', p_db = s\<rparr> = Inr p'"
    and post: "path_post H k cs' u' p'" "invar (p_db p')" "node_at (p_db p') = put_nodes ns H xs (node_at s)"
    and sub: "set xs \<subseteq> tree_nodes H (length cs') u'" "tree_nodes H (length cs') u' \<subseteq> set xs \<union> N"
      "(\<Union>i<length cs'. tree_nodes H (Suc i) (cs' ! i)) \<subseteq> N"
  shows "\<exists>s' xs. smt_insert ops H ns s k v vh r =
      Inr (\<lparr>NewRootScalar = tree_root H 0 (plug cs' 0 k u'), Mode = p_mode p'\<rparr>, s') \<and> invar s' \<and>
    node_at s' = put_nodes ns H xs (node_at s) \<and> set xs \<subseteq> tree_nodes H 0 (plug cs' 0 k u') \<and>
    tree_nodes H 0 (plug cs' 0 k u') \<subseteq> set xs \<union> N"
proof -
  let ?sibs = "take (length cs') (p_siblings p')"
  have level: "nat (p_level p' + 1) = length cs'" using post(1) by (simp add: path_post_def)
  obtain s1 where s1: "updateDepth ops (p_db p') (length ?sibs) = Inr s1" "invar s1" "node_at s1 = node_at (p_db p')"
    using updateDepth_correct [OF post(2)] by blast
  have "siblings_ok H k cs' ?sibs" "bottom_ok H k cs' ?sibs (p_newRoot p') (tree_root H (length cs') u')"
    using post(1) by (auto simp: path_post_def intro: siblings_ok_take bottom_ok_take)
  from rehash_correct [OF this s1(2), of ns] obtain s2 ys where
    s2: "rehash ops H ns (GetPath k) (length cs') ?sibs s1 (p_newRoot p') = Inr (tree_root H 0 (plug cs' 0 k u'), s2)"
      "invar s2" "node_at s2 = put_nodes ns H ys (node_at s1)" "set ys \<subseteq> tree_nodes H 0 (plug cs' 0 k u')"
      "tree_nodes H 0 (plug cs' 0 k u') \<subseteq>
        set ys \<union> tree_nodes H (length cs') u' \<union> (\<Union>i<length cs'. tree_nodes H (Suc i) (cs' ! i))"
    by blast
  have "set (xs @ ys) \<subseteq> tree_nodes H 0 (plug cs' 0 k u')"
    using sub(1) s2(4) tree_nodes_plug [of H 0 cs' u' k] by auto
  moreover have "tree_nodes H 0 (plug cs' 0 k u') \<subseteq> set (xs @ ys) \<union> N"
    using s2(5) sub(2,3) by auto
  moreover have "smt_insert ops H ns s k v vh r =
      Inr (\<lparr>NewRootScalar = tree_root H 0 (plug cs' 0 k u'), Mode = p_mode p'\<rparr>, s2)"
    using walk mode s1(1) s2(1) by (simp add: smt_insert_def RemoveOver_def level Let_def)
  ultimately show ?thesis
    using s1(3) s2(2,3) post(3) by (intro exI [of _ s2] exI [of _ "xs @ ys"]) simp
qed

lemma insert_mode_correct:
  assumes invar: "invar s" and wf: "wf_tree 0 t" and st: "stored H (node_at s) 0 t" and nz: "nonzero H 0 t"
    and v: "length v = 8" "None \<notin> set v" and vh: "vh = zero_key \<or> vh = H (ToUintArray (Some v)) BranchCapacity"
    and t: "t = plug cs 0 k u" "\<not> is_Br u" and w: "walk_post H 0 k cs u (walk_init r) w"
    and p: "p = \<lparr>p_siblings = w_siblings w, p_level = int (w_level w) - 1, p_newRoot = tree_root H 0 t,
      p_mode = m0, p_db = s\<rparr>"
  shows "\<exists>cs' u' p' xs m. insert_mode ops H ns k v vh w p = Inr p' \<and>
    mode_post H ns k cs' u' node_at invar p xs m p' \<and>
    tree_update k (ToUintArray (Some v)) t = plug cs' 0 k u' \<and>
    set xs \<subseteq> tree_nodes H (length cs') u' \<and> tree_nodes H (length cs') u' \<subseteq> set xs \<union> tree_nodes H 0 t \<and>
    (\<exists>ys. cs = cs' @ ys)"
proof -
  let ?v = "ToUintArray (Some v)"
  have len: "length cs \<le> 256" using plug_depth [of 0 cs k u] wf t by simp
  have pp: "path_post H k cs u p"
    using walk_path_post [OF len, of H k u m0 s] w unfolding p t(1) by (simp add: walk_post_def walk_init_def)
  have db: "invar (p_db p)" using invar p by simp
  have below: "below (length cs) k u" using below_plug [of 0 cs k u] wf t by simp
  have upd: "tree_update k ?v t = (if value8_IsZero (Some v) then tree_delete 0 k t
      else plug cs 0 k (tree_insert (length cs) k ?v u))"
    using v(2) by (simp add: tree_update_def value8_IsZero_words t(1) tree_insert_plug)
  have old: "tree_nodes H (length cs) u \<subseteq> tree_nodes H 0 t"
    using tree_nodes_plug [of H 0 cs u k] t(1) by simp
  have same: ?thesis if "tree_update k ?v t = t" "insert_mode ops H ns k v vh w p = Inr (p\<lparr>p_mode := ''zeroToZero''\<rparr>)"
    using that pp db old t(1)
    by (intro exI [of _ cs] exI [of _ u] exI [of _ "p\<lparr>p_mode := ''zeroToZero''\<rparr>"] exI [of _ "[]"] exI [of _ "''zeroToZero''"])
      (simp add: mode_post_def path_post_def)
  have lookup: "tree_lookup 0 t k = tree_lookup (length cs) u k"
    using tree_lookup_plug [of 0 cs k u] t(1) by simp
  have absent: ?thesis if "value8_IsZero (Some v)" "tree_lookup (length cs) u k = None"
      "insert_mode ops H ns k v vh w p = Inr (p\<lparr>p_mode := ''zeroToZero''\<rparr>)"
    using that tree_delete_absent [OF wf, of k] lookup upd by (intro same) simp_all
  show ?thesis
  proof (cases u)
    case Tip
    then have w': "w_foundKey w = None" using w by (simp add: walk_post_def)
    show ?thesis
    proof (cases "value8_IsZero (Some v)")
      case True
      then show ?thesis using w' Tip by (intro absent) (simp_all add: insert_mode_def)
    next
      case False
      obtain p' xs where "insert_not_found ops H ns k v vh p = Inr p'"
        "mode_post H ns k cs (Lf k ?v) node_at invar p xs ''insertNotFound'' p'" "set xs = tree_nodes H (length cs) (Lf k ?v)"
        using insert_not_found_correct [where H = H, OF pp db v(1) vh] by blast
      with False show ?thesis
        using w' upd Tip
        by (intro exI [of _ cs] exI [of _ "Lf k ?v"] exI [of _ p'] exI [of _ xs] exI [of _ "''insertNotFound''"])
          (simp add: insert_mode_def)
    qed
  next
    case (Lf k' v')
    then have w': "w_foundKey w = Some k'" "w_foundRKey w = RemoveKeyBits k' (length cs)"
      "w_foundOldValHash w = H v' BranchCapacity" "w_usedKey w = take (length cs) (GetPath k)"
      "w_siblings w = path_nodes H 0 k cs u @ end_nodes H (length cs) u"
      using w by (simp_all add: walk_post_def walk_init_def)
    consider (upd) "\<not> value8_IsZero (Some v)" "k' = k" | (found) "\<not> value8_IsZero (Some v)" "k' \<noteq> k"
      | (del) "value8_IsZero (Some v)" "k' = k" | (zero) "value8_IsZero (Some v)" "k' \<noteq> k" by blast
    then show ?thesis
    proof cases
      case upd
      obtain p' xs where "insert_update ops H ns k v vh w p = Inr p'"
        "mode_post H ns k cs (Lf k ?v) node_at invar p xs ''update'' p'" "set xs = tree_nodes H (length cs) (Lf k ?v)"
        using insert_update_correct [where H = H, OF pp db v(1) vh, of w] w'(2) upd by blast
      with upd show ?thesis
        using w' \<open>tree_update k ?v t = _\<close> Lf
        by (intro exI [of _ cs] exI [of _ "Lf k ?v"] exI [of _ p'] exI [of _ xs] exI [of _ "''update''"])
          (simp add: insert_mode_def)
    next
      case found
      let ?u = "tree_split (length cs) k ?v k' v'"
      have "same_prefix (length cs) k k'" using below Lf by simp
      then obtain p' xs where F: "insert_found ops H ns k v vh w k' p = Inr p'"
        "mode_post H ns k cs ?u node_at invar p xs ''insertFound'' p'"
        "set xs \<union> {(v', BranchCapacity)} = tree_nodes H (length cs) ?u"
        using insert_found_correct [where H = H, OF pp db v(1) vh w'(3)] found by metis
      have "(v', BranchCapacity) \<in> tree_nodes H 0 t" using old Lf by simp
      then have "set xs \<subseteq> tree_nodes H (length cs) ?u" "tree_nodes H (length cs) ?u \<subseteq> set xs \<union> tree_nodes H 0 t"
        using F(3) by blast+
      with found show ?thesis
        using w' upd Lf F(1,2)
        by (intro exI [of _ cs] exI [of _ ?u] exI [of _ p'] exI [of _ xs] exI [of _ "''insertFound''"])
          (simp add: insert_mode_def)
    next
      case del
      have "insert_mode ops H ns k v vh w p = insert_delete ops H ns k (butlast (take (length cs) (GetPath k))) p"
        using del w' by (simp add: insert_mode_def)
      with insert_delete_correct [of t cs k v' H p "end_nodes H (length cs) u" ns] show ?thesis
        using del t(1) Lf wf nz st invar pp w'(5) upd p by simp
    next
      case zero
      then show ?thesis using w' Lf by (intro absent) (simp_all add: insert_mode_def)
    qed
  qed (use t(2) in simp)
qed

lemma smt_insert_correct:
  assumes invar: "invar s" and wf: "wf_tree 0 t" and st: "stored H (node_at s) 0 t" and nz: "nonzero H 0 t"
    and v: "length v = 8" "None \<notin> set v" and vh: "vh = zero_key \<or> vh = H (ToUintArray (Some v)) BranchCapacity"
  shows "\<exists>s' xs m. smt_insert ops H ns s k v vh (tree_root H 0 t) =
      Inr (\<lparr>NewRootScalar = tree_root H 0 (tree_update k (ToUintArray (Some v)) t), Mode = m\<rparr>, s') \<and> invar s' \<and>
    node_at s' = put_nodes ns H xs (node_at s) \<and>
    set xs \<subseteq> tree_nodes H 0 (tree_update k (ToUintArray (Some v)) t) \<and>
    tree_nodes H 0 (tree_update k (ToUintArray (Some v)) t) \<subseteq> set xs \<union> tree_nodes H 0 t"
proof -
  let ?r = "tree_root H 0 t"
  obtain cs u w where w: "t = plug cs 0 k u" "\<not> is_Br u" "walk_down ops s (GetPath k) (walk_init ?r) = Inr w"
    "walk_post H 0 k cs u (walk_init ?r) w"
    using walk_down_correct [OF invar st nz wf, of k "walk_init ?r"] by (auto simp: walk_init_def)
  define p where "p = \<lparr>p_siblings = w_siblings w, p_level = int (w_level w) - 1, p_newRoot = ?r,
    p_mode = ''not run'', p_db = s\<rparr>"
  obtain cs' u' p' xs m ys where m: "insert_mode ops H ns k v vh w p = Inr p'"
    "mode_post H ns k cs' u' node_at invar p xs m p'"
    "tree_update k (ToUintArray (Some v)) t = plug cs' 0 k u'"
    "set xs \<subseteq> tree_nodes H (length cs') u'" "tree_nodes H (length cs') u' \<subseteq> set xs \<union> tree_nodes H 0 t"
    "cs = cs' @ ys"
    using insert_mode_correct [where H = H, OF invar wf st nz v vh w(1,2,4) p_def] by blast
  have "(\<Union>i<length cs'. tree_nodes H (Suc i) (cs' ! i)) \<subseteq> tree_nodes H 0 t"
    using tree_nodes_prefix [OF m(6)] w(1) by simp
  from smt_insert_finish [OF w(3) m(1) [unfolded p_def] _ _ _ m(4,5) this] show ?thesis
    using m(2) unfolding m(3) by (auto simp: mode_post_def p_def)
qed

end

end
