(* ===== verification/Smt_Store.thy ===== *)
theory Smt_Store
  imports Smt_Refine
begin

text \<open>
  The tree over its lifetime: \<^verbatim>\<open>insertSingle\<close> reads and writes the last root, a run of insertions
  leaves the root of the tree of its final content, and the root does not depend on the order of the
  insertions.
\<close>

section \<open>Roots as scalars\<close>

lemma scalar_to_root_step:
  "0 \<le> s \<Longrightarrow> scalar_to_root_loop (Suc n) (s * 2 ^ 64 + uint w) = w # scalar_to_root_loop n s"
  for w :: u64
proof -
  have "(s * 2 ^ 64 + uint w) mod 2 ^ 64 = uint w" "(s * 2 ^ 64 + uint w) div 2 ^ 64 = s"
    using uint_lt2p [of w] by (simp_all add: mod_pos_pos_trivial div_pos_pos_trivial)
  then show ?thesis by simp
qed

lemma scalar_to_root_words: "scalar_to_root_loop (length xs) (ArrayToScalar xs) = xs"
proof (induction xs)
  case (Cons x xs)
  then show ?case
    using scalar_to_root_step [OF ArrayToScalar_nonneg, of "length xs" xs x] by simp
qed simp

lemma ScalarToRoot_ToBigInt [simp]: "ScalarToRoot (ToBigInt r) = r"
proof (cases r)
  case (NodeKey a b c d)
  then show ?thesis
    using scalar_to_root_words [of "[a, b, c, d]"]
    by (simp add: ScalarToRoot_def ToBigInt_def mk_key_def eval_nat_numeral del: ArrayToScalar.simps)
qed

lemma ToBigInt_nonneg [simp]: "0 \<le> ToBigInt r"
  by (simp add: ToBigInt_def ArrayToScalar_nonneg)

section \<open>Runs of insertions\<close>

text \<open>A store holds a tree: the nodes are there and the last root is its root.\<close>

definition holds :: "poseidon \<Rightarrow> (node_key \<Rightarrow> node_value) \<Rightarrow> smt_tree \<Rightarrow> bool" where
  "holds H nd t \<longleftrightarrow> wf_tree 0 t \<and> nonzero H 0 t \<and> stored H nd 0 t"

lemma holds_Tip [simp]: "holds H nd Tip"
  by (simp add: holds_def nonzero_def stored_def)

definition entry_ok :: "node_value \<Rightarrow> bool" where
  "entry_ok v \<longleftrightarrow> length v = 8 \<and> None \<notin> set v"

fun insert_all ::
  "'s smt_db_ops \<Rightarrow> poseidon \<Rightarrow> 's \<Rightarrow> (node_key \<times> node_value) list \<Rightarrow> 's res" where
  "insert_all ops H s [] = Inr s"
| "insert_all ops H s ((k, v) # kvs) =
     res_bind (smt_Insert ops H False s k v) (\<lambda>(smtr, s). insert_all ops H s kvs)"

definition words :: "node_value \<Rightarrow> value8" where
  "words v = ToUintArray (Some v)"

definition run_tree :: "smt_tree \<Rightarrow> (node_key \<times> node_value) list \<Rightarrow> smt_tree" where
  "run_tree t kvs = fold (\<lambda>(k, v). tree_update k (words v)) kvs t"

text \<open>The content a run leaves, as a map.\<close>

definition run_map :: "(node_key \<times> node_value) list \<Rightarrow> (node_key \<rightharpoonup> value8)" where
  "run_map kvs = fold (\<lambda>(k, v). map_update k (words v)) kvs Map.empty"

text \<open>The hash function behaves on the nodes of the trees of a run: no zero and no collision.\<close>

fun run_ok :: "poseidon \<Rightarrow> smt_tree \<Rightarrow> (node_key \<times> node_value) list \<Rightarrow> bool" where
  "run_ok H t [] = True"
| "run_ok H t ((k, v) # kvs) \<longleftrightarrow>
     entry_ok v \<and> nonzero H 0 (tree_update k (words v) t) \<and> collision_free H (tree_update k (words v) t) \<and>
     run_ok H (tree_update k (words v) t) kvs"

lemma length_words [simp]: "length v = 8 \<Longrightarrow> length (words v) = 8"
  by (simp add: words_def)

lemma run_ok_wf: "run_ok H t kvs \<Longrightarrow> wf_tree 0 t \<Longrightarrow> wf_tree 0 (run_tree t kvs)"
  by (induction H t kvs rule: run_ok.induct) (auto simp: run_tree_def entry_ok_def wf_tree_update)

lemma run_lookup:
  "run_ok H t kvs \<Longrightarrow> wf_tree 0 t \<Longrightarrow>
   tree_lookup 0 (run_tree t kvs) = fold (\<lambda>(k, v). map_update k (words v)) kvs (tree_lookup 0 t)"
  by (induction H t kvs rule: run_ok.induct)
    (auto simp: run_tree_def entry_ok_def wf_tree_update tree_lookup_update)

lemma tree_lookup_Tip: "tree_lookup 0 Tip = Map.empty"
  by (simp add: fun_eq_iff)

lemma run_tree_unique:
  "run_ok H Tip xs \<Longrightarrow> run_ok H Tip ys \<Longrightarrow> run_map xs = run_map ys \<Longrightarrow> run_tree Tip xs = run_tree Tip ys"
  by (rule wf_tree_unique [of 0]) (simp_all add: run_ok_wf run_lookup run_map_def tree_lookup_Tip)

context smt_db
begin

lemma insertSingle_correct:
  assumes s: "invar s" "db_GetLastRoot ops s = Inr (ToBigInt (tree_root H 0 t))" and h: "holds H (node_at s) t"
    and v: "entry_ok v" and vh: "vh = zero_key \<or> vh = H (words v) BranchCapacity"
    and new: "nonzero H 0 (tree_update k (words v) t)" "collision_free H (tree_update k (words v) t)"
  shows "\<exists>s' m. insertSingle ops H False s k v vh =
      Inr (\<lparr>NewRootScalar = tree_root H 0 (tree_update k (words v) t), Mode = m\<rparr>, s') \<and> invar s' \<and>
    db_GetLastRoot ops s' = Inr (ToBigInt (tree_root H 0 (tree_update k (words v) t))) \<and>
    holds H (node_at s') (tree_update k (words v) t)"
proof -
  let ?t = "tree_update k (words v) t"
  obtain s1 xs m where i: "smt_insert ops H False s k v vh (tree_root H 0 t) =
      Inr (\<lparr>NewRootScalar = tree_root H 0 ?t, Mode = m\<rparr>, s1)" "invar s1"
    "node_at s1 = put_nodes False H xs (node_at s)" "set xs \<subseteq> tree_nodes H 0 ?t"
    "tree_nodes H 0 ?t \<subseteq> set xs \<union> tree_nodes H 0 t"
    using smt_insert_correct [where H = H, OF s(1), of t v vh False k] h v vh
    unfolding holds_def entry_ok_def words_def by blast
  obtain s2 where s2: "db_SetLastRoot ops s1 (ToBigInt (tree_root H 0 ?t)) = Inr s2" "invar s2"
    "node_at s2 = node_at s1" "db_GetLastRoot ops s2 = Inr (ToBigInt (tree_root H 0 ?t))"
    using set_last_root [OF i(2) ToBigInt_nonneg] by blast
  have "holds H (node_at s2) ?t"
    using stored_put_nodes [OF _ new(2) i(4,5)] h v new(1)
    by (simp add: holds_def s2(3) i(3) wf_tree_update entry_ok_def)
  with s2 show ?thesis
    by (simp add: insertSingle_def getLastRoot_def setLastRoot_def s(2) i(1))
qed

lemma insert_all_correct:
  assumes "invar s" "db_GetLastRoot ops s = Inr (ToBigInt (tree_root H 0 t))" "holds H (node_at s) t" "run_ok H t kvs"
  shows "\<exists>s'. insert_all ops H s kvs = Inr s' \<and> invar s' \<and> holds H (node_at s') (run_tree t kvs) \<and>
    db_GetLastRoot ops s' = Inr (ToBigInt (tree_root H 0 (run_tree t kvs)))"
  using assms
proof (induction H t kvs arbitrary: s rule: run_ok.induct)
  case (2 H t k v kvs)
  obtain s1 m where s1: "insertSingle ops H False s k v zero_key =
      Inr (\<lparr>NewRootScalar = tree_root H 0 (tree_update k (words v) t), Mode = m\<rparr>, s1)" "invar s1"
    "db_GetLastRoot ops s1 = Inr (ToBigInt (tree_root H 0 (tree_update k (words v) t)))"
    "holds H (node_at s1) (tree_update k (words v) t)"
    using insertSingle_correct [OF 2(2-4), of v zero_key k] "2.prems"(4) by auto
  from 2(1) [OF s1(2-4)] "2.prems"(4) show ?case
    by (simp add: smt_Insert_def s1(1) run_tree_def)
qed (auto simp: run_tree_def)

end

section \<open>The tree over the in-memory database\<close>

lemma mem_ops_LastRoot [simp]: "db_GetLastRoot mem_ops = mem_GetLastRoot"
  by (simp add: mem_ops_def)

lemma NewMemDb_root: "mem_GetLastRoot NewMemDb = Inr (ToBigInt zero_key)"
  by (simp add: mem_GetLastRoot_def NewMemDb_def ToBigInt_def zero_key_def)

text \<open>A hash function and values for the concrete runs: a polynomial of the twelve words.\<close>

definition poly_hash :: poseidon where
  "poly_hash inp cap = NodeKey (foldl (\<lambda>a w. a * 31 + w) 7 (inp @ nk_list cap)) 1 0 0"

definition small_value :: "int \<Rightarrow> node_value" where
  "small_value n = [Some n, Some 0, Some 0, Some 0, Some 0, Some 0, Some 0, Some 0]"

lemma words_small_value: "words (small_value n) = [word_of_int \<bar>n\<bar>, 0, 0, 0, 0, 0, 0, 0]"
  by (simp add: words_def ToUintArray_def opt_Uint64_def big_Uint64_def small_value_def)

lemma entry_ok_small_value [simp]: "entry_ok (small_value n)"
  by (simp add: entry_ok_def small_value_def)

lemma nonzero_poly_hash [simp]: "nonzero poly_hash d t"
  by (auto simp: nonzero_def poly_hash_def zero_key_def)

lemmas poly_hash_simps = collision_free_def inj_on_def poly_hash_def ConcatArrays4_def BranchCapacity_def
  LeafCapacity_def RemoveKeyBits_def mk_key_def branch_pre_def

lemma kbit_small [simp]: "kbit (NodeKey 1 0 0 0) 0" "\<not> kbit (NodeKey 0 0 0 0) 0"
  by (simp_all add: kbit_def)

lemma small_trees:
  "tree_update (NodeKey 1 0 0 0) (words (small_value 5)) Tip = Lf (NodeKey 1 0 0 0) [5, 0, 0, 0, 0, 0, 0, 0]"
  "tree_update (NodeKey 0 0 0 0) (words (small_value 6)) Tip = Lf (NodeKey 0 0 0 0) [6, 0, 0, 0, 0, 0, 0, 0]"
  "tree_update (NodeKey 0 0 0 0) (words (small_value 6)) (Lf (NodeKey 1 0 0 0) [5, 0, 0, 0, 0, 0, 0, 0]) =
     Br (Lf (NodeKey 0 0 0 0) [6, 0, 0, 0, 0, 0, 0, 0]) (Lf (NodeKey 1 0 0 0) [5, 0, 0, 0, 0, 0, 0, 0])"
  "tree_update (NodeKey 1 0 0 0) (words (small_value 5)) (Lf (NodeKey 0 0 0 0) [6, 0, 0, 0, 0, 0, 0, 0]) =
     Br (Lf (NodeKey 0 0 0 0) [6, 0, 0, 0, 0, 0, 0, 0]) (Lf (NodeKey 1 0 0 0) [5, 0, 0, 0, 0, 0, 0, 0])"
  by (simp_all add: tree_update_def words_small_value tree_split_here bit_tree_def)

lemma small_trees_collision_free:
  "collision_free poly_hash (Lf (NodeKey 1 0 0 0) [5, 0, 0, 0, 0, 0, 0, 0])"
  "collision_free poly_hash (Lf (NodeKey 0 0 0 0) [6, 0, 0, 0, 0, 0, 0, 0])"
  "collision_free poly_hash
     (Br (Lf (NodeKey 0 0 0 0) [6, 0, 0, 0, 0, 0, 0, 0]) (Lf (NodeKey 1 0 0 0) [5, 0, 0, 0, 0, 0, 0, 0]))"
  by (simp_all add: poly_hash_simps)

lemma small_runs:
  "run_ok poly_hash Tip [(NodeKey 1 0 0 0, small_value 5), (NodeKey 0 0 0 0, small_value 6)]"
  "run_ok poly_hash Tip [(NodeKey 0 0 0 0, small_value 6), (NodeKey 1 0 0 0, small_value 5)]"
  by (simp_all add: small_trees small_trees_collision_free)

lemma small_runs_map:
  "run_map [(NodeKey 1 0 0 0, small_value 5), (NodeKey 0 0 0 0, small_value 6)] =
   run_map [(NodeKey 0 0 0 0, small_value 6), (NodeKey 1 0 0 0, small_value 5)]"
  by (simp add: run_map_def map_update_def words_small_value fun_upd_twist)

text \<open>
  C1. \<^verbatim>\<open>SMT.insert\<close> refines the update of the abstract tree. On an in-memory database that holds a
  well-formed tree, inserting any value (zero included, which deletes) at any key returns the
  root of the updated tree, in every mode, and the new database holds every node of the updated
  tree, provided the hash has no collision on the nodes of the updated tree and no zero on the old one.
\<close>

theorem mem_insert_refines:
  assumes "mem_invar s" "holds H (mem_node_at s) t" "entry_ok v"
    and "newValH = zero_key \<or> newValH = H (words v) BranchCapacity"
    and "collision_free H (tree_update k (words v) t)"
  shows "\<exists>s' m. smt_insert mem_ops H False s k v newValH (tree_root H 0 t) =
      Inr (\<lparr>NewRootScalar = tree_root H 0 (tree_update k (words v) t), Mode = m\<rparr>, s') \<and>
    mem_invar s' \<and> stored H (mem_node_at s') 0 (tree_update k (words v) t) \<and>
    wf_tree 0 (tree_update k (words v) t) \<and>
    tree_lookup 0 (tree_update k (words v) t) = map_update k (words v) (tree_lookup 0 t)"
proof -
  have wf: "wf_tree 0 t" "length v = 8" using assms(2,3) by (simp_all add: holds_def entry_ok_def)
  obtain s' xs m where i: "smt_insert mem_ops H False s k v newValH (tree_root H 0 t) =
      Inr (\<lparr>NewRootScalar = tree_root H 0 (tree_update k (words v) t), Mode = m\<rparr>, s')" "mem_invar s'"
    "mem_node_at s' = put_nodes False H xs (mem_node_at s)" "set xs \<subseteq> tree_nodes H 0 (tree_update k (words v) t)"
    "tree_nodes H 0 (tree_update k (words v) t) \<subseteq> set xs \<union> tree_nodes H 0 t"
    using mem.smt_insert_correct [where H = H, OF assms(1), of t v newValH False k] assms(2-4)
    unfolding holds_def entry_ok_def words_def by blast
  have "stored H (mem_node_at s') 0 (tree_update k (words v) t)"
    unfolding i(3) using assms(2) by (intro stored_put_nodes [OF _ assms(5) i(4,5)]) (simp add: holds_def)
  then show ?thesis using i(1,2) wf by (simp add: wf_tree_update tree_lookup_update)
qed

theorem mem_insert_refines_witness:
  "\<exists>s' m. smt_insert mem_ops poly_hash False NewMemDb (NodeKey 1 0 0 0) (small_value 5) zero_key zero_key =
      Inr (\<lparr>NewRootScalar = tree_root poly_hash 0 (Lf (NodeKey 1 0 0 0) [5, 0, 0, 0, 0, 0, 0, 0]), Mode = m\<rparr>, s')"
  using mem_insert_refines [of NewMemDb poly_hash Tip "small_value 5" zero_key "NodeKey 1 0 0 0"]
  by (simp only: small_trees small_trees_collision_free mem_invar_NewMemDb holds_Tip entry_ok_small_value
      tree_root.simps(1) simp_thms) blast

text \<open>
  C2. The root is a function of the content. Two runs of insertions from the empty in-memory
  database that leave the same key-value map leave the same last root, whatever the order, the
  overwrites and the deletions on the way; and the root is that of the one well-formed tree with
  that content.
\<close>

theorem mem_root_history_independent:
  assumes "run_ok H Tip xs" "run_ok H Tip ys" "run_map xs = run_map ys"
  shows "\<exists>s s' t. insert_all mem_ops H NewMemDb xs = Inr s \<and> insert_all mem_ops H NewMemDb ys = Inr s' \<and>
    wf_tree 0 t \<and> tree_lookup 0 t = run_map xs \<and>
    mem_GetLastRoot s = Inr (ToBigInt (tree_root H 0 t)) \<and> mem_GetLastRoot s' = Inr (ToBigInt (tree_root H 0 t))"
proof -
  have "tree_lookup 0 (run_tree Tip xs) = run_map xs" "wf_tree 0 (run_tree Tip xs)"
    using run_lookup [OF assms(1)] run_ok_wf [OF assms(1)] by (simp_all add: run_map_def tree_lookup_Tip)
  moreover obtain s where "insert_all mem_ops H NewMemDb xs = Inr s"
    "mem_GetLastRoot s = Inr (ToBigInt (tree_root H 0 (run_tree Tip xs)))"
    using mem.insert_all_correct [of NewMemDb H Tip xs] assms(1) by (auto simp: NewMemDb_root)
  moreover obtain s' where "insert_all mem_ops H NewMemDb ys = Inr s'"
    "mem_GetLastRoot s' = Inr (ToBigInt (tree_root H 0 (run_tree Tip ys)))"
    using mem.insert_all_correct [of NewMemDb H Tip ys] assms(2) by (auto simp: NewMemDb_root)
  ultimately show ?thesis using run_tree_unique [OF assms] by auto
qed

theorem mem_root_history_independent_witness:
  "\<exists>s s' r. insert_all mem_ops poly_hash NewMemDb
       [(NodeKey 1 0 0 0, small_value 5), (NodeKey 0 0 0 0, small_value 6)] = Inr s \<and>
     insert_all mem_ops poly_hash NewMemDb
       [(NodeKey 0 0 0 0, small_value 6), (NodeKey 1 0 0 0, small_value 5)] = Inr s' \<and>
     mem_GetLastRoot s = Inr r \<and> mem_GetLastRoot s' = Inr r"
  using mem_root_history_independent [OF small_runs small_runs_map] by blast

end
