(* ===== verification/Go_Bytes.thy ===== *)
theory Go_Bytes
  imports Go_Prelude
begin

unbundle bit_operations_syntax

text \<open>
  Byte strings as the sources use them: indexing that may panic, copies into 32-byte hashes,
  and the big-endian texts of 64-bit words with their round trip and their order.
\<close>

section \<open>Indexing and fixed-size copies\<close>

definition nth_res :: "'a list \<Rightarrow> nat \<Rightarrow> 'a res" where
  "nth_res xs i = (if i < length xs then Inr (xs ! i) else Inl (Panic ''index out of range''))"

text \<open>The assignment \<^verbatim>\<open>xs[i] = v\<close>, which panics outside the slice and never extends it.\<close>

definition set_res :: "'a list \<Rightarrow> nat \<Rightarrow> 'a \<Rightarrow> 'a list res" where
  "set_res xs i v = (if i < length xs then Inr (xs[i := v]) else Inl (Panic ''index out of range''))"

lemma nth_res_less [simp]: "i < length xs \<Longrightarrow> nth_res xs i = Inr (xs ! i)"
  by (simp add: nth_res_def)

text \<open>The slice \<^verbatim>\<open>s[i:j]\<close> of a slice whose capacity is its length.\<close>

definition slice_res :: "'a list \<Rightarrow> nat \<Rightarrow> nat \<Rightarrow> 'a list res" where
  "slice_res xs i j = (if i \<le> j \<and> j \<le> length xs then Inr (take (j - i) (drop i xs))
     else Inl (Panic ''slice bounds out of range''))"

lemma slice_res_append [simp]: "i = length a \<Longrightarrow> j = i + length b \<Longrightarrow> slice_res (a @ b @ c) i j = Inr b"
  by (simp add: slice_res_def)

text \<open>\<^verbatim>\<open>copy\<close> into a zeroed array of 32 bytes.\<close>

definition copy32 :: "bytes \<Rightarrow> bytes" where
  "copy32 bs = take 32 (bs @ replicate 32 0)"

lemma length_copy32 [simp]: "length (copy32 bs) = 32"
  by (simp add: copy32_def)

lemma copy32_id: "length bs = 32 \<Longrightarrow> copy32 bs = bs"
  by (simp add: copy32_def)

text \<open>\<^verbatim>\<open>common.BytesToHash\<close> and \<^verbatim>\<open>common.BytesToAddress\<close>: cropped from the left, padded on the left.\<close>

definition set_bytes :: "nat \<Rightarrow> bytes \<Rightarrow> bytes" where
  "set_bytes n b = (let b = drop (length b - n) b in replicate (n - length b) 0 @ b)"

definition BytesToHash :: "bytes \<Rightarrow> bytes" where
  "BytesToHash b = set_bytes 32 b"

definition BytesToAddress :: "bytes \<Rightarrow> bytes" where
  "BytesToAddress b = set_bytes 20 b"

lemma length_set_bytes [simp]: "length (set_bytes n b) = n"
  by (simp add: set_bytes_def Let_def)

lemma set_bytes_id: "length b = n \<Longrightarrow> set_bytes n b = b"
  by (simp add: set_bytes_def)

lemma BytesToHash_id: "length b = 32 \<Longrightarrow> BytesToHash b = b"
  by (simp add: BytesToHash_def set_bytes_id)

lemma BytesToAddress_id: "length b = 20 \<Longrightarrow> BytesToAddress b = b"
  by (simp add: BytesToAddress_def set_bytes_id)

definition zero_hash :: bytes where
  "zero_hash = replicate 32 0"

lemma of_nat_mod_256 [simp]: "(of_nat (n mod 256) :: u8) = of_nat n"
  by (simp add: word_unat_eq_iff unsigned_of_nat take_bit_eq_mod)

lemma nat_bytes_step: "n \<noteq> 0 \<Longrightarrow> nat_bytes n = nat_bytes (n div 256) @ [of_nat n]"
  by (subst nat_bytes.simps) simp

lemma nat_bytes_0 [simp]: "nat_bytes 0 = []"
  by (simp add: nat_bytes.simps)

lemma nat_bytes_fits: "n < 256 ^ k \<Longrightarrow> length (nat_bytes n) \<le> k"
proof (induction k arbitrary: n)
  case (Suc k)
  then have "n div 256 < 256 ^ k"
    by (simp add: less_mult_imp_div_less mult.commute)
  then show ?case
    using Suc.IH by (cases "n = 0") (simp_all add: nat_bytes_step)
qed simp

section \<open>Big-endian words\<close>

definition PutUint64 :: "u64 \<Rightarrow> bytes" where
  "PutUint64 x = [ucast (drop_bit 56 x), ucast (drop_bit 48 x), ucast (drop_bit 40 x), ucast (drop_bit 32 x),
     ucast (drop_bit 24 x), ucast (drop_bit 16 x), ucast (drop_bit 8 x), ucast x]"

fun BE_Uint64 :: "bytes \<Rightarrow> u64 res" where
  "BE_Uint64 (a # b # c # d # e # f # g # h # _) =
     Inr (push_bit 56 (ucast a) OR push_bit 48 (ucast b) OR push_bit 40 (ucast c) OR push_bit 32 (ucast d) OR
          push_bit 24 (ucast e) OR push_bit 16 (ucast f) OR push_bit 8 (ucast g) OR ucast h)"
| "BE_Uint64 _ = Inl (Panic ''index out of range'')"

lemma length_PutUint64 [simp]: "length (PutUint64 x) = 8"
  by (simp add: PutUint64_def)

lemma BE_Uint64_PutUint64 [simp]: "BE_Uint64 (PutUint64 x @ ys) = Inr x"
proof -
  have "push_bit 56 (ucast (ucast (drop_bit 56 x) :: u8)) OR push_bit 48 (ucast (ucast (drop_bit 48 x) :: u8)) OR
      push_bit 40 (ucast (ucast (drop_bit 40 x) :: u8)) OR push_bit 32 (ucast (ucast (drop_bit 32 x) :: u8)) OR
      push_bit 24 (ucast (ucast (drop_bit 24 x) :: u8)) OR push_bit 16 (ucast (ucast (drop_bit 16 x) :: u8)) OR
      push_bit 8 (ucast (ucast (drop_bit 8 x) :: u8)) OR ucast (ucast x :: u8) = x" (is "?l = x")
  proof (rule bit_word_eqI)
    fix n assume "n < LENGTH(64)"
    then consider "n < 8" | "8 \<le> n" "n < 16" | "16 \<le> n" "n < 24" | "24 \<le> n" "n < 32" | "32 \<le> n" "n < 40"
      | "40 \<le> n" "n < 48" | "48 \<le> n" "n < 56" | "56 \<le> n" "n < 64" by force
    then show "bit ?l n = bit x n" by cases (simp_all add: bit_simps less_diff_conv2)
  qed
  then show ?thesis by (simp only: PutUint64_def append.simps BE_Uint64.simps)
qed

lemma BE_Uint64_PutUint64' [simp]: "BE_Uint64 (PutUint64 x) = Inr x"
  using BE_Uint64_PutUint64 [of x "[]"] by simp

lemma PutUint64_inject [simp]: "PutUint64 x = PutUint64 y \<longleftrightarrow> x = y"
  by (metis BE_Uint64_PutUint64' sum.inject(2))

end
