(* ===== verification/L1_Info_Tree.thy ===== *)
theory L1_Info_Tree
  imports Go_Bytes
begin

unbundle bit_operations_syntax

text \<open>
  The L1 info tree, \<^verbatim>\<open>src/zk/l1infotree/tree.go\<close> and \<^verbatim>\<open>hash.go\<close>: an append-only Merkle tree of a
  fixed height over 32-byte leaves, padded with zero leaves. The keccak function is an argument
  \<open>K\<close>. The reference definition is \<open>mroot\<close>, the root of the complete padded tree; \<^verbatim>\<open>BuildL1InfoRoot\<close>,
  \<^verbatim>\<open>ComputeMerkleProof\<close> and the incremental \<^verbatim>\<open>AddLeaf\<close> all compute it.
\<close>

type_synonym keccak = "bytes \<Rightarrow> bytes"

section \<open>Hashing\<close>

definition l1_Hash :: "keccak \<Rightarrow> bytes list \<Rightarrow> bytes" where
  "l1_Hash K data = copy32 (K (concat data))"

fun zero_hashes_loop :: "keccak \<Rightarrow> nat \<Rightarrow> bytes \<Rightarrow> bytes list" where
  "zero_hashes_loop K 0 prev = [prev]"
| "zero_hashes_loop K (Suc n) prev = prev # zero_hashes_loop K n (l1_Hash K [prev, prev])"

definition generateZeroHashes :: "keccak \<Rightarrow> u8 \<Rightarrow> bytes list" where
  "generateZeroHashes K height = zero_hashes_loop K (unat height) zero_hash"

definition HashLeafData :: "keccak \<Rightarrow> bytes \<Rightarrow> bytes \<Rightarrow> u64 \<Rightarrow> bytes" where
  "HashLeafData K ger prevBlockHash minTimestamp = copy32 (K (ger @ prevBlockHash @ PutUint64 minTimestamp))"

section \<open>The tree\<close>

record l1_info_tree =
  lt_height :: u8
  lt_zeroHashes :: "bytes list"
  lt_count :: u32
  lt_siblings :: "bytes list"
  lt_currentRoot :: bytes
  lt_allLeaves :: "bytes set"

text \<open>The nodes are triples of the hash and its two children, as slices of byte strings.\<close>

fun buildIntermediate :: "keccak \<Rightarrow> bytes list \<Rightarrow> (bytes list list \<times> bytes list) res" where
  "buildIntermediate K [] = Inr ([], [])"
| "buildIntermediate K [x] = Inl (Panic ''index out of range'')"
| "buildIntermediate K (x # y # zs) =
     (let hash = l1_Hash K [x, y] in
      res_bind (buildIntermediate K zs) (\<lambda>(nodes, hashes).
        Inr ([hash, x, y] # nodes, hash # hashes)))"

text \<open>\<^verbatim>\<open>if len(leaves)%2 == 1\<close>: pad with the zero hash of the level.\<close>

definition pad_level :: "bytes list \<Rightarrow> nat \<Rightarrow> bytes list \<Rightarrow> bytes list res" where
  "pad_level zeros h leaves =
     (if odd (length leaves) then res_bind (nth_res zeros h) (\<lambda>z. Inr (leaves @ [z])) else Inr leaves)"

text \<open>The loop over the levels; the first argument counts the levels left.\<close>

fun build_loop ::
  "keccak \<Rightarrow> bytes list \<Rightarrow> nat \<Rightarrow> nat \<Rightarrow> bytes list \<Rightarrow> bytes list list \<Rightarrow> bytes list list res" where
  "build_loop K zeros 0 h leaves ns = Inr ns"
| "build_loop K zeros (Suc n) h leaves ns =
     res_bind (pad_level zeros h leaves) (\<lambda>leaves.
     res_bind (buildIntermediate K leaves) (\<lambda>(ns, leaves).
       build_loop K zeros n (Suc h) leaves ns))"

definition root_of_nodes :: "bytes list list \<Rightarrow> bytes res" where
  "root_of_nodes ns =
     (if length ns \<noteq> 1 then Inl (Error ''error: more than one root detected'')
      else res_bind (nth_res (ns ! 0) 0) (\<lambda>h. Inr (BytesToHash h)))"

definition nonempty_leaves :: "bytes list \<Rightarrow> bytes list \<Rightarrow> bytes list res" where
  "nonempty_leaves zeros leaves =
     (if leaves = [] then res_bind (nth_res zeros 0) (\<lambda>z. Inr [z]) else Inr leaves)"

definition BuildL1InfoRoot :: "keccak \<Rightarrow> l1_info_tree \<Rightarrow> bytes list \<Rightarrow> bytes res" where
  "BuildL1InfoRoot K mt leaves =
     res_bind (nonempty_leaves (lt_zeroHashes mt) leaves) (\<lambda>leaves.
     res_bind (build_loop K (lt_zeroHashes mt) (unat (lt_height mt)) 0 leaves []) root_of_nodes)"

definition proof_sibling :: "bytes list \<Rightarrow> nat \<Rightarrow> u32 \<Rightarrow> bytes list \<Rightarrow> bytes res" where
  "proof_sibling zeros h index leaves =
     (if index \<ge> of_nat (length leaves) then nth_res zeros h
      else if index mod 2 = 1 then nth_res leaves (unat (index - 1))
      else nth_res leaves (unat (index + 1)))"

text \<open>\<^verbatim>\<open>uint32(float64(index) / 2)\<close>: the division is exact or ends in a half, which is cut off.\<close>

fun proof_loop ::
  "keccak \<Rightarrow> bytes list \<Rightarrow> nat \<Rightarrow> nat \<Rightarrow> u32 \<Rightarrow> bytes list \<Rightarrow> bytes list \<Rightarrow> bytes list list \<Rightarrow>
   (bytes list \<times> bytes list list) res" where
  "proof_loop K zeros 0 h index leaves siblings ns = Inr (siblings, ns)"
| "proof_loop K zeros (Suc n) h index leaves siblings ns =
     res_bind (pad_level zeros h leaves) (\<lambda>leaves.
     res_bind (proof_sibling zeros h index leaves) (\<lambda>sib.
     res_bind (buildIntermediate K leaves) (\<lambda>(ns, hashes).
       proof_loop K zeros n (Suc h) (index div 2) hashes (siblings @ [sib]) ns)))"

definition ComputeMerkleProof ::
  "keccak \<Rightarrow> l1_info_tree \<Rightarrow> u32 \<Rightarrow> bytes list \<Rightarrow> (bytes list \<times> bytes) res" where
  "ComputeMerkleProof K mt gerIndex leaves =
     res_bind (nonempty_leaves (lt_zeroHashes mt) leaves) (\<lambda>leaves.
     res_bind (proof_loop K (lt_zeroHashes mt) (unat (lt_height mt)) 0 gerIndex leaves [] []) (\<lambda>(siblings, ns).
     res_bind (root_of_nodes ns) (\<lambda>root. Inr (siblings, root))))"

fun add_leaf_loop ::
  "keccak \<Rightarrow> bytes list \<Rightarrow> u32 \<Rightarrow> nat \<Rightarrow> nat \<Rightarrow> bytes \<Rightarrow> bool \<Rightarrow> bytes list \<Rightarrow> (bytes \<times> bytes list) res" where
  "add_leaf_loop K zeros index 0 h cur isFilledSubTree siblings = Inr (cur, siblings)"
| "add_leaf_loop K zeros index (Suc n) h cur isFilledSubTree siblings =
     (if index AND push_bit h 1 > 0 then
        res_bind (nth_res siblings h) (\<lambda>sib.
          add_leaf_loop K zeros index n (Suc h) (l1_Hash K [sib, cur]) isFilledSubTree siblings)
      else if isFilledSubTree \<and> h \<ge> length siblings then Inl (Panic ''index out of range'')
      else
        res_bind (nth_res zeros h) (\<lambda>z.
          add_leaf_loop K zeros index n (Suc h) (l1_Hash K [cur, z]) False
            (if isFilledSubTree then siblings[h := cur] else siblings)))"

definition AddLeaf :: "keccak \<Rightarrow> l1_info_tree \<Rightarrow> u32 \<Rightarrow> bytes \<Rightarrow> (bytes \<times> l1_info_tree) res" where
  "AddLeaf K mt index leaf =
     (if index \<noteq> lt_count mt then Inl (Error ''mismatched leaf count'')
      else
        res_bind (add_leaf_loop K (lt_zeroHashes mt) index (unat (lt_height mt)) 0 leaf True (lt_siblings mt))
          (\<lambda>(cur, siblings).
            Inr (cur, mt\<lparr>lt_siblings := siblings, lt_allLeaves := insert leaf (lt_allLeaves mt),
                         lt_currentRoot := cur, lt_count := lt_count mt + 1\<rparr>)))"

definition LeafExists :: "l1_info_tree \<Rightarrow> bytes \<Rightarrow> bool" where
  "LeafExists mt leaf \<longleftrightarrow> leaf \<in> lt_allLeaves mt"

definition initSiblings :: "keccak \<Rightarrow> l1_info_tree \<Rightarrow> bytes list \<Rightarrow> (bytes list \<times> bytes) res" where
  "initSiblings K mt initialLeaves =
     (if lt_count mt \<noteq> of_nat (length initialLeaves)
      then Inl (Error ''error: mt.count and initialLeaves length mismatch'')
      else if lt_count mt = 0 then
        if unat (lt_height mt) > length (lt_zeroHashes mt) then Inl (Panic ''index out of range'')
        else res_bind (BuildL1InfoRoot K mt initialLeaves) (\<lambda>root.
          Inr (take (unat (lt_height mt)) (lt_zeroHashes mt), root))
      else ComputeMerkleProof K mt (lt_count mt) initialLeaves)"

definition new_tree :: "keccak \<Rightarrow> u8 \<Rightarrow> bytes list \<Rightarrow> l1_info_tree res" where
  "new_tree K height initialLeaves =
     (let mt = \<lparr>lt_height = height, lt_zeroHashes = generateZeroHashes K height,
                lt_count = of_nat (length initialLeaves), lt_siblings = [],
                lt_currentRoot = zero_hash, lt_allLeaves = {}\<rparr> in
      res_bind (initSiblings K mt initialLeaves) (\<lambda>(siblings, root).
        Inr (mt\<lparr>lt_siblings := siblings, lt_currentRoot := root, lt_allLeaves := set initialLeaves\<rparr>)))"

definition NewL1InfoTree :: "keccak \<Rightarrow> u8 \<Rightarrow> bytes list \<Rightarrow> l1_info_tree res" where
  "NewL1InfoTree K height initialLeaves = new_tree K height initialLeaves"

definition ResetL1InfoTree :: "keccak \<Rightarrow> l1_info_tree \<Rightarrow> bytes list \<Rightarrow> l1_info_tree res" where
  "ResetL1InfoTree K mt initialLeaves = new_tree K 32 initialLeaves"

definition GetCurrentRootCountAndSiblings :: "l1_info_tree \<Rightarrow> bytes \<times> u32 \<times> bytes list" where
  "GetCurrentRootCountAndSiblings mt = (lt_currentRoot mt, lt_count mt, lt_siblings mt)"

section \<open>The reference root\<close>

definition padded :: "bytes list \<Rightarrow> nat \<Rightarrow> bytes" where
  "padded leaves i = (if i < length leaves then leaves ! i else zero_hash)"

text \<open>The root of the subtree of height \<open>h\<close> at position \<open>j\<close> of its level.\<close>

fun mroot :: "keccak \<Rightarrow> (nat \<Rightarrow> bytes) \<Rightarrow> nat \<Rightarrow> nat \<Rightarrow> bytes" where
  "mroot K f 0 j = f j"
| "mroot K f (Suc h) j = l1_Hash K [mroot K f h (2 * j), mroot K f h (2 * j + 1)]"

definition merkle_root :: "keccak \<Rightarrow> nat \<Rightarrow> bytes list \<Rightarrow> bytes" where
  "merkle_root K height leaves = mroot K (padded leaves) height 0"

fun zero_at :: "keccak \<Rightarrow> nat \<Rightarrow> bytes" where
  "zero_at K 0 = zero_hash"
| "zero_at K (Suc h) = l1_Hash K [zero_at K h, zero_at K h]"

lemma length_l1_Hash [simp]: "length (l1_Hash K xs) = 32"
  by (simp add: l1_Hash_def)

lemma length_mroot_Suc [simp]: "length (mroot K f (Suc h) j) = 32"
  by simp

lemma mroot_cong:
  "(\<And>i. j * 2 ^ h \<le> i \<Longrightarrow> i < (j + 1) * 2 ^ h \<Longrightarrow> f i = g i) \<Longrightarrow> mroot K f h j = mroot K g h j"
proof (induction h arbitrary: j)
  case (Suc h)
  have "mroot K f h (2 * j) = mroot K g h (2 * j)"
    by (rule Suc.IH) (rule Suc.prems; simp add: algebra_simps)
  moreover have "mroot K f h (2 * j + 1) = mroot K g h (2 * j + 1)"
    by (rule Suc.IH) (rule Suc.prems; simp add: algebra_simps)
  ultimately show ?case by simp
qed simp

lemma mroot_zero:
  assumes "\<And>i. j * 2 ^ h \<le> i \<Longrightarrow> f i = zero_hash"
  shows "mroot K f h j = zero_at K h"
proof -
  have "mroot K (\<lambda>_. zero_hash) h i = zero_at K h" for i by (induction h arbitrary: i) simp_all
  moreover have "mroot K f h j = mroot K (\<lambda>_. zero_hash) h j" by (rule mroot_cong) (rule assms)
  ultimately show ?thesis by simp
qed

lemma padded_beyond: "length leaves \<le> i \<Longrightarrow> padded leaves i = zero_hash"
  by (simp add: padded_def)

lemma zero_hashes_loop_nth:
  "i \<le> n \<Longrightarrow> zero_hashes_loop K n (zero_at K h) ! i = zero_at K (h + i)"
proof (induction n arbitrary: h i)
  case (Suc n)
  then show ?case using Suc.IH [of "i - 1" "Suc h"] by (cases i) simp_all
qed simp

lemma length_zero_hashes_loop [simp]: "length (zero_hashes_loop K n z) = Suc n"
  by (induction n arbitrary: z) simp_all

text \<open>What \<^verbatim>\<open>generateZeroHashes\<close> promises of its result.\<close>

definition zeros_ok :: "keccak \<Rightarrow> nat \<Rightarrow> bytes list \<Rightarrow> bool" where
  "zeros_ok K n zeros \<longleftrightarrow> n < length zeros \<and> (\<forall>i \<le> n. zeros ! i = zero_at K i)"

lemma zeros_ok_generate: "zeros_ok K (unat height) (generateZeroHashes K height)"
  using zero_hashes_loop_nth [of _ "unat height" K 0] by (simp add: zeros_ok_def generateZeroHashes_def)

section \<open>Levels\<close>

text \<open>A list that holds the roots of level \<open>h\<close>; the positions beyond it are zero subtrees.\<close>

definition level_ok :: "keccak \<Rightarrow> (nat \<Rightarrow> bytes) \<Rightarrow> nat \<Rightarrow> bytes list \<Rightarrow> bool" where
  "level_ok K f h xs \<longleftrightarrow> xs \<noteq> [] \<and> (\<forall>i < length xs. xs ! i = mroot K f h i) \<and>
     (\<forall>i \<ge> length xs. mroot K f h i = zero_at K h)"

lemma buildIntermediate_even:
  "even (length xs) \<Longrightarrow>
   \<exists>ns ys. buildIntermediate K xs = Inr (ns, ys) \<and> length ys = length xs div 2 \<and> length ns = length ys \<and>
     (\<forall>i < length ys. ys ! i = l1_Hash K [xs ! (2 * i), xs ! (2 * i + 1)] \<and>
        ns ! i = [ys ! i, xs ! (2 * i), xs ! (2 * i + 1)])"
proof (induction K xs rule: buildIntermediate.induct)
  case (3 K x y zs)
  then obtain ns ys where IH: "buildIntermediate K zs = Inr (ns, ys)" "length ys = length zs div 2"
    "length ns = length ys"
    "\<forall>i < length ys. ys ! i = l1_Hash K [zs ! (2 * i), zs ! (2 * i + 1)] \<and>
        ns ! i = [ys ! i, zs ! (2 * i), zs ! (2 * i + 1)]" by auto
  then show ?case
    by (intro exI [of _ "[l1_Hash K [x, y], x, y] # ns"] exI [of _ "l1_Hash K [x, y] # ys"])
      (auto simp: Let_def less_Suc_eq_0_disj)
qed auto

lemma pad_level_ok:
  assumes "level_ok K f h xs" "zeros_ok K n zeros" "h \<le> n"
  shows "\<exists>ys. pad_level zeros h xs = Inr ys \<and> level_ok K f h ys \<and> even (length ys) \<and>
    length ys = 2 * ((length xs + 1) div 2)"
proof (cases "odd (length xs)")
  case True
  then have "level_ok K f h (xs @ [zeros ! h])"
    using assms by (auto simp: level_ok_def zeros_ok_def nth_append less_Suc_eq)
  with True assms(2,3) show ?thesis by (auto simp: pad_level_def zeros_ok_def)
qed (use assms in \<open>auto simp: pad_level_def\<close>)

lemma level_step:
  assumes "level_ok K f h xs" "even (length xs)"
  shows "\<exists>ns ys. buildIntermediate K xs = Inr (ns, ys) \<and> level_ok K f (Suc h) ys \<and>
    length ys = length xs div 2 \<and> length ns = length ys \<and> (\<forall>i < length ns. ns ! i \<noteq> [] \<and> ns ! i ! 0 = ys ! i)"
proof -
  obtain ns ys where b: "buildIntermediate K xs = Inr (ns, ys)" "length ys = length xs div 2" "length ns = length ys"
    "\<And>i. i < length ys \<Longrightarrow> ys ! i = l1_Hash K [xs ! (2 * i), xs ! (2 * i + 1)] \<and>
        ns ! i = [ys ! i, xs ! (2 * i), xs ! (2 * i + 1)]"
    using buildIntermediate_even [OF assms(2)] by blast
  have len: "length xs = 2 * length ys" using b(2) assms(2) by simp
  have "level_ok K f (Suc h) ys"
    using assms(1) b(4) len by (auto simp: level_ok_def)
  then show ?thesis using b by auto
qed

fun halves :: "nat \<Rightarrow> nat \<Rightarrow> nat" where
  "halves 0 m = m"
| "halves (Suc n) m = halves n ((m + 1) div 2)"

lemma halves_pos: "0 < m \<Longrightarrow> 0 < halves n m"
  by (induction n arbitrary: m) auto

lemma halves_1_iff: "0 < m \<Longrightarrow> halves n m = 1 \<longleftrightarrow> m \<le> 2 ^ n"
proof (induction n arbitrary: m)
  case (Suc n)
  have "(m + 1) div 2 \<le> 2 ^ n \<longleftrightarrow> m \<le> 2 * 2 ^ n" by linarith
  then show ?case using Suc by simp
qed auto

lemma build_loop_correct:
  "level_ok K f h xs \<Longrightarrow> zeros_ok K (h + n) zeros \<Longrightarrow>
   \<exists>ns. build_loop K zeros (Suc n) h xs ns0 = Inr ns \<and> length ns = halves (Suc n) (length xs) \<and>
     ns ! 0 \<noteq> [] \<and> ns ! 0 ! 0 = mroot K f (Suc (h + n)) 0"
proof (induction n arbitrary: h xs ns0)
  case 0
  then obtain ys ns zs where "pad_level zeros h xs = Inr ys" "level_ok K f h ys" "even (length ys)"
    "length ys = 2 * ((length xs + 1) div 2)"
    using pad_level_ok [OF 0] by auto
  with level_step [of K f h ys] show ?case
    by (force simp: level_ok_def)
next
  case (Suc n)
  then obtain ys where ys: "pad_level zeros h xs = Inr ys" "level_ok K f h ys" "even (length ys)"
    "length ys = 2 * ((length xs + 1) div 2)"
    using pad_level_ok [OF Suc.prems] by auto
  obtain ns zs where zs: "buildIntermediate K ys = Inr (ns, zs)" "level_ok K f (Suc h) zs" "length zs = length ys div 2"
    using level_step [OF ys(2,3)] by blast
  from Suc.IH [OF zs(2), of ns] Suc.prems(2) ys zs show ?case by (simp del: mroot.simps)
qed

lemma level_ok_leaves: "leaves \<noteq> [] \<Longrightarrow> level_ok K (padded leaves) 0 leaves"
  by (auto simp: level_ok_def padded_def)

lemma nonempty_leaves_ok:
  assumes "zeros_ok K n zeros"
  shows "\<exists>xs. nonempty_leaves zeros leaves = Inr xs \<and> level_ok K (padded leaves) 0 xs \<and> length xs = max 1 (length leaves)"
proof (cases "leaves = []")
  case True
  have "0 < length zeros" "zeros ! 0 = zero_hash" using assms by (auto simp: zeros_ok_def)
  with True show ?thesis by (simp add: nonempty_leaves_def level_ok_def padded_def)
next
  case False
  then show ?thesis
    by (auto simp: nonempty_leaves_def level_ok_leaves max_def Suc_le_eq)
qed

lemma root_of_nodes_ok:
  assumes "length ns = 1" "ns ! 0 \<noteq> []" "ns ! 0 ! 0 = mroot K f (Suc n) 0"
  shows "root_of_nodes ns = Inr (mroot K f (Suc n) 0)"
  using assms by (simp add: root_of_nodes_def nth_res_def BytesToHash_id del: mroot.simps)

definition tree_shape :: "keccak \<Rightarrow> l1_info_tree \<Rightarrow> bool" where
  "tree_shape K mt \<longleftrightarrow> lt_height mt \<noteq> 0 \<and> zeros_ok K (unat (lt_height mt)) (lt_zeroHashes mt)"

lemma tree_shape_height: "tree_shape K mt \<Longrightarrow> \<exists>n. unat (lt_height mt) = Suc n"
  by (metis gr0_conv_Suc neq0_conv tree_shape_def unat_eq_0)

lemma zeros_ok_mono: "zeros_ok K n zeros \<Longrightarrow> m \<le> n \<Longrightarrow> zeros_ok K m zeros"
  by (simp add: zeros_ok_def)

lemma BuildL1InfoRoot_cases:
  assumes "tree_shape K mt"
  shows "BuildL1InfoRoot K mt leaves =
    (if length leaves \<le> 2 ^ unat (lt_height mt) then Inr (merkle_root K (unat (lt_height mt)) leaves)
     else Inl (Error ''error: more than one root detected''))"
proof -
  obtain n where n: "unat (lt_height mt) = Suc n" using tree_shape_height [OF assms] by blast
  have zs: "zeros_ok K (Suc n) (lt_zeroHashes mt)" using assms n by (simp add: tree_shape_def)
  obtain xs where xs: "nonempty_leaves (lt_zeroHashes mt) leaves = Inr xs" "level_ok K (padded leaves) 0 xs"
    "length xs = max 1 (length leaves)" using nonempty_leaves_ok [OF zs] by blast
  obtain ns where ns: "build_loop K (lt_zeroHashes mt) (Suc n) 0 xs [] = Inr ns" "length ns = halves (Suc n) (length xs)"
    "ns ! 0 \<noteq> []" "ns ! 0 ! 0 = mroot K (padded leaves) (Suc n) 0"
    using build_loop_correct [OF xs(2), of n "lt_zeroHashes mt" "[]"] zeros_ok_mono [OF zs, of n] by auto
  have one: "length ns = 1 \<longleftrightarrow> length leaves \<le> 2 ^ Suc n"
    using halves_1_iff [of "length xs" "Suc n"] unfolding ns(2) xs(3)
    by (simp del: halves.simps power_Suc)
  show ?thesis
    using xs(1) ns(1,3,4) one root_of_nodes_ok [of ns K "padded leaves" n]
    by (auto simp: BuildL1InfoRoot_def n merkle_root_def root_of_nodes_def simp del: build_loop.simps mroot.simps)
qed

section \<open>Merkle proofs\<close>

definition flip_last :: "nat \<Rightarrow> nat" where
  "flip_last j = (if odd j then j - 1 else j + 1)"

lemma mod_2_word: "(index :: u32) mod 2 = 1 \<longleftrightarrow> odd (unat index)"
  by (simp add: word_unat_eq_iff unat_mod odd_iff_mod_2_eq_one)

lemma proof_sibling_ok:
  assumes "level_ok K f h xs" "even (length xs)" "length xs < 2 ^ 32" "zeros_ok K n zeros" "h \<le> n"
  shows "proof_sibling zeros h index xs = Inr (mroot K f h (flip_last (unat index)))"
proof -
  have ge: "of_nat (length xs) \<le> index \<longleftrightarrow> length xs \<le> unat index"
    using assms(3) by (simp add: word_le_nat_alt unat_of_nat)
  show ?thesis
  proof (cases "length xs \<le> unat index")
    case True
    then have "length xs \<le> flip_last (unat index)"
      using assms(2) by (auto simp: flip_last_def elim!: oddE evenE)
    with True show ?thesis
      using assms(1,4,5) ge by (auto simp: proof_sibling_def level_ok_def zeros_ok_def)
  next
    case False
    then have less: "flip_last (unat index) < length xs"
      using assms(2) by (auto simp: flip_last_def elim!: oddE evenE)
    have "unat (index - 1) = unat index - 1" if "odd (unat index)"
      using that by (intro unat_minus_one) auto
    moreover have "unat (index + 1) = unat index + 1"
      using False assms(3) by (simp add: unat_plus_if')
    ultimately show ?thesis
      using False less assms(1) ge by (auto simp: proof_sibling_def mod_2_word flip_last_def level_ok_def)
  qed
qed

lemma proof_loop_correct:
  "level_ok K f h xs \<Longrightarrow> length xs < 2 ^ 32 - 1 \<Longrightarrow> zeros_ok K (h + n) zeros \<Longrightarrow>
   \<exists>ns. proof_loop K zeros (Suc n) h index xs sibs ns0 =
       Inr (sibs @ map (\<lambda>i. mroot K f (h + i) (flip_last (unat index div 2 ^ i))) [0..<Suc n], ns) \<and>
     length ns = halves (Suc n) (length xs) \<and> ns ! 0 \<noteq> [] \<and> ns ! 0 ! 0 = mroot K f (Suc (h + n)) 0"
proof (induction n arbitrary: h xs index sibs ns0)
  case 0
  then obtain ys where ys: "pad_level zeros h xs = Inr ys" "level_ok K f h ys" "even (length ys)"
    "length ys = 2 * ((length xs + 1) div 2)"
    using pad_level_ok [OF 0(1,3)] by auto
  have sib: "proof_sibling zeros h index ys = Inr (mroot K f h (flip_last (unat index)))"
    using 0 ys by (intro proof_sibling_ok [where n = "h + 0"]) auto
  obtain ns zs where zs: "buildIntermediate K ys = Inr (ns, zs)" "level_ok K f (Suc h) zs"
    "length zs = length ys div 2" "length ns = length zs" "\<forall>i < length ns. ns ! i \<noteq> [] \<and> ns ! i ! 0 = zs ! i"
    using level_step [OF ys(2,3)] by blast
  then have "0 < length zs" "zs ! 0 = mroot K f (Suc h) 0"
    unfolding level_ok_def by (blast intro: length_greater_0_conv [THEN iffD2])+
  with zs ys sib show ?case by (simp del: mroot.simps)
next
  case (Suc n)
  then obtain ys where ys: "pad_level zeros h xs = Inr ys" "level_ok K f h ys" "even (length ys)"
    "length ys = 2 * ((length xs + 1) div 2)"
    using pad_level_ok [OF Suc.prems(1,3)] by auto
  have sib: "proof_sibling zeros h index ys = Inr (mroot K f h (flip_last (unat index)))"
    using Suc.prems ys by (intro proof_sibling_ok [where n = "h + Suc n"]) auto
  obtain ns zs where zs: "buildIntermediate K ys = Inr (ns, zs)" "level_ok K f (Suc h) zs" "length zs = length ys div 2"
    using level_step [OF ys(2,3)] by blast
  have "map (\<lambda>i. mroot K f (h + i) (flip_last (unat index div 2 ^ i))) [0..<Suc (Suc n)] =
      mroot K f h (flip_last (unat index)) #
      map (\<lambda>i. mroot K f (Suc h + i) (flip_last (unat (index div 2) div 2 ^ i))) [0..<Suc n]"
    by (subst map_upt_Suc) (simp add: unat_div div_mult2_eq del: upt_Suc mroot.simps)
  with Suc.IH [OF zs(2), where index = "index div 2" and sibs = "sibs @ [mroot K f h (flip_last (unat index))]" and ?ns0.0 = ns]
    Suc.prems ys zs sib show ?case
    by (simp del: mroot.simps upt_Suc)
qed

text \<open>Checking a proof: the leaf is hashed with the siblings along the bits of its index.\<close>

fun fold_proof :: "keccak \<Rightarrow> nat \<Rightarrow> bytes \<Rightarrow> bytes list \<Rightarrow> bytes" where
  "fold_proof K index cur [] = cur"
| "fold_proof K index cur (s # ss) =
     fold_proof K (index div 2) (if odd index then l1_Hash K [s, cur] else l1_Hash K [cur, s]) ss"

lemma mroot_flip:
  "mroot K f (Suc h) (j div 2) =
     (if odd j then l1_Hash K [mroot K f h (flip_last j), mroot K f h j]
      else l1_Hash K [mroot K f h j, mroot K f h (flip_last j)])"
  by (auto simp: flip_last_def elim!: oddE evenE)

lemma fold_proof_correct:
  "fold_proof K j (mroot K f h j) (map (\<lambda>i. mroot K f (h + i) (flip_last (j div 2 ^ i))) [0..<n]) =
   mroot K f (h + n) (j div 2 ^ n)"
proof (induction n arbitrary: h j)
  case (Suc n)
  have split: "map (\<lambda>i. mroot K f (h + i) (flip_last (j div 2 ^ i))) [0..<Suc n] =
      mroot K f h (flip_last j) # map (\<lambda>i. mroot K f (Suc h + i) (flip_last (j div 2 div 2 ^ i))) [0..<n]"
    by (subst map_upt_Suc) (simp add: div_mult2_eq del: upt_Suc mroot.simps)
  show ?case
    unfolding split using Suc.IH [of "j div 2" "Suc h"] mroot_flip [of K f h j]
    by (auto simp: div_mult2_eq simp del: mroot.simps)
qed simp

lemma ComputeMerkleProof_correct:
  assumes "tree_shape K mt" "length leaves \<le> 2 ^ unat (lt_height mt)" "length leaves < 2 ^ 32 - 1"
  shows "ComputeMerkleProof K mt index leaves =
    Inr (map (\<lambda>h. mroot K (padded leaves) h (flip_last (unat index div 2 ^ h))) [0..<unat (lt_height mt)],
         merkle_root K (unat (lt_height mt)) leaves)"
proof -
  obtain n where n: "unat (lt_height mt) = Suc n" using tree_shape_height [OF assms(1)] by blast
  have zs: "zeros_ok K (Suc n) (lt_zeroHashes mt)" using assms(1) n by (simp add: tree_shape_def)
  obtain xs where xs: "nonempty_leaves (lt_zeroHashes mt) leaves = Inr xs" "level_ok K (padded leaves) 0 xs"
    "length xs = max 1 (length leaves)" using nonempty_leaves_ok [OF zs] by blast
  obtain ns where ns: "proof_loop K (lt_zeroHashes mt) (Suc n) 0 index xs [] [] =
      Inr (map (\<lambda>i. mroot K (padded leaves) i (flip_last (unat index div 2 ^ i))) [0..<Suc n], ns)"
    "length ns = halves (Suc n) (length xs)" "ns ! 0 \<noteq> []" "ns ! 0 ! 0 = mroot K (padded leaves) (Suc n) 0"
    using proof_loop_correct [OF xs(2), of n "lt_zeroHashes mt" index "[]" "[]"] zeros_ok_mono [OF zs, of n] xs(3) assms(3)
    by auto
  have "length ns = 1"
    using halves_1_iff [of "length xs" "Suc n"] assms(2) n unfolding ns(2) xs(3)
    by (simp del: halves.simps power_Suc)
  from root_of_nodes_ok [OF this ns(3,4)] show ?thesis
    using xs(1) ns(1)
    by (simp add: ComputeMerkleProof_def n merkle_root_def del: proof_loop.simps mroot.simps upt_Suc)
qed

section \<open>Adding leaves\<close>

text \<open>
  The siblings hold, for every bit of the count that is set, the root of the full subtree to the left of
  the next leaf.
\<close>

definition siblings_inv :: "keccak \<Rightarrow> (nat \<Rightarrow> bytes) \<Rightarrow> nat \<Rightarrow> nat \<Rightarrow> bytes list \<Rightarrow> bool" where
  "siblings_inv K f n height sibs \<longleftrightarrow> length sibs = height \<and>
     (\<forall>h < height. odd (n div 2 ^ h) \<longrightarrow> sibs ! h = mroot K f h (n div 2 ^ h - 1))"

lemma padded_append_less: "i < length leaves \<Longrightarrow> padded (leaves @ xs) i = padded leaves i"
  by (simp add: padded_def nth_append)

lemma mroot_left_same:
  assumes "odd (length leaves div 2 ^ h)"
  shows "mroot K (padded leaves) h (length leaves div 2 ^ h - 1) =
    mroot K (padded (leaves @ [leaf])) h (length leaves div 2 ^ h - 1)"
proof (rule mroot_cong)
  fix i assume "i < (length leaves div 2 ^ h - 1 + 1) * 2 ^ h"
  then have "i < length leaves div 2 ^ h * 2 ^ h" using assms by (cases "length leaves div 2 ^ h") auto
  also have "\<dots> \<le> length leaves" by simp
  finally show "padded leaves i = padded (leaves @ [leaf]) i" by (simp add: padded_append_less)
qed

lemma mroot_right_zero:
  "mroot K (padded (leaves @ [leaf])) h (length leaves div 2 ^ h + 1) = zero_at K h"
proof (rule mroot_zero)
  fix i assume "(length leaves div 2 ^ h + 1) * 2 ^ h \<le> i"
  moreover have "length leaves < (length leaves div 2 ^ h + 1) * 2 ^ h"
    using dividend_less_div_times [of "2 ^ h" "length leaves"] by (simp add: algebra_simps)
  ultimately show "padded (leaves @ [leaf]) i = zero_hash" by (simp add: padded_beyond)
qed

lemma index_bit:
  assumes "n < 2 ^ 32"
  shows "0 < (of_nat n :: u32) AND push_bit h 1 \<longleftrightarrow> odd (n div 2 ^ h)"
proof -
  have "0 < (of_nat n :: u32) AND push_bit h 1 \<longleftrightarrow> bit (of_nat n :: u32) h"
    by (simp add: bit_iff_and_push_bit_not_eq_0 word_gt_0)
  also have "\<dots> \<longleftrightarrow> h < 32 \<and> bit n h" by (simp add: bit_simps)
  also have "\<dots> \<longleftrightarrow> bit n h"
  proof (cases "h < 32")
    case False
    then have "(2 :: nat) ^ 32 \<le> 2 ^ h" by (intro power_increasing) simp_all
    with assms have "n < 2 ^ h" by linarith
    with False show ?thesis by (simp add: bit_iff_odd)
  qed simp
  finally show ?thesis by (simp add: bit_iff_odd)
qed

lemmas index_bit_power = index_bit [unfolded push_bit_of_1]

lemma power_dvd_odd: "2 ^ h dvd m \<Longrightarrow> j < h \<Longrightarrow> even (m div 2 ^ j)" for m :: nat
proof -
  assume "2 ^ h dvd m" "j < h"
  then have "2 ^ Suc j dvd m" by (meson Suc_leI dvd_trans le_imp_power_dvd)
  then obtain q where "m = 2 ^ Suc j * q" by (rule dvdE)
  then show ?thesis by simp
qed

lemma div_Suc_dvd: "Suc m div n = (if n dvd Suc m then Suc (m div n) else m div n)"
  by (simp add: div_Suc dvd_eq_mod_eq_0)

lemma siblings_inv_carry:
  assumes inv: "siblings_inv K (padded leaves) (length leaves) H sibs" and h: "h < H"
    and even: "even (length leaves div 2 ^ h)" and dvd: "2 ^ h dvd Suc (length leaves)"
  shows "siblings_inv K (padded (leaves @ [leaf])) (Suc (length leaves)) H
    (sibs[h := mroot K (padded (leaves @ [leaf])) h (length leaves div 2 ^ h)])"
  unfolding siblings_inv_def
proof (intro conjI allI impI)
  let ?n = "length leaves"
  fix j assume j: "j < H" and odd: "odd (Suc ?n div 2 ^ j)"
  have Suc_h: "Suc ?n div 2 ^ h = Suc (?n div 2 ^ h)" using dvd by (simp add: div_Suc_dvd)
  have len: "length sibs = H" using inv by (simp add: siblings_inv_def)
  consider "j < h" | "j = h" | "h < j" by linarith
  then show "sibs[h := mroot K (padded (leaves @ [leaf])) h (?n div 2 ^ h)] ! j =
      mroot K (padded (leaves @ [leaf])) j (Suc ?n div 2 ^ j - 1)"
  proof cases
    case 1
    then show ?thesis using power_dvd_odd [OF dvd, of j] odd by simp
  next
    case 2
    then show ?thesis using Suc_h h len by simp
  next
    case 3
    then have "\<not> 2 ^ j dvd Suc ?n" using power_dvd_odd [of j "Suc ?n" h] even Suc_h by auto
    then have "Suc ?n div 2 ^ j = ?n div 2 ^ j" by (simp add: div_Suc_dvd)
    then show ?thesis
      using 3 j odd inv mroot_left_same [of leaves j K leaf] by (simp add: siblings_inv_def)
  qed
qed (use inv in \<open>simp add: siblings_inv_def\<close>)

lemma siblings_inv_full:
  "siblings_inv K f n H sibs \<Longrightarrow> 2 ^ H dvd Suc n \<Longrightarrow> siblings_inv K g (Suc n) H sibs"
  unfolding siblings_inv_def by (meson power_dvd_odd)

text \<open>The invariant of the loop of \<^verbatim>\<open>AddLeaf\<close> at level \<open>h\<close>.\<close>

definition add_inv :: "keccak \<Rightarrow> bytes list \<Rightarrow> bytes \<Rightarrow> nat \<Rightarrow> nat \<Rightarrow> bool \<Rightarrow> bytes list \<Rightarrow> bool" where
  "add_inv K leaves leaf H h filled sibs \<longleftrightarrow>
     (if filled then 2 ^ h dvd Suc (length leaves) \<and> siblings_inv K (padded leaves) (length leaves) H sibs
      else \<not> 2 ^ h dvd Suc (length leaves) \<and>
        siblings_inv K (padded (leaves @ [leaf])) (Suc (length leaves)) H sibs)"

lemma add_inv_left:
  assumes "add_inv K leaves leaf H h filled sibs" "odd (length leaves div 2 ^ h)" "h < H"
  shows "nth_res sibs h = Inr (mroot K (padded (leaves @ [leaf])) h (length leaves div 2 ^ h - 1))"
    "add_inv K leaves leaf H (Suc h) filled sibs"
proof -
  let ?n = "length leaves"
  have len: "length sibs = H" using assms(1) by (auto simp: add_inv_def siblings_inv_def split: if_splits)
  have "sibs ! h = mroot K (padded (leaves @ [leaf])) h (?n div 2 ^ h - 1)"
  proof (cases filled)
    case True
    then show ?thesis
      using assms mroot_left_same [OF assms(2)] by (simp add: add_inv_def siblings_inv_def)
  next
    case False
    then show ?thesis using assms by (simp add: add_inv_def siblings_inv_def div_Suc_dvd)
  qed
  with assms(3) len show "nth_res sibs h = Inr (mroot K (padded (leaves @ [leaf])) h (?n div 2 ^ h - 1))" by simp
  have "2 ^ Suc h dvd Suc ?n \<longleftrightarrow> 2 ^ h dvd Suc ?n"
  proof
    assume h: "2 ^ h dvd Suc ?n"
    then have "Suc ?n = Suc (?n div 2 ^ h) * 2 ^ h" by (metis div_Suc_dvd dvd_div_mult_self)
    moreover obtain q where "Suc (?n div 2 ^ h) = 2 * q" using assms(2) by (metis even_Suc evenE)
    ultimately show "2 ^ Suc h dvd Suc ?n" by simp
  qed (auto intro: dvd_trans [OF le_imp_power_dvd])
  with assms(1) show "add_inv K leaves leaf H (Suc h) filled sibs" by (simp add: add_inv_def)
qed

lemma add_inv_right:
  assumes "add_inv K leaves leaf H h filled sibs" "even (length leaves div 2 ^ h)" "h < H"
  shows "add_inv K leaves leaf H (Suc h) False
    (if filled then sibs[h := mroot K (padded (leaves @ [leaf])) h (length leaves div 2 ^ h)] else sibs)"
proof -
  have "\<not> 2 ^ Suc h dvd Suc (length leaves)"
  proof
    assume d: "2 ^ Suc h dvd Suc (length leaves)"
    then have "2 ^ h dvd Suc (length leaves)" by (meson dvd_trans le_imp_power_dvd le_SucI order_refl)
    then show False using power_dvd_odd [OF d, of h] assms(2) by (simp add: div_Suc_dvd)
  qed
  then show ?thesis
    using assms siblings_inv_carry [of K leaves H sibs h leaf] by (cases filled) (simp_all add: add_inv_def)
qed

lemma add_leaf_loop_correct:
  assumes "length leaves < 2 ^ 32" "zeros_ok K (h + m) zeros" "H = h + m"
    "add_inv K leaves leaf H h filled sibs"
  shows "\<exists>sibs'. add_leaf_loop K zeros (of_nat (length leaves)) m h
      (mroot K (padded (leaves @ [leaf])) h (length leaves div 2 ^ h)) filled sibs =
      Inr (mroot K (padded (leaves @ [leaf])) H (length leaves div 2 ^ H), sibs') \<and>
    siblings_inv K (padded (leaves @ [leaf])) (Suc (length leaves)) H sibs'"
  using assms(2-)
proof (induction m arbitrary: h filled sibs)
  case 0
  then show ?case
    using siblings_inv_full [of K "padded leaves" "length leaves" H sibs]
    by (auto simp: add_inv_def split: if_splits)
next
  case (Suc m)
  let ?n = "length leaves" and ?f = "padded (leaves @ [leaf])"
  have zs: "zeros_ok K (Suc h + m) zeros" "H = Suc h + m" "h < H" using Suc.prems by simp_all
  have up: "mroot K ?f (Suc h) (?n div 2 ^ Suc h) =
      (if odd (?n div 2 ^ h) then l1_Hash K [mroot K ?f h (?n div 2 ^ h - 1), mroot K ?f h (?n div 2 ^ h)]
       else l1_Hash K [mroot K ?f h (?n div 2 ^ h), zero_at K h])"
    using mroot_flip [of K ?f h "?n div 2 ^ h"] mroot_right_zero [of K leaves leaf h]
    by (simp add: flip_last_def div_mult2_eq [symmetric] mult.commute del: mroot.simps)
  have z: "nth_res zeros h = Inr (zero_at K h)" using Suc.prems(1) by (simp add: zeros_ok_def nth_res_def)
  have len: "length sibs = H" using Suc.prems(3) by (auto simp: add_inv_def siblings_inv_def split: if_splits)
  show ?case
  proof (cases "odd (?n div 2 ^ h)")
    case True
    with add_inv_left [OF Suc.prems(3) True zs(3)] Suc.IH [OF zs(1,2), of filled sibs] up show ?thesis
      by (simp add: index_bit_power [OF assms(1)] del: mroot.simps)
  next
    case False
    with add_inv_right [OF Suc.prems(3) _ zs(3)] Suc.IH [OF zs(1,2), of False] up z zs(3) len show ?thesis
      by (simp add: index_bit_power [OF assms(1)] del: mroot.simps)
  qed
qed

text \<open>A tree whose leaves are \<open>leaves\<close>.\<close>

definition l1_tree_ok :: "keccak \<Rightarrow> l1_info_tree \<Rightarrow> bytes list \<Rightarrow> bool" where
  "l1_tree_ok K mt leaves \<longleftrightarrow> tree_shape K mt \<and> lt_count mt = of_nat (length leaves) \<and>
     lt_currentRoot mt = merkle_root K (unat (lt_height mt)) leaves \<and> lt_allLeaves mt = set leaves \<and>
     siblings_inv K (padded leaves) (length leaves) (unat (lt_height mt)) (lt_siblings mt)"

lemma AddLeaf_correct:
  assumes "l1_tree_ok K mt leaves" "length leaves < 2 ^ unat (lt_height mt)" "length leaves < 2 ^ 32"
  shows "\<exists>mt'. AddLeaf K mt (lt_count mt) leaf = Inr (merkle_root K (unat (lt_height mt)) (leaves @ [leaf]), mt') \<and>
    l1_tree_ok K mt' (leaves @ [leaf]) \<and> lt_height mt' = lt_height mt"
proof -
  let ?n = "length leaves" and ?H = "unat (lt_height mt)"
  have "add_inv K leaves leaf ?H 0 True (lt_siblings mt)" "zeros_ok K (0 + ?H) (lt_zeroHashes mt)"
    using assms(1) by (simp_all add: l1_tree_ok_def add_inv_def tree_shape_def)
  from add_leaf_loop_correct [OF assms(3) this(2) _ this(1)] obtain sibs where
    "add_leaf_loop K (lt_zeroHashes mt) (of_nat ?n) ?H 0 leaf True (lt_siblings mt) =
       Inr (mroot K (padded (leaves @ [leaf])) ?H 0, sibs)"
    "siblings_inv K (padded (leaves @ [leaf])) (Suc ?n) ?H sibs"
    using assms(2) by (auto simp: padded_def)
  with assms(1) show ?thesis
    by (auto simp: AddLeaf_def l1_tree_ok_def merkle_root_def tree_shape_def)
qed

lemma NewL1InfoTree_correct:
  assumes "height \<noteq> 0" "length leaves \<le> 2 ^ unat height" "length leaves < 2 ^ 32 - 1"
  shows "\<exists>mt. NewL1InfoTree K height leaves = Inr mt \<and> l1_tree_ok K mt leaves \<and> lt_height mt = height"
proof -
  define mt where "mt = \<lparr>lt_height = height, lt_zeroHashes = generateZeroHashes K height,
    lt_count = of_nat (length leaves), lt_siblings = [], lt_currentRoot = zero_hash, lt_allLeaves = {}\<rparr>"
  have shape: "tree_shape K mt" using assms(1) zeros_ok_generate by (simp add: tree_shape_def mt_def)
  have count: "(of_nat (length leaves) :: u32) = 0 \<longleftrightarrow> leaves = []" "unat (of_nat (length leaves) :: u32) = length leaves"
    using assms(3) by (simp_all add: unat_eq_0 [symmetric] unat_of_nat)
  obtain sibs where sibs: "initSiblings K mt leaves = Inr (sibs, merkle_root K (unat height) leaves)"
    "siblings_inv K (padded leaves) (length leaves) (unat height) sibs"
  proof (cases "leaves = []")
    case True
    have "length (generateZeroHashes K height) = Suc (unat height)" by (simp add: generateZeroHashes_def)
    with True that [of "take (unat height) (generateZeroHashes K height)"] show ?thesis
      using BuildL1InfoRoot_cases [OF shape, of leaves]
      by (simp add: initSiblings_def mt_def [symmetric]) (simp add: mt_def siblings_inv_def)
  next
    case False
    with that show ?thesis
      using ComputeMerkleProof_correct [OF shape, of leaves "of_nat (length leaves)"] assms(2,3) count
      by (simp add: initSiblings_def mt_def siblings_inv_def flip_last_def)
  qed
  then have "new_tree K height leaves = Inr (mt\<lparr>lt_siblings := sibs, lt_currentRoot := merkle_root K (unat height) leaves,
      lt_allLeaves := set leaves\<rparr>)"
    by (simp add: new_tree_def mt_def [symmetric])
  with shape sibs(2) show ?thesis
    by (auto simp: NewL1InfoTree_def l1_tree_ok_def tree_shape_def mt_def)
qed

section \<open>Properties\<close>

text \<open>Leaves added one after the other, each at the next index.\<close>

fun add_leaves :: "keccak \<Rightarrow> l1_info_tree \<Rightarrow> bytes list \<Rightarrow> l1_info_tree res" where
  "add_leaves K mt [] = Inr mt"
| "add_leaves K mt (x # xs) = res_bind (AddLeaf K mt (lt_count mt) x) (\<lambda>(root, mt). add_leaves K mt xs)"

lemma add_leaves_correct:
  "l1_tree_ok K mt leaves \<Longrightarrow> length (leaves @ xs) \<le> 2 ^ unat (lt_height mt) \<Longrightarrow> length (leaves @ xs) < 2 ^ 32 \<Longrightarrow>
   \<exists>mt'. add_leaves K mt xs = Inr mt' \<and> l1_tree_ok K mt' (leaves @ xs) \<and> lt_height mt' = lt_height mt"
proof (induction xs arbitrary: mt leaves)
  case (Cons x xs)
  obtain mt' where mt': "AddLeaf K mt (lt_count mt) x = Inr (merkle_root K (unat (lt_height mt)) (leaves @ [x]), mt')"
    "l1_tree_ok K mt' (leaves @ [x])" "lt_height mt' = lt_height mt"
    using AddLeaf_correct [OF Cons.prems(1), of x] Cons.prems(2,3) by auto
  from Cons.IH [OF mt'(2)] Cons.prems(2,3) mt'(1,3) show ?case by simp
qed simp

text \<open>
  C3. The incremental tree equals the full computation: a tree started from any leaves by
  \<^verbatim>\<open>NewL1InfoTree\<close> and extended by any sequence of \<^verbatim>\<open>AddLeaf\<close> calls has as its current root the root of
  the complete zero-padded tree over all leaves, which is also what \<^verbatim>\<open>BuildL1InfoRoot\<close> computes
  from scratch; its count and its set of known leaves are those of all leaves.
\<close>

theorem incremental_root:
  assumes "height \<noteq> 0" "length (xs @ ys) \<le> 2 ^ unat height" "length (xs @ ys) < 2 ^ 32 - 1"
  shows "\<exists>mt mt'. NewL1InfoTree K height xs = Inr mt \<and> add_leaves K mt ys = Inr mt' \<and>
    lt_currentRoot mt' = merkle_root K (unat height) (xs @ ys) \<and>
    BuildL1InfoRoot K mt' (xs @ ys) = Inr (lt_currentRoot mt') \<and>
    lt_count mt' = of_nat (length (xs @ ys)) \<and> (\<forall>l. LeafExists mt' l = (l \<in> set (xs @ ys)))"
proof -
  obtain mt where mt: "NewL1InfoTree K height xs = Inr mt" "l1_tree_ok K mt xs" "lt_height mt = height"
    using NewL1InfoTree_correct [OF assms(1), of xs K] assms(2,3) by auto
  obtain mt' where mt': "add_leaves K mt ys = Inr mt'" "l1_tree_ok K mt' (xs @ ys)" "lt_height mt' = height"
    using add_leaves_correct [OF mt(2), of ys] assms(2,3) mt(3) by auto
  have "BuildL1InfoRoot K mt' (xs @ ys) = Inr (lt_currentRoot mt')"
    using BuildL1InfoRoot_cases [of K mt' "xs @ ys"] mt'(2,3) assms(2) by (simp add: l1_tree_ok_def)
  with mt mt' show ?thesis by (auto simp: l1_tree_ok_def LeafExists_def)
qed

theorem incremental_root_witness:
  "\<exists>mt mt'. NewL1InfoTree (\<lambda>b. b) 3 [replicate 32 1] = Inr mt \<and> add_leaves (\<lambda>b. b) mt [replicate 32 2, replicate 32 3] = Inr mt' \<and>
    lt_currentRoot mt' = merkle_root (\<lambda>b. b) 3 [replicate 32 1, replicate 32 2, replicate 32 3]"
  using incremental_root [of 3 "[replicate 32 1]" "[replicate 32 2, replicate 32 3]" "\<lambda>b. b"] by auto

text \<open>
  C4. A proof made by \<^verbatim>\<open>ComputeMerkleProof\<close> is right: for every index of the tree, also beyond the
  leaves, it has one sibling per level and hashing the leaf at the index (the zero leaf beyond the leaves) with
  the siblings gives the returned root, which is the root of the complete padded tree.
\<close>

theorem merkle_proof_verifies:
  assumes "tree_shape K mt" "length leaves \<le> 2 ^ unat (lt_height mt)" "length leaves < 2 ^ 32 - 1"
    and "unat index < 2 ^ unat (lt_height mt)"
  shows "\<exists>siblings. ComputeMerkleProof K mt index leaves = Inr (siblings, merkle_root K (unat (lt_height mt)) leaves) \<and>
    length siblings = unat (lt_height mt) \<and>
    fold_proof K (unat index) (padded leaves (unat index)) siblings = merkle_root K (unat (lt_height mt)) leaves"
  using ComputeMerkleProof_correct [OF assms(1-3), of index] assms(4)
    fold_proof_correct [of K "unat index" "padded leaves" 0 "unat (lt_height mt)"]
  by (simp add: merkle_root_def)

theorem merkle_proof_verifies_witness:
  "\<exists>mt siblings. NewL1InfoTree (\<lambda>b. b) 3 [replicate 32 1, replicate 32 2] = Inr mt \<and>
    ComputeMerkleProof (\<lambda>b. b) mt 1 [replicate 32 1, replicate 32 2] =
      Inr (siblings, merkle_root (\<lambda>b. b) 3 [replicate 32 1, replicate 32 2]) \<and> length siblings = 3"
proof -
  obtain mt where "NewL1InfoTree (\<lambda>b. b) 3 [replicate 32 1, replicate 32 2] = Inr mt"
    "l1_tree_ok (\<lambda>b. b) mt [replicate 32 1, replicate 32 2]" "lt_height mt = 3"
    using NewL1InfoTree_correct [of 3 "[replicate 32 1, replicate 32 2]" "\<lambda>b. b"] by auto
  with merkle_proof_verifies [of "\<lambda>b. b" mt "[replicate 32 1, replicate 32 2]" 1] show ?thesis
    by (auto simp: l1_tree_ok_def)
qed

text \<open>
  C5. \<^verbatim>\<open>BuildL1InfoRoot\<close> succeeds exactly on the leaves that fit the tree, and then returns the root
  of the complete padded tree; with more leaves than the tree has room for it returns its error.
\<close>

theorem build_root_or_error:
  assumes "tree_shape K mt"
  shows "BuildL1InfoRoot K mt leaves =
    (if length leaves \<le> 2 ^ unat (lt_height mt) then Inr (merkle_root K (unat (lt_height mt)) leaves)
     else Inl (Error ''error: more than one root detected''))"
  by (rule BuildL1InfoRoot_cases [OF assms])

theorem build_root_or_error_witness:
  "\<exists>mt. NewL1InfoTree (\<lambda>b. b) 1 [] = Inr mt \<and>
    BuildL1InfoRoot (\<lambda>b. b) mt [replicate 32 1, replicate 32 2, replicate 32 3] =
      Inl (Error ''error: more than one root detected'')"
proof -
  obtain mt where "NewL1InfoTree (\<lambda>b. b) 1 [] = Inr mt" "l1_tree_ok (\<lambda>b. b) mt []" "lt_height mt = 1"
    using NewL1InfoTree_correct [of 1 "[]" "\<lambda>b. b"] by auto
  with build_root_or_error [of "\<lambda>b. b" mt "[replicate 32 1, replicate 32 2, replicate 32 3]"] show ?thesis
    by (auto simp: l1_tree_ok_def)
qed

end
