(* ===== verification/Go_Float.thy ===== *)
theory Go_Float
  imports Go_Prelude "HOL-Library.Log_Nat"
begin

text \<open>
  The \<^verbatim>\<open>float64\<close> operations the sources use, on the rationals: every operation rounds its exact result
  to 53 significant bits, ties to even. Values stay in the normal range, so infinities, NaN
  and subnormal numbers do not occur. The lemma at the end shows that \<^verbatim>\<open>math.Ceil\<close> and \<^verbatim>\<open>math.Floor\<close> of a
  quotient of integers are exact as long as the dividend is below \<open>2^53\<close>.
\<close>

definition round_even :: "rat \<Rightarrow> int" where
  "round_even x =
     (let n = \<lfloor>x\<rfloor>; d = x - of_int n in
      if d < 1 / 2 then n else if d > 1 / 2 then n + 1 else if even n then n else n + 1)"

text \<open>The exponent of a non-zero rational: \<open>2 powi e \<le> \<bar>q\<bar> < 2 powi (e + 1)\<close>.\<close>

definition rat_exponent :: "rat \<Rightarrow> int" where
  "rat_exponent q =
     (let (n, d) = quotient_of \<bar>q\<bar>; e = int (floorlog 2 (nat n)) - int (floorlog 2 (nat d)) in
      if 2 powi e \<le> \<bar>q\<bar> then e else e - 1)"

definition fl64 :: "rat \<Rightarrow> rat" where
  "fl64 q =
     (if q = 0 then 0
      else let ulp = 2 powi (rat_exponent q - 52) in of_int (round_even (q / ulp)) * ulp)"

type_synonym float64 = rat

definition float64_of_int :: "int \<Rightarrow> float64" where
  "float64_of_int n = fl64 (of_int n)"

definition float64_mult :: "float64 \<Rightarrow> float64 \<Rightarrow> float64" where
  "float64_mult x y = fl64 (x * y)"

definition float64_div :: "float64 \<Rightarrow> float64 \<Rightarrow> float64" where
  "float64_div x y = fl64 (x / y)"

definition float64_minus :: "float64 \<Rightarrow> float64 \<Rightarrow> float64" where
  "float64_minus x y = fl64 (x - y)"

definition float64_plus :: "float64 \<Rightarrow> float64 \<Rightarrow> float64" where
  "float64_plus x y = fl64 (x + y)"

text \<open>\<^verbatim>\<open>int(math.Ceil(float64(a) / b))\<close> and the same with \<^verbatim>\<open>math.Floor\<close>.\<close>

definition ceil_div :: "gint \<Rightarrow> int \<Rightarrow> gint" where
  "ceil_div a b = word_of_int \<lceil>float64_div (float64_of_int (sint a)) (of_int b)\<rceil>"

definition floor_div :: "gint \<Rightarrow> int \<Rightarrow> gint" where
  "floor_div a b = word_of_int \<lfloor>float64_div (float64_of_int (sint a)) (of_int b)\<rfloor>"

text \<open>\<^verbatim>\<open>int(math.Ceil(float64(a) / b) + c)\<close>; the conversion truncates towards zero.\<close>

definition ceil_div_plus :: "gint \<Rightarrow> int \<Rightarrow> int \<Rightarrow> gint" where
  "ceil_div_plus a b c =
     (let x = float64_plus (float64_of_int \<lceil>float64_div (float64_of_int (sint a)) (of_int b)\<rceil>) (of_int c) in
      word_of_int (if x < 0 then \<lceil>x\<rceil> else \<lfloor>x\<rfloor>))"

section \<open>The rounding error\<close>

lemma round_even_error: "\<bar>of_int (round_even x) - x\<bar> \<le> 1 / 2"
proof -
  have "of_int \<lfloor>x\<rfloor> \<le> x" "x < of_int \<lfloor>x\<rfloor> + 1" by linarith+
  then show ?thesis
    unfolding round_even_def Let_def abs_if by (auto simp del: of_int_floor_le)
qed

lemma round_even_int [simp]: "round_even (of_int n) = n"
  by (simp add: round_even_def)

lemma floorlog_bounds:
  assumes "0 < n"
  shows "2 powi (int (floorlog 2 (nat n)) - 1) \<le> (of_int n :: rat)" "(of_int n :: rat) < 2 powi int (floorlog 2 (nat n))"
proof -
  have nz: "nat n \<noteq> 0" using assms by simp
  let ?k = "floorlog 2 (nat n)"
  have k: "?k = Suc (?k - 1)" using floorlog_eq_zero_iff [of 2 "nat n"] nz by (simp add: Suc_pred')
  have "2 ^ (?k - 1) \<le> nat n" "nat n < 2 ^ ?k"
    using floorlog_bounds [of "nat n" 2] nz by simp_all
  then have "(of_nat (2 ^ (?k - 1)) :: rat) \<le> of_nat (nat n)" "(of_nat (nat n) :: rat) < of_nat (2 ^ ?k)"
    by (simp_all only: of_nat_le_iff of_nat_less_iff)
  moreover have "(of_nat (nat n) :: rat) = of_int n" using assms by simp
  moreover have "int ?k - 1 = int (?k - 1)" using k by linarith
  ultimately show "2 powi (int ?k - 1) \<le> (of_int n :: rat)" "(of_int n :: rat) < 2 powi int ?k"
    by (simp_all only: power_int_of_nat of_nat_power of_nat_numeral)
qed

lemma rat_exponent_lower:
  assumes "q \<noteq> 0"
  shows "2 powi rat_exponent q \<le> \<bar>q\<bar>"
proof -
  obtain n d where nd: "quotient_of \<bar>q\<bar> = (n, d)" by fastforce
  have d: "0 < d" using nd by (rule quotient_of_denom_pos)
  have q: "\<bar>q\<bar> = of_int n / of_int d" using nd by (rule quotient_of_div)
  have "0 < of_int n / (of_int d :: rat)" using q assms by (metis zero_less_abs_iff)
  then have n: "0 < n" using d by (simp add: zero_less_divide_iff)
  let ?e = "int (floorlog 2 (nat n)) - int (floorlog 2 (nat d))"
  have "2 powi (?e - 1) = 2 powi (int (floorlog 2 (nat n)) - 1) / (2 powi int (floorlog 2 (nat d)) :: rat)"
    by (simp add: power_int_diff)
  also have "\<dots> \<le> of_int n / of_int d"
    using floorlog_bounds [OF n] floorlog_bounds [OF d] n d by (intro frac_le) auto
  finally have "2 powi (?e - 1) \<le> \<bar>q\<bar>" by (simp only: q)
  then show ?thesis unfolding rat_exponent_def nd by (simp add: Let_def)
qed

lemma fl64_error: "\<bar>fl64 q - q\<bar> \<le> \<bar>q\<bar> / 2 ^ 53"
proof (cases "q = 0")
  case False
  define u where "u = (2 :: rat) powi (rat_exponent q - 52)"
  have u: "0 < u" by (simp add: u_def)
  have "\<bar>fl64 q - q\<bar> = \<bar>of_int (round_even (q / u)) * u - q\<bar>" using False by (simp add: fl64_def u_def Let_def)
  also have "of_int (round_even (q / u)) * u - q = (of_int (round_even (q / u)) - q / u) * u"
    using u by (simp add: left_diff_distrib)
  also have "\<bar>(of_int (round_even (q / u)) - q / u) * u\<bar> = \<bar>of_int (round_even (q / u)) - q / u\<bar> * u"
    using u by (simp add: abs_mult)
  also have "\<dots> \<le> 1 / 2 * u" using u by (intro mult_right_mono round_even_error) simp
  also have "u = 2 powi rat_exponent q / 2 ^ 52" by (simp add: u_def power_int_diff)
  also have "1 / 2 * (2 powi rat_exponent q / 2 ^ 52) \<le> \<bar>q\<bar> / 2 ^ 53"
    using rat_exponent_lower [OF False] by simp
  finally show ?thesis .
qed (simp add: fl64_def)

lemma rat_exponent_int:
  assumes "0 < \<bar>n\<bar>" "\<bar>n\<bar> < 2 ^ 53"
  shows "0 \<le> rat_exponent (of_int n)" "rat_exponent (of_int n) \<le> 52"
proof -
  let ?k = "floorlog 2 (nat \<bar>n\<bar>)"
  have q: "quotient_of \<bar>of_int n\<bar> = (\<bar>n\<bar>, 1)" by (simp add: of_int_abs [symmetric] del: of_int_abs)
  have one: "floorlog 2 (Suc 0) = Suc 0" by (simp add: floorlog_def)
  have k: "1 \<le> ?k" "?k \<le> 53"
    using assms floorlog_leD [of "nat \<bar>n\<bar>" 2 53] floorlog_eq_zero_iff [of 2 "nat \<bar>n\<bar>"]
    by (auto simp: floorlog_le_iff nat_less_iff)
  have "2 powi (int ?k - 1) \<le> (of_int \<bar>n\<bar> :: rat)" using floorlog_bounds(1) [OF assms(1)] .
  then have "rat_exponent (of_int n) = int ?k - 1"
    by (simp add: rat_exponent_def q one Let_def)
  with k show "0 \<le> rat_exponent (of_int n)" "rat_exponent (of_int n) \<le> 52" by simp_all
qed

lemma fl64_int:
  assumes "\<bar>n\<bar> < 2 ^ 53"
  shows "fl64 (of_int n) = of_int n"
proof (cases "n = 0")
  case False
  let ?e = "rat_exponent (of_int n)"
  have e: "0 \<le> ?e" "?e \<le> 52" using rat_exponent_int [of n] False assms by simp_all
  define k where "k = nat (52 - ?e)"
  have "(2 :: rat) powi (?e - 52) = 1 / 2 ^ k"
    using e by (simp add: k_def power_int_def inverse_eq_divide power_one_over)
  then show ?thesis
    using False round_even_int [of "n * 2 ^ k"] by (simp add: fl64_def Let_def)
qed (simp add: fl64_def)

section \<open>Integer quotients\<close>

lemma fl64_quotient_ceiling:
  assumes "0 \<le> a" "a < 2 ^ 53" "0 < b"
  shows "\<lceil>fl64 (of_int a / of_int b)\<rceil> = \<lceil>of_int a / (of_int b :: rat)\<rceil>"
    "\<lfloor>fl64 (of_int a / of_int b)\<rfloor> = \<lfloor>of_int a / (of_int b :: rat)\<rfloor>"
proof -
  define q where "q = of_int a / (of_int b :: rat)"
  have q0: "0 \<le> q" using assms by (simp add: q_def)
  have "q / 2 ^ 53 < 1 / of_int b"
  proof -
    have "(of_int a :: rat) < 2 ^ 53" using assms(2) by (metis of_int_less_iff of_int_numeral of_int_power)
    then show ?thesis using assms(3) by (simp add: q_def field_simps)
  qed
  then have err: "\<bar>fl64 q - q\<bar> < 1 / of_int b" using fl64_error [of q] q0 by simp
  have "\<lceil>fl64 q\<rceil> = \<lceil>q\<rceil> \<and> \<lfloor>fl64 q\<rfloor> = \<lfloor>q\<rfloor>"
  proof (cases "b dvd a")
    case True
    then obtain c where c: "a = b * c" by (rule dvdE)
    then have qc: "q = of_int c" using assms(3) by (simp add: q_def)
    have "\<bar>c\<bar> \<le> \<bar>a\<bar>" using c assms(3) mult_right_mono [of 1 b "\<bar>c\<bar>"] by (simp add: abs_mult)
    then show ?thesis using fl64_int [of c] assms(1,2) by (simp add: qc)
  next
    case False
    define r where "r = a mod b"
    have r: "0 < r" "r < b" using False assms(3) pos_mod_bound [of b a] pos_mod_sign [of b a]
      by (simp_all add: r_def dvd_eq_mod_eq_0 order_less_le)
    have "of_int a = of_int b * of_int (a div b) + (of_int r :: rat)"
      unfolding r_def by (metis mult_div_mod_eq of_int_add of_int_mult)
    then have "q = of_int (a div b) + of_int r / of_int b"
      using assms(3) by (simp add: q_def add_divide_distrib)
    moreover have "1 / of_int b \<le> of_int r / (of_int b :: rat)" "of_int r / (of_int b :: rat) \<le> 1 - 1 / of_int b"
      using r of_int_le_iff [of 1 r, where ?'a = rat] of_int_le_iff [of "r + 1" b, where ?'a = rat] assms(3)
      by (simp_all add: field_simps)
    ultimately have "of_int (a div b) < fl64 q" "fl64 q < of_int (a div b) + 1" "of_int (a div b) < q" "q < of_int (a div b) + 1"
      using err r assms(3) by (simp_all add: abs_less_iff)
    then show ?thesis by (simp add: ceiling_unique [of "a div b + 1"] floor_unique [of "a div b"])
  qed
  then show "\<lceil>fl64 (of_int a / of_int b)\<rceil> = \<lceil>of_int a / (of_int b :: rat)\<rceil>"
    "\<lfloor>fl64 (of_int a / of_int b)\<rfloor> = \<lfloor>of_int a / (of_int b :: rat)\<rfloor>" by (simp_all add: q_def)
qed

lemma ceil_div_exact:
  assumes "0 \<le> sint a" "sint a < 2 ^ 53" "0 < b"
  shows "ceil_div a b = word_of_int (- (- sint a div b))"
proof -
  define n where "n = sint a"
  have "0 \<le> n" "n < 2 ^ 53" using assms by (simp_all add: n_def)
  then show ?thesis
    unfolding ceil_div_def float64_div_def float64_of_int_def n_def [symmetric]
    using fl64_quotient_ceiling(1) [of n b] fl64_int [of n] assms(3) by (simp add: ceiling_divide_eq_div)
qed

lemma floor_div_exact:
  assumes "0 \<le> sint a" "sint a < 2 ^ 53" "0 < b"
  shows "floor_div a b = word_of_int (sint a div b)"
proof -
  define n where "n = sint a"
  have "0 \<le> n" "n < 2 ^ 53" using assms by (simp_all add: n_def)
  then show ?thesis
    unfolding floor_div_def float64_div_def float64_of_int_def n_def [symmetric]
    using fl64_quotient_ceiling(2) [of n b] fl64_int [of n] assms(3) by (simp add: floor_divide_of_int_eq)
qed

lemma ceil_nonneg_le:
  fixes n b :: int
  assumes "0 \<le> n" "0 < b"
  shows "0 \<le> - (- n div b)" "- (- n div b) \<le> n"
proof -
  show "0 \<le> - (- n div b)"
    using assms by (simp add: div_nonpos_pos_le0)
  have "- n \<le> - n div b"
  proof -
    have "- n * b \<le> - n"
      using assms by (simp add: mult_le_cancel_left1)
    then have "(- n * b) div b \<le> - n div b"
      using assms(2) by (intro zdiv_mono1)
    then show ?thesis
      using nonzero_mult_div_cancel_right [of b "- n"] assms(2) by linarith
  qed
  then show "- (- n div b) \<le> n"
    by simp
qed

lemma ceil_div_plus_exact:
  assumes "0 \<le> sint a" "sint a < 2 ^ 52" "0 < b" "0 \<le> c" "c < 2 ^ 52"
  shows "ceil_div_plus a b c = word_of_int (- (- sint a div b) + c)"
proof -
  define n where "n = sint a"
  define q where "q = - (- n div b)"
  have n: "0 \<le> n" "n < 2 ^ 52" "n < 2 ^ 53" using assms by (simp_all add: n_def)
  have q: "0 \<le> q" "q \<le> n"
    using ceil_nonneg_le [OF n(1) assms(3)] by (simp_all add: q_def)
  have c: "\<lceil>fl64 (of_int n / of_int b)\<rceil> = q"
    using fl64_quotient_ceiling(1) [of n b] n assms(3) by (simp add: q_def ceiling_divide_eq_div)
  have "\<bar>n\<bar> < 2 ^ 53" "\<bar>q\<bar> < 2 ^ 53" "\<bar>q + c\<bar> < 2 ^ 53"
    using n q assms(4,5) by simp_all
  then have "fl64 (of_int n) = of_int n" "fl64 (of_int q) = of_int q" "fl64 (of_int (q + c)) = of_int (q + c)"
    by (simp_all only: fl64_int)
  then have "ceil_div_plus a b c = word_of_int (q + c)"
    unfolding ceil_div_plus_def float64_div_def float64_of_int_def float64_plus_def n_def [symmetric]
    using c q assms(4) by (simp flip: of_int_add)
  then show ?thesis
    by (simp add: q_def n_def)
qed

end
