(* ===== verification/Eth_Tx.thy ===== *)
theory Eth_Tx
  imports Go_Bytes
begin

text \<open>
  The transactions of \<^verbatim>\<open>src/core/types\<close> as far as batches and counters read them: the legacy transaction, what its
  recovery value says of the chain, and the interface \<^verbatim>\<open>types.Transaction\<close> as the record of the methods that are called.
\<close>

section \<open>Legacy transactions\<close>

type_synonym u256 = "256 word"

record common_tx =
  ct_ChainID :: "u256 option"
  ct_Nonce :: u64
  ct_Gas :: u64
  ct_To :: "bytes option"
  ct_Value :: "u256 option"
  ct_Data :: bytes
  ct_V :: u256
  ct_R :: u256
  ct_S :: u256

record legacy_tx = common_tx +
  lt_GasPrice :: "u256 option"

definition uint256_SetBytes :: "bytes \<Rightarrow> u256" where
  "uint256_SetBytes bs = word_of_int (big_SetBytes bs)"

definition IsUint64 :: "u256 \<Rightarrow> bool" where
  "IsUint64 x \<longleftrightarrow> unat x < 2 ^ 64"

definition isProtectedV :: "u256 \<Rightarrow> bool" where
  "isProtectedV vv =
     (if unat vv < 2 ^ 8 then let v = (ucast vv :: u64) in v \<noteq> 27 \<and> v \<noteq> 28 \<and> v \<noteq> 1 \<and> v \<noteq> 0 else True)"

definition DeriveChainId :: "u256 \<Rightarrow> u256" where
  "DeriveChainId vv =
     (if IsUint64 vv then
        let v = (ucast vv :: u64) in if v = 27 \<or> v = 28 then 0 else ucast ((v - 35) div 2)
      else (vv - 35) div 2)"

text \<open>The methods of a transaction that are called, and those of \<^verbatim>\<open>*LegacyTx\<close>.\<close>

record tx_methods =
  GetNonce :: u64
  GetPrice :: "u256 option"
  GetGas :: u64
  GetValue :: "u256 option"
  GetChainID :: "u256 option"
  GetTo :: "bytes option"
  GetData :: bytes
  RawSignatureValues :: "u256 \<times> u256 \<times> u256"
  Protected :: bool
  IsContractDeploy :: bool

definition LegacyTx_methods :: "legacy_tx \<Rightarrow> tx_methods" where
  "LegacyTx_methods t =
     \<lparr>GetNonce = ct_Nonce t, GetPrice = lt_GasPrice t, GetGas = ct_Gas t, GetValue = ct_Value t,
      GetChainID = Some (DeriveChainId (ct_V t)), GetTo = ct_To t, GetData = ct_Data t,
      RawSignatureValues = (ct_V t, ct_R t, ct_S t), Protected = isProtectedV (ct_V t),
      IsContractDeploy = (ct_To t = None)\<rparr>"

definition ErrTxTypeNotSupported :: go_error where "ErrTxTypeNotSupported = Error ''transaction type not supported''"

end
