(* ===== verification/Zk_Counters.thy ===== *)
theory Zk_Counters
  imports Go_Float Eth_Tx
begin

text \<open>
  The counters that bound what a batch may cost the prover, \<^verbatim>\<open>src/core/vm/zk_counters.go\<close>: the eight
  counters, the collector, the helper charges and the precompile charges. Go's \<^verbatim>\<open>int\<close> is a
  64-bit word read as signed. \<^verbatim>\<open>Counters\<close> is a slice of pointers, so a list of options. A charge is a
  function on the collector that may panic; the body of a Go method that charges one thing after the
  other is \<open>seq\<close> of its statements. The cost of an operation is a vector of eight amounts: a
  charge never does anything but move its amounts from remaining to used.
\<close>

section \<open>Counters\<close>

datatype counter_key = S | A | B | M | K | D | P | SHA

fun key_index :: "counter_key \<Rightarrow> nat" where
  "key_index S = 0" | "key_index A = 1" | "key_index B = 2" | "key_index M = 3"
| "key_index K = 4" | "key_index D = 5" | "key_index P = 6" | "key_index SHA = 7"

definition CounterTypesCount :: nat where
  "CounterTypesCount = 8"

definition MCPL :: gint where
  "MCPL = 23"

record counter =
  remaining :: gint
  used :: gint
  counter_name :: string
  initialAmount :: gint

type_synonym counters = "counter option list"

definition Counter_Clone :: "counter \<Rightarrow> counter" where
  "Counter_Clone c = \<lparr>remaining = remaining c, used = used c, counter_name = counter_name c,
     initialAmount = initialAmount c\<rparr>"

definition NewCounters :: counters where
  "NewCounters = replicate CounterTypesCount None"

text \<open>A loop over the indices of a slice, and the counter behind a pointer.\<close>

fun for_range :: "(nat \<Rightarrow> 'a \<Rightarrow> 'a res) \<Rightarrow> nat list \<Rightarrow> 'a \<Rightarrow> 'a res" where
  "for_range f [] x = Inr x"
| "for_range f (k # ks) x = res_bind (f k x) (for_range f ks)"

definition counter_at :: "counters \<Rightarrow> nat \<Rightarrow> counter res" where
  "counter_at cs k =
     res_bind (nth_res cs k) (\<lambda>c. case c of None \<Rightarrow> Inl (Panic ''nil pointer dereference'') | Some c \<Rightarrow> Inr c)"

text \<open>
  \<^verbatim>\<open>Counters{}\<close> is a slice of length zero. The loops that fill it evaluate the right-hand side of the assignment, which
  panics for a nil pointer, and then assign to the index.
\<close>

definition NewCountersFromUsedArray :: "gint list \<Rightarrow> counters res" where
  "NewCountersFromUsedArray us =
     for_range (\<lambda>k res.
       res_bind (nth_res us k) (\<lambda>v.
       set_res res k (Some \<lparr>remaining = 0, used = v, counter_name = [], initialAmount = 0\<rparr>))) [0..<length us] []"

definition Counters_Clone :: "counters \<Rightarrow> counters res" where
  "Counters_Clone cc =
     for_range (\<lambda>k clonedCounters.
       res_bind (counter_at cc k) (\<lambda>v. set_res clonedCounters k (Some (Counter_Clone v)))) [0..<length cc] []"

fun NullateUsed :: "counters \<Rightarrow> counters res" where
  "NullateUsed [] = Inr []"
| "NullateUsed (None # cs) = Inl (Panic ''nil pointer dereference'')"
| "NullateUsed (Some c # cs) = res_bind (NullateUsed cs) (\<lambda>cs. Inr (Some (c\<lparr>used := 0\<rparr>) # cs))"

fun UsedAsArray :: "counters \<Rightarrow> gint list res" where
  "UsedAsArray [] = Inr []"
| "UsedAsArray (None # cs) = Inl (Panic ''nil pointer dereference'')"
| "UsedAsArray (Some c # cs) = res_bind (UsedAsArray cs) (\<lambda>us. Inr (used c # us))"

record counter_collector =
  cc_counters :: counters
  smtLevels :: gint
  isDeploy :: bool
  cc_transaction :: "tx_methods option"
  forkId :: u16

definition SetTransaction :: "tx_methods \<Rightarrow> counter_collector \<Rightarrow> counter_collector" where
  "SetTransaction t cc = cc\<lparr>cc_transaction := Some t, isDeploy := IsContractDeploy t\<rparr>"

type_synonym cc_op = "counter_collector \<Rightarrow> counter_collector res"

definition CounterCollector_Clone :: "counter_collector \<Rightarrow> counter_collector res" where
  "CounterCollector_Clone cc =
     res_bind (for_range (\<lambda>k clonedCounters.
         res_bind (counter_at (cc_counters cc) k) (\<lambda>v. set_res clonedCounters k (Some (Counter_Clone v))))
       [0..<length (cc_counters cc)] []) (\<lambda>clonedCounters.
     Inr \<lparr>cc_counters = clonedCounters, smtLevels = smtLevels cc, isDeploy = isDeploy cc,
          cc_transaction = cc_transaction cc, forkId = 0\<rparr>)"

fun overflow_loop :: "counters \<Rightarrow> bool res" where
  "overflow_loop [] = Inr False"
| "overflow_loop (None # cs) = Inl (Panic ''nil pointer dereference'')"
| "overflow_loop (Some c # cs) = (if sint (remaining c) < 0 then Inr True else overflow_loop cs)"

definition isOverflown :: "counter_collector \<Rightarrow> bool res" where
  "isOverflown cc = overflow_loop (cc_counters cc)"

definition deduct_counter :: "gint \<Rightarrow> counter \<Rightarrow> counter" where
  "deduct_counter amount c = c\<lparr>used := used c + amount, remaining := remaining c - amount\<rparr>"

definition Deduct :: "counter_key \<Rightarrow> gint \<Rightarrow> cc_op" where
  "Deduct key amount cc =
     (let i = key_index key; cs = cc_counters cc in
      if i < length cs then
        (case cs ! i of
           None \<Rightarrow> Inl (Panic ''nil pointer dereference'')
         | Some c \<Rightarrow> Inr (cc\<lparr>cc_counters := cs[i := Some (deduct_counter amount c)]\<rparr>))
      else Inl (Panic ''index out of range''))"

text \<open>Statements one after the other.\<close>

fun seq :: "cc_op list \<Rightarrow> cc_op" where
  "seq [] cc = Inr cc"
| "seq (f # fs) cc = res_bind (f cc) (seq fs)"

definition when_op :: "bool \<Rightarrow> cc_op \<Rightarrow> cc_op" where
  "when_op b f = (if b then f else Inr)"

text \<open>\<^verbatim>\<open>multiCall\<close>: the loop from \<open>i\<close> with \<open>n\<close> iterations left.\<close>

fun multi_call_loop :: "cc_op \<Rightarrow> nat \<Rightarrow> nat \<Rightarrow> cc_op" where
  "multi_call_loop call 0 i cc = Inr cc"
| "multi_call_loop call (Suc n) i cc =
     res_bind (if i mod 1000 = 0 then isOverflown cc else Inr False) (\<lambda>stop.
       if stop then Inr cc else res_bind (call cc) (multi_call_loop call n (Suc i)))"

definition multiCall :: "cc_op \<Rightarrow> gint \<Rightarrow> cc_op" where
  "multiCall call iterations = multi_call_loop call (nat (sint iterations)) 0"

text \<open>A \<^verbatim>\<open>for\<close> loop without the early exit.\<close>

fun repeat_op :: "nat \<Rightarrow> cc_op \<Rightarrow> cc_op" where
  "repeat_op 0 f cc = Inr cc"
| "repeat_op (Suc n) f cc = res_bind (f cc) (repeat_op n f)"

definition ForkId13Durian :: u16 where
  "ForkId13Durian = 13"

definition ForkID10 :: u16 where
  "ForkID10 = 10"

definition ForkID11 :: u16 where
  "ForkID11 = 11"

section \<open>What a charge does\<close>

text \<open>
  A collector is well formed when its eight counters are there, each has remaining and used adding up to
  what it started with, and the number of tree levels is of a sane size.
\<close>

definition counter_ok :: "counter option \<Rightarrow> bool" where
  "counter_ok c = (case c of None \<Rightarrow> False | Some c \<Rightarrow> used c + remaining c = initialAmount c)"

definition cc_ok :: "counter_collector \<Rightarrow> bool" where
  "cc_ok cc \<longleftrightarrow> length (cc_counters cc) = CounterTypesCount \<and> list_all counter_ok (cc_counters cc) \<and>
     uint (smtLevels cc) < 2 ^ 16"

text \<open>The effect of a charge with cost vector \<open>v\<close>.\<close>

definition charge_counters :: "(nat \<Rightarrow> gint) \<Rightarrow> counters \<Rightarrow> counters" where
  "charge_counters v cs = map2 (\<lambda>i. map_option (deduct_counter (v i))) [0..<length cs] cs"

definition charge :: "(nat \<Rightarrow> gint) \<Rightarrow> counter_collector \<Rightarrow> counter_collector" where
  "charge v cc = cc\<lparr>cc_counters := charge_counters v (cc_counters cc)\<rparr>"

text \<open>
  \<open>costs n f\<close>: on every well formed collector \<open>f\<close> returns, and all it does is to move from
  remaining to used a cost of at most \<open>n\<close> in each counter.
\<close>

definition cost_le :: "int \<Rightarrow> (nat \<Rightarrow> gint) \<Rightarrow> bool" where
  "cost_le n v \<longleftrightarrow> (\<forall>i. uint (v i) \<le> n)"

definition costs :: "int \<Rightarrow> cc_op \<Rightarrow> bool" where
  "costs n f \<longleftrightarrow> (\<forall>cc. cc_ok cc \<longrightarrow> (\<exists>v. f cc = Inr (charge v cc) \<and> cost_le n v))"

named_theorems costs

lemma deduct_counter_0 [simp]: "deduct_counter 0 c = c"
  by (simp add: deduct_counter_def)

lemma deduct_counter_add [simp]: "deduct_counter a (deduct_counter b c) = deduct_counter (b + a) c"
  by (simp add: deduct_counter_def algebra_simps)

lemma length_charge_counters [simp]: "length (charge_counters v cs) = length cs"
  by (simp add: charge_counters_def)

lemma nth_charge_counters [simp]:
  "i < length cs \<Longrightarrow> charge_counters v cs ! i = map_option (deduct_counter (v i)) (cs ! i)"
  by (simp add: charge_counters_def)

lemma charge_counters_0: "charge_counters (\<lambda>_. 0) cs = cs"
  by (rule nth_equalityI) (auto simp: option.map_ident_strong)

lemma charge_counters_add:
  "charge_counters w (charge_counters v cs) = charge_counters (\<lambda>i. v i + w i) cs"
  by (rule nth_equalityI) (auto simp: option.map_comp comp_def)

lemma charge_0: "charge (\<lambda>_. 0) cc = cc"
  by (simp add: charge_def charge_counters_0)

lemma charge_add: "charge w (charge v cc) = charge (\<lambda>i. v i + w i) cc"
  by (simp add: charge_def charge_counters_add)

lemma charge_simps [simp]:
  "smtLevels (charge v cc) = smtLevels cc" "isDeploy (charge v cc) = isDeploy cc"
  "forkId (charge v cc) = forkId cc" "cc_transaction (charge v cc) = cc_transaction cc"
  "cc_counters (charge v cc) = charge_counters v (cc_counters cc)"
  by (simp_all add: charge_def)

lemma counter_ok_deduct: "counter_ok c \<Longrightarrow> counter_ok (map_option (deduct_counter a) c)"
  by (cases c) (auto simp: counter_ok_def deduct_counter_def)

lemma cc_ok_charge: "cc_ok cc \<Longrightarrow> cc_ok (charge v cc)"
  by (simp add: cc_ok_def list_all_length counter_ok_deduct)

lemma cost_le_0: "0 \<le> n \<Longrightarrow> cost_le n (\<lambda>_. 0)"
  by (simp add: cost_le_def)

lemma uint_add_le: "uint (a + b :: 'a :: len word) \<le> uint a + uint b"
  by (simp add: uint_word_ariths zmod_le_nonneg_dividend)

lemma uint_mult_le: "uint (a * b :: 'a :: len word) \<le> uint a * uint b"
  by (simp add: uint_word_ariths zmod_le_nonneg_dividend)

lemma cost_le_add: "cost_le m v \<Longrightarrow> cost_le n w \<Longrightarrow> cost_le (m + n) (\<lambda>i. v i + w i)"
  unfolding cost_le_def by (meson add_mono order_trans uint_add_le)

lemma cost_le_mono: "cost_le m v \<Longrightarrow> m \<le> n \<Longrightarrow> cost_le n v"
  unfolding cost_le_def by (meson order_trans)

lemma costsI:
  "(\<And>cc. cc_ok cc \<Longrightarrow> \<exists>v. f cc = Inr (charge v cc) \<and> cost_le n v) \<Longrightarrow> costs n f"
  by (simp add: costs_def)

lemma costsE:
  assumes "costs n f" "cc_ok cc"
  obtains v where "f cc = Inr (charge v cc)" "cost_le n v"
  using assms by (auto simp: costs_def)

lemma costs_mono: "costs m f \<Longrightarrow> m \<le> n \<Longrightarrow> costs n f"
  unfolding costs_def by (meson cost_le_mono)

lemma costs_nonneg:
  assumes "costs n f"
  shows "0 \<le> n"
proof -
  define c where "c = \<lparr>remaining = 0, used = 0, counter_name = [], initialAmount = 0\<rparr>"
  define cc where "cc = \<lparr>cc_counters = replicate CounterTypesCount (Some c), smtLevels = 0, isDeploy = False,
    cc_transaction = None, forkId = 0\<rparr>"
  have "cc_ok cc"
    by (simp add: cc_ok_def cc_def c_def counter_ok_def list_all_length)
  then obtain v where "cost_le n v"
    using assms by (auto elim: costsE)
  then show ?thesis
    using uint_ge_0 [of "v 0"] order_trans unfolding cost_le_def by blast
qed

lemma costs_Inr: "0 \<le> n \<Longrightarrow> costs n Inr"
  by (rule costsI) (metis charge_0 cost_le_0)

lemma costs_bind:
  assumes "costs m f" "costs n g"
  shows "costs (m + n) (\<lambda>cc. res_bind (f cc) g)"
proof (rule costsI)
  fix cc
  assume ok: "cc_ok cc"
  obtain v where v: "f cc = Inr (charge v cc)" "cost_le m v"
    using assms(1) ok by (rule costsE)
  obtain w where w: "g (charge v cc) = Inr (charge w (charge v cc))" "cost_le n w"
    using assms(2) cc_ok_charge [OF ok] by (rule costsE)
  show "\<exists>u. res_bind (f cc) g = Inr (charge u cc) \<and> cost_le (m + n) u"
    using v w by (auto simp: charge_add intro!: exI cost_le_add)
qed

lemma key_index_less: "key_index k < CounterTypesCount"
  by (cases k) (simp_all add: CounterTypesCount_def)

lemma Deduct_charge:
  assumes "cc_ok cc"
  shows "Deduct k a cc = Inr (charge (\<lambda>i. if i = key_index k then a else 0) cc)"
proof -
  have less: "key_index k < length (cc_counters cc)"
    using assms key_index_less by (simp add: cc_ok_def)
  moreover obtain c where c: "cc_counters cc ! key_index k = Some c"
    using assms less by (auto simp: cc_ok_def list_all_length counter_ok_def split: option.splits)
  moreover have "(cc_counters cc)[key_index k := Some (deduct_counter a c)] =
      charge_counters (\<lambda>i. if i = key_index k then a else 0) (cc_counters cc)"
    by (rule nth_equalityI) (auto simp: nth_list_update c option.map_ident_strong)
  ultimately show ?thesis
    by (simp add: Deduct_def charge_def)
qed

lemma costs_Deduct: "uint a \<le> n \<Longrightarrow> costs n (Deduct k a)"
  by (rule costsI) (auto simp: Deduct_charge cost_le_def intro!: exI order_trans [OF uint_ge_0])

lemma costs_Nil: "0 \<le> n \<Longrightarrow> costs n (seq [])"
  by (rule costsI) (auto simp: charge_0 intro!: exI [of _ "\<lambda>_. 0"] cost_le_0)

lemma costs_Cons: "costs m f \<Longrightarrow> costs k (seq fs) \<Longrightarrow> m + k \<le> n \<Longrightarrow> costs n (seq (f # fs))"
  using costs_bind [of m f k "seq fs"] by (simp add: costs_def) (meson cost_le_mono)

lemma costs_if: "(b \<Longrightarrow> costs n f) \<Longrightarrow> (\<not> b \<Longrightarrow> costs n g) \<Longrightarrow> costs n (if b then f else g)"
  by simp

lemma costs_when: "(b \<Longrightarrow> costs n f) \<Longrightarrow> 0 \<le> n \<Longrightarrow> costs n (when_op b f)"
  by (simp add: when_op_def costs_Inr)

lemma costs_eta:
  assumes "\<And>cc. cc_ok cc \<Longrightarrow> costs n (seq (L cc))" "\<And>cc. f cc = seq (L cc) cc"
  shows "costs n f"
  using assms by (auto simp: costs_def)

lemma overflow_loop_ok:
  "list_all counter_ok cs \<Longrightarrow> overflow_loop cs = Inr (\<exists>c. Some c \<in> set cs \<and> sint (remaining c) < 0)"
  by (induction cs rule: overflow_loop.induct) (auto simp: counter_ok_def)

definition overflown :: "counter_collector \<Rightarrow> bool" where
  "overflown cc \<longleftrightarrow> (\<exists>c. Some c \<in> set (cc_counters cc) \<and> sint (remaining c) < 0)"

lemma isOverflown_ok: "cc_ok cc \<Longrightarrow> isOverflown cc = Inr (overflown cc)"
  by (simp add: isOverflown_def overflown_def overflow_loop_ok cc_ok_def)

lemma costs_multi_call_loop:
  assumes "costs m f" "0 \<le> m"
  shows "costs (int n * m) (multi_call_loop f n i)"
proof (induction n arbitrary: i)
  case 0
  then show ?case
    using costs_Inr [of 0] by (simp add: costs_def)
next
  case (Suc n)
  have step: "costs (m + int n * m) (\<lambda>cc. res_bind (f cc) (multi_call_loop f n (Suc i)))"
    using assms(1) Suc by (rule costs_bind)
  have "0 \<le> m + int n * m"
    using assms by simp
  show ?case
  proof (rule costsI)
    fix cc
    assume ok: "cc_ok cc"
    show "\<exists>v. multi_call_loop f (Suc n) i cc = Inr (charge v cc) \<and> cost_le (int (Suc n) * m) v"
    proof (cases "i mod 1000 = 0 \<and> overflown cc")
      case True
      then show ?thesis
        using ok assms by (auto simp: isOverflown_ok charge_0 intro!: exI [of _ "\<lambda>_. 0"] cost_le_0)
    next
      case False
      then have "multi_call_loop f (Suc n) i cc = res_bind (f cc) (multi_call_loop f n (Suc i))"
        using ok by (auto simp: isOverflown_ok)
      then show ?thesis
        using costsE [OF step ok] by (metis (no_types, lifting) add.commute distrib_right mult_1 of_nat_Suc)
    qed
  qed
qed

lemma costs_multiCall:
  assumes "costs m f" "0 \<le> m" "sint iterations \<le> k" "0 \<le> k" "k * m \<le> n"
  shows "costs n (multiCall f iterations)"
proof (rule costs_mono)
  show "costs (int (nat (sint iterations)) * m) (multiCall f iterations)"
    unfolding multiCall_def by (rule costs_multi_call_loop [OF assms(1,2)])
  have "int (nat (sint iterations)) * m \<le> k * m"
    using assms by (intro mult_right_mono) auto
  then show "int (nat (sint iterations)) * m \<le> n"
    using assms(5) by simp
qed

lemma costs_repeat_op:
  assumes "costs m f"
  shows "costs (int n * m) (repeat_op n f)"
proof (induction n)
  case 0
  then show ?case
    using costs_Inr [of 0] by (simp add: costs_def)
next
  case (Suc n)
  have "costs (m + int n * m) (\<lambda>cc. res_bind (f cc) (repeat_op n f))"
    using assms(1) Suc by (rule costs_bind)
  then show ?case
    by (simp add: costs_def algebra_simps)
qed

section \<open>Overflow is not lost\<close>

text \<open>\<open>room n cc\<close>: a further cost of \<open>n\<close> cannot wrap any remaining amount round.\<close>

definition room :: "int \<Rightarrow> counter_collector \<Rightarrow> bool" where
  "room n cc \<longleftrightarrow> n < 2 ^ 63 \<and> (\<forall>c. Some c \<in> set (cc_counters cc) \<longrightarrow> n - 2 ^ 63 \<le> sint (remaining c))"

lemma sint_minus_exact:
  fixes a r :: gint
  assumes "uint a \<le> n" "n < 2 ^ 63" "n - 2 ^ 63 \<le> sint r"
  shows "sint (r - a) = sint r - uint a"
proof -
  have small: "k < 2 ^ 63 \<Longrightarrow> s < 2 ^ 63 \<Longrightarrow> k - 2 ^ 63 \<le> s \<Longrightarrow> 0 \<le> u \<Longrightarrow> u \<le> k \<Longrightarrow>
      - (2 ^ 63) \<le> s - u \<and> s - u < 2 ^ 63 \<and> - (2 ^ 63) \<le> u \<and> u < 2 ^ 63" for k s u :: int
    by linarith
  have range: "- (2 ^ 63) \<le> sint r - uint a" "sint r - uint a < 2 ^ 63" "- (2 ^ 63) \<le> uint a" "uint a < 2 ^ 63"
    using small [OF assms(2) _ assms(3) uint_ge_0 assms(1)] sint_lt [of r] by simp_all
  then have "sint a = uint a"
    by (simp add: sint_uint signed_take_bit_int_eq_self_iff)
  then show ?thesis
    using range by (simp add: sint_word_ariths signed_take_bit_int_eq_self_iff)
qed

lemma charge_memE:
  assumes "Some c' \<in> set (cc_counters (charge v cc))"
  obtains i c where "i < length (cc_counters cc)" "cc_counters cc ! i = Some c" "c' = deduct_counter (v i) c"
  using assms by (auto simp: in_set_conv_nth)

lemma charge_mem:
  assumes "i < length (cc_counters cc)" "cc_counters cc ! i = Some c"
  shows "Some (deduct_counter (v i) c) \<in> set (cc_counters (charge v cc))"
  using assms by (auto simp: in_set_conv_nth intro!: exI [of _ i])

lemma remaining_charge:
  assumes "room n cc" "cost_le n v" "i < length (cc_counters cc)" "cc_counters cc ! i = Some c"
  shows "sint (remaining (deduct_counter (v i) c)) = sint (remaining c) - uint (v i)"
proof -
  have "Some c \<in> set (cc_counters cc)"
    using assms(3,4) by (metis nth_mem)
  then show ?thesis
    using assms sint_minus_exact [of "v i" n "remaining c"]
    by (auto simp: room_def cost_le_def deduct_counter_def)
qed

lemma overflown_charge:
  assumes "overflown cc" "room n cc" "cost_le n v"
  shows "overflown (charge v cc)"
proof -
  obtain i c where i: "i < length (cc_counters cc)" "cc_counters cc ! i = Some c" "sint (remaining c) < 0"
    using assms(1) by (auto simp: overflown_def in_set_conv_nth)
  then have "sint (remaining (deduct_counter (v i) c)) < 0"
    using remaining_charge [OF assms(2,3) i(1,2)] uint_ge_0 [of "v i"] by linarith
  then show ?thesis
    using charge_mem [OF i(1,2)] by (auto simp: overflown_def)
qed

lemma room_charge:
  assumes "room (m + n) cc" "cost_le m v" "0 \<le> m" "0 \<le> n"
  shows "room n (charge v cc)"
proof -
  have le: "cost_le (m + n) v"
    using assms(2,4) by (auto intro: cost_le_mono)
  show ?thesis
    unfolding room_def
  proof (intro conjI allI impI)
    show "n < 2 ^ 63"
      using assms by (simp add: room_def)
    fix c'
    assume "Some c' \<in> set (cc_counters (charge v cc))"
    then obtain i c where i: "i < length (cc_counters cc)" "cc_counters cc ! i = Some c"
      "c' = deduct_counter (v i) c"
      by (rule charge_memE)
    moreover have "Some c \<in> set (cc_counters cc)"
      using i by (metis nth_mem)
    moreover have "uint (v i) \<le> m"
      using assms(2) by (simp add: cost_le_def)
    ultimately show "n - 2 ^ 63 \<le> sint (remaining c')"
      using assms(1) remaining_charge [OF assms(1) le i(1,2)] unfolding room_def by fastforce
  qed
qed

lemma room_mono: "room n cc \<Longrightarrow> m \<le> n \<Longrightarrow> room m cc"
  unfolding room_def by fastforce

text \<open>
  The early exit of \<^verbatim>\<open>multiCall\<close> never changes the verdict: the loop that stops as soon as it sees an overflow
  and the loop that runs to the end both overflow, or give the same counters.
\<close>

lemma multi_call_loop_verdict:
  assumes "costs m f" "0 \<le> m" "cc_ok cc" "room (int n * m) cc"
  shows "\<exists>c1 c2. multi_call_loop f n i cc = Inr c1 \<and> repeat_op n f cc = Inr c2 \<and>
    (c1 = c2 \<or> overflown c1 \<and> overflown c2)"
  using assms(3,4)
proof (induction n arbitrary: i cc)
  case 0
  then show ?case by simp
next
  case (Suc n)
  obtain v where v: "f cc = Inr (charge v cc)" "cost_le m v"
    using assms(1) Suc.prems(1) by (rule costsE)
  have room': "room (int n * m) (charge v cc)"
    using Suc.prems(2) v(2) assms(2) by (intro room_charge [of m]) (auto simp: algebra_simps)
  obtain w where w: "repeat_op (Suc n) f cc = Inr (charge w cc)" "cost_le (int (Suc n) * m) w"
    using costsE [OF costs_repeat_op [OF assms(1)] Suc.prems(1)] by metis
  show ?case
  proof (cases "i mod 1000 = 0 \<and> overflown cc")
    case True
    then show ?thesis
      using w Suc.prems overflown_charge [of cc "int (Suc n) * m" w] by (simp add: isOverflown_ok)
  next
    case False
    then show ?thesis
      using Suc.IH [OF cc_ok_charge [OF Suc.prems(1)] room'] v(1) Suc.prems(1)
      by (auto simp: isOverflown_ok)
  qed
qed

end
