(* ===== verification/Zk_Charges.thy ===== *)
theory Zk_Charges
  imports Zk_Counters
begin

text \<open>
  The charges of \<^verbatim>\<open>src/core/vm/zk_counters.go\<close> that the opcodes and the transaction handling share, one definition for
  each method of the collector, callees first, and a bound on what each of them costs.
\<close>

definition offsetUtil :: cc_op where
  "offsetUtil = seq
     [Deduct S 10, Deduct B 1]"

definition divArith :: cc_op where
  "divArith = seq
     [Deduct S 40, Deduct B 3, Deduct A 1]"

definition SHRarith :: cc_op where
  "SHRarith = seq
     [Deduct S 40, Deduct B 2, Deduct A 1, divArith]"

definition SHLarith :: cc_op where
  "SHLarith = seq
     [Deduct S 40, Deduct B 2, Deduct A 2]"

definition mLoadX :: cc_op where
  "mLoadX = seq
     [Deduct S 30, Deduct B 2, Deduct M 1, offsetUtil, SHRarith, SHLarith]"

definition addBatchHashData :: cc_op where
  "addBatchHashData = seq
     [Deduct S 10]"

definition getLenBytes :: "gint \<Rightarrow> cc_op" where
  "getLenBytes l = seq
     [Deduct S (l * 7 + 12), Deduct B (l * 1), multiCall SHRarith l]"

definition addHashTx :: cc_op where
  "addHashTx = seq
     [Deduct S 10]"

definition addL2HashTx :: cc_op where
  "addL2HashTx = seq
     [Deduct S 10]"

definition addBatchHashByteByByte :: cc_op where
  "addBatchHashByteByByte = seq
     [Deduct S 25, Deduct B 1, SHRarith, addBatchHashData]"

definition failAssert :: cc_op where
  "failAssert = seq
     [Deduct S 2]"

definition consolidateBlock :: cc_op where
  "consolidateBlock = seq
     [Deduct S 20, Deduct B 2, Deduct P (2 * MCPL)]"

definition finishBatchProcessing :: cc_op where
  "finishBatchProcessing cc = seq
     [Deduct S 200, Deduct K 2, Deduct P (smtLevels cc), Deduct B 2] cc"

definition isColdAddress :: cc_op where
  "isColdAddress cc = seq
     [Deduct S 100,
      if forkId cc \<ge> ForkId13Durian then Deduct B (3 + 1) else Deduct B (2 + 1),
      Deduct P (2 * MCPL)] cc"

definition addArith :: cc_op where
  "addArith = seq
     [Deduct S 10, Deduct B 1]"

definition subArith :: cc_op where
  "subArith = seq
     [Deduct S 10, Deduct B 1]"

definition mulArith :: cc_op where
  "mulArith = seq
     [Deduct S 40, Deduct B 1, Deduct A 1]"

definition fillBlockInfoTreeWithTxReceipt :: cc_op where
  "fillBlockInfoTreeWithTxReceipt = seq
     [Deduct S 20, Deduct P (3 * MCPL)]"

definition moveBalances :: "gint \<Rightarrow> cc_op" where
  "moveBalances levels = seq
     [Deduct S 25, Deduct B (3 + 2), Deduct P (4 * levels)]"

definition checkBytecodeStartsEF :: cc_op where
  "checkBytecodeStartsEF = seq
     [Deduct S 20, mLoadX, SHRarith]"

definition mLoad32 :: cc_op where
  "mLoad32 = seq
     [Deduct S 40, Deduct B 2, Deduct M 1, offsetUtil, SHRarith, SHLarith]"

definition hashPoseidonLinearFromMemoryLoop :: cc_op where
  "hashPoseidonLinearFromMemoryLoop = seq
     [Deduct S 8, mLoad32]"

definition hashPoseidonLinearFromMemory :: "gint \<Rightarrow> cc_op" where
  "hashPoseidonLinearFromMemory memSize = seq
     [Deduct S 50, Deduct B (1 + 1), Deduct P (ceil_div (memSize + 1) 56), Deduct D (ceil_div (memSize +
     1) 56), divArith, multiCall hashPoseidonLinearFromMemoryLoop (signed_drop_bit 5 memSize), mLoadX,
     SHRarith]"

definition maskAddress :: cc_op where
  "maskAddress = seq
     [Deduct S 6, Deduct B 1]"

definition processContractCall :: "gint \<Rightarrow> gint \<Rightarrow> bool \<Rightarrow> bool \<Rightarrow> bool \<Rightarrow> cc_op" where
  "processContractCall levels bytecodeLength deploying isCreate isCreate2 = seq
     [Deduct S 40, Deduct B (4 + 1), Deduct P 1, Deduct D 1, Deduct P (2 * levels), moveBalances levels,
      if deploying \<or> isCreate \<or> isCreate2 then seq
        [Deduct S 15, Deduct B 2, Deduct P (2 * levels), checkBytecodeStartsEF,
         hashPoseidonLinearFromMemory bytecodeLength,
         if isCreate then seq [Deduct S 40, Deduct K 1, maskAddress]
         else if isCreate2 then seq
           [Deduct S 40, divArith, Deduct K (ceil_div_plus (bytecodeLength + 1) 136 1),
            multiCall mLoad32 (signed_drop_bit 5 bytecodeLength), mLoadX, SHRarith, Deduct K 1, maskAddress]
         else Inr]
      else seq
        [Deduct P (ceil_div (bytecodeLength + 1) 56), Deduct D (ceil_div (bytecodeLength + 1) 56),
         when_op (sint bytecodeLength \<ge> 56) divArith]]"

definition setupNewBlockInfoTree :: cc_op where
  "setupNewBlockInfoTree = seq
     [Deduct S 40, Deduct B 7, Deduct P (6 * MCPL)]"

definition verifyMerkleProof :: cc_op where
  "verifyMerkleProof = seq
     [Deduct S 250, Deduct B 1, Deduct K 33]"

definition processChangeL2Block :: "bool \<Rightarrow> cc_op" where
  "processChangeL2Block verify cc = seq
     [Deduct S 70, Deduct B (4 + 4), Deduct P (6 * smtLevels cc), Deduct K 2, consolidateBlock,
      setupNewBlockInfoTree, when_op verify verifyMerkleProof] cc"

definition readFromCallDataOffset :: cc_op where
  "readFromCallDataOffset = seq
     [Deduct S 25, mLoadX]"

definition mStore32 :: cc_op where
  "mStore32 = seq
     [Deduct S 80, Deduct B 1, Deduct M 1, offsetUtil, multiCall SHRarith 2, multiCall SHLarith 2]"

definition mStoreX :: cc_op where
  "mStoreX = seq
     [Deduct S 80, Deduct B 1, Deduct M 1, offsetUtil, multiCall SHRarith 2, multiCall SHLarith 2]"

definition ecAdd :: cc_op where
  "ecAdd = seq
     [Deduct S 800, Deduct B 50, Deduct A 50]"

definition preECAdd :: cc_op where
  "preECAdd = seq
     [Deduct S 50, Deduct B 1, multiCall readFromCallDataOffset 4, multiCall mStore32 4, mStoreX, ecAdd]"

definition decodeChangeL2BlockTx :: cc_op where
  "decodeChangeL2BlockTx = seq
     [Deduct S 20, multiCall addBatchHashData 3]"

definition ecMul :: cc_op where
  "ecMul = seq
     [Deduct S 175000, Deduct B 20000, Deduct A 20000]"

definition preECMul :: cc_op where
  "preECMul = seq
     [Deduct S 50, Deduct B 1, multiCall readFromCallDataOffset 3, multiCall mStore32 4, mStoreX, ecMul]"

definition ecPairing :: "gint \<Rightarrow> cc_op" where
  "ecPairing inputsCount = seq
     [Deduct S (16 + inputsCount * 200000 + 175000), Deduct B (inputsCount * 4100 + 750), Deduct A
     (inputsCount * 15000 + 17500)]"

definition preECPairing :: "gint \<Rightarrow> cc_op" where
  "preECPairing inputsCount = seq
     [Deduct S 50, Deduct B 1, multiCall readFromCallDataOffset 6, divArith, mStore32, mStoreX, ecPairing
     inputsCount]"

definition preModExpLoop :: cc_op where
  "preModExpLoop = seq
     [Deduct S 8, mStore32]"

definition preSha256Loop :: cc_op where
  "preSha256Loop = seq
     [Deduct S 11, readFromCallDataOffset]"

definition preSha256 :: "gint \<Rightarrow> cc_op" where
  "preSha256 callDataLength = seq
     [Deduct S 100, Deduct B 1, Deduct SHA (ceil_div (callDataLength + 8) 64), multiCall divArith 2,
     mStore32, mStoreX, multiCall preSha256Loop (signed_drop_bit 5 callDataLength),
     readFromCallDataOffset, SHRarith]"

definition identityLoop :: cc_op where
  "identityLoop = seq
     [Deduct S 8, readFromCallDataOffset, mStore32]"

definition identityReturnLoop :: cc_op where
  "identityReturnLoop = seq
     [Deduct S 12, mLoad32, mStore32]"

definition preIdentity :: "gint \<Rightarrow> gint \<Rightarrow> cc_op" where
  "preIdentity callDataLength returnDataLength = seq
     [Deduct S 45, Deduct B 2, divArith, multiCall identityLoop (signed_drop_bit 5 callDataLength),
     readFromCallDataOffset, mStoreX, multiCall identityReturnLoop (signed_drop_bit 5 returnDataLength),
     mLoadX, mStoreX]"

definition cc_abs :: cc_op where
  "cc_abs = seq
     [Deduct S 10, Deduct B 2]"

definition utilMulMod :: cc_op where
  "utilMulMod = seq
     [Deduct S 50, Deduct B 4, Deduct A 2, mulArith]"

definition getLenBits :: "gint \<Rightarrow> cc_op" where
  "getLenBits inputLength = seq
     [Deduct S 12, repeat_op (nat (sint inputLength)) (seq [Deduct S 9, Deduct B 1, divArith])]"

definition expAd :: "gint \<Rightarrow> cc_op" where
  "expAd inputLength = seq
     [Deduct S 30, Deduct B 2, getLenBits inputLength,
      repeat_op (nat (sint inputLength)) (seq [Deduct S 12, Deduct B 2, divArith, mulArith, mulArith])]"

definition saveMem :: "gint \<Rightarrow> cc_op" where
  "saveMem inputSize =
     (if inputSize = 0 then seq [Deduct S 12, Deduct B 1]
      else seq [Deduct S 50, Deduct B 5, mulArith, divArith])"

definition opCalldataCopyLoop :: cc_op where
  "opCalldataCopyLoop = seq
     [Deduct S 30, readFromCallDataOffset, offsetUtil, Deduct M 1]"

definition opCodeCopyLoop :: cc_op where
  "opCodeCopyLoop = seq
     [Deduct S 30, Deduct B 2, Deduct M 1, offsetUtil]"

definition returnDataCopyLoop :: cc_op where
  "returnDataCopyLoop = seq
     [Deduct S 10, mLoad32, mStore32]"

definition shrArithBit :: cc_op where
  "shrArithBit = seq
     [Deduct S 30, Deduct B 2, divArith]"

definition shlArithBit :: cc_op where
  "shlArithBit = seq
     [Deduct S 50, Deduct B 2, Deduct A 2]"

definition computeGasSendCall :: cc_op where
  "computeGasSendCall = seq
     [Deduct S 25, Deduct B 2]"

definition saveCalldataPointer :: cc_op where
  "saveCalldataPointer = seq
     [Deduct S 6]"

definition checkpointBlockInfoTree :: cc_op where
  "checkpointBlockInfoTree = seq
     [Deduct S 4]"

definition checkpointTouched :: cc_op where
  "checkpointTouched = seq
     [Deduct S 2]"

definition isEmptyAccount :: cc_op where
  "isEmptyAccount cc = seq
     [Deduct S 30, Deduct B 3, Deduct P (3 * smtLevels cc)] cc"

definition returnLoop :: cc_op where
  "returnLoop = seq
     [Deduct S 12, mLoad32, mStore32]"

definition revertTouched :: cc_op where
  "revertTouched = seq
     [Deduct S 2]"

definition revertBlockInfoTree :: cc_op where
  "revertBlockInfoTree = seq
     [Deduct S 4]"

definition revertLoop :: cc_op where
  "revertLoop = seq
     [Deduct S 12, mLoad32, mStore32]"

definition sha3Loop :: cc_op where
  "sha3Loop = seq
     [Deduct S 8, mLoad32]"

definition logLoop :: cc_op where
  "logLoop = seq
     [Deduct S 10, mLoad32]"

definition fillBlockInfoTreeWithLog :: cc_op where
  "fillBlockInfoTreeWithLog = seq
     [Deduct S 11, Deduct P MCPL, Deduct B 1]"

definition isColdSlot :: cc_op where
  "isColdSlot = seq
     [Deduct S 20, Deduct B 1, Deduct P (2 * MCPL)]"

section \<open>What the charges cost\<close>

text \<open>
  The bounds are found by adding up: the cost of a sequence is the sum of the costs of its statements, each
  taken from the collection \<open>costs\<close>.
\<close>

lemma costs_Cons_exact [costs]: "costs m f \<Longrightarrow> costs k (seq fs) \<Longrightarrow> costs (m + k) (seq (f # fs))"
  by (rule costs_Cons) auto

lemma costs_Deduct_exact [costs]: "costs (uint a) (Deduct k a)"
  by (simp add: costs_Deduct)

lemma costs_Nil_exact [costs]: "costs 0 (seq [])"
  by (simp add: costs_Nil)

lemma costs_multiCall_exact [costs]:
  "costs m f \<Longrightarrow> costs (int (nat (sint iterations)) * m) (multiCall f iterations)"
  by (rule costs_multiCall [of m f _ "int (nat (sint iterations))"]) (auto dest: costs_nonneg)

lemma costs_Inr_exact [costs]: "costs 0 Inr"
  by (simp add: costs_Inr)

lemma costs_if_exact [costs]:
  "costs m f \<Longrightarrow> costs n g \<Longrightarrow> costs (max m n) (if b then f else g)"
  by (cases b) (auto intro: costs_mono)

lemma costs_when_exact [costs]: "costs n f \<Longrightarrow> costs n (when_op b f)"
  by (rule costs_when) (auto dest: costs_nonneg)

lemma uint_numeral_le: "uint (numeral c :: 'a :: len word) \<le> numeral c"
proof -
  have "uint (word_of_int (numeral c) :: 'a word) \<le> numeral c"
    unfolding uint_word_of_int by (rule zmod_le_nonneg_dividend) simp
  then show ?thesis
    by (simp only: of_int_numeral)
qed

lemma costs_levels:
  "cc_ok cc \<Longrightarrow> costs 65535 (Deduct k (smtLevels cc))"
  "cc_ok cc \<Longrightarrow> costs (numeral c * 65535) (Deduct k (numeral c * smtLevels cc))"
proof -
  assume "cc_ok cc"
  then have le: "uint (smtLevels cc) \<le> 65535"
    by (simp add: cc_ok_def)
  then show "costs 65535 (Deduct k (smtLevels cc))"
    by (rule costs_Deduct)
  have "uint (numeral c * smtLevels cc) \<le> uint (numeral c :: gint) * uint (smtLevels cc)"
    by (rule uint_mult_le)
  also have "\<dots> \<le> numeral c * 65535"
  proof (rule mult_mono)
    show "uint (numeral c :: gint) \<le> numeral c"
      by (rule uint_numeral_le)
  qed (use le in simp_all)
  finally show "costs (numeral c * 65535) (Deduct k (numeral c * smtLevels cc))"
    by (rule costs_Deduct)
qed

lemma costs_isColdAddress [costs]: "costs 150 isColdAddress"
  by (rule costs_eta [OF _ isColdAddress_def]) (rule costs_mono, (rule costs)+, simp add: MCPL_def)

lemma costs_layer0 [costs]:
  "costs 11 offsetUtil"
  "costs 44 divArith"
  "costs 44 SHLarith"
  "costs 10 addBatchHashData"
  "costs 10 addHashTx"
  "costs 10 addL2HashTx"
  "costs 2 failAssert"
  "costs 68 consolidateBlock"
  "costs 11 addArith"
  "costs 11 subArith"
  "costs 42 mulArith"
  "costs 89 fillBlockInfoTreeWithTxReceipt"
  "costs 7 maskAddress"
  "costs 185 setupNewBlockInfoTree"
  "costs 284 verifyMerkleProof"
  "costs 900 ecAdd"
  "costs 215000 ecMul"
  "costs 12 cc_abs"
  "costs 54 shlArithBit"
  "costs 27 computeGasSendCall"
  "costs 6 saveCalldataPointer"
  "costs 4 checkpointBlockInfoTree"
  "costs 2 checkpointTouched"
  "costs 2 revertTouched"
  "costs 4 revertBlockInfoTree"
  "costs 35 fillBlockInfoTreeWithLog"
  "costs 67 isColdSlot"
  unfolding offsetUtil_def divArith_def SHLarith_def addBatchHashData_def addHashTx_def addL2HashTx_def
    failAssert_def consolidateBlock_def addArith_def subArith_def mulArith_def
    fillBlockInfoTreeWithTxReceipt_def maskAddress_def setupNewBlockInfoTree_def
    verifyMerkleProof_def ecAdd_def ecMul_def cc_abs_def shlArithBit_def computeGasSendCall_def
    saveCalldataPointer_def checkpointBlockInfoTree_def checkpointTouched_def revertTouched_def
    revertBlockInfoTree_def fillBlockInfoTreeWithLog_def isColdSlot_def
  by (rule costs_mono, (rule costs)+, simp add: MCPL_def)+

lemma costs_finishBatchProcessing [costs]: "costs 65739 finishBatchProcessing"
  by (rule costs_eta [OF _ finishBatchProcessing_def]) (rule costs_mono, (rule costs_levels costs | assumption)+, simp add: MCPL_def)

lemma costs_isEmptyAccount [costs]: "costs 196638 isEmptyAccount"
  by (rule costs_eta [OF _ isEmptyAccount_def]) (rule costs_mono, (rule costs_levels costs | assumption)+, simp add: MCPL_def)

lemma costs_layer1 [costs]:
  "costs 87 SHRarith"
  "costs 50 decodeChangeL2BlockTx"
  "costs 98 utilMulMod"
  "costs 44 opCodeCopyLoop"
  "costs 76 shrArithBit"
  unfolding SHRarith_def decodeChangeL2BlockTx_def utilMulMod_def opCodeCopyLoop_def shrArithBit_def
  by (rule costs_mono, (rule costs)+, simp add: MCPL_def)+

lemma costs_layer2 [costs]:
  "costs 175 mLoadX"
  "costs 123 addBatchHashByteByByte"
  "costs 185 mLoad32"
  "costs 355 mStore32"
  "costs 355 mStoreX"
  unfolding mLoadX_def addBatchHashByteByByte_def mLoad32_def mStore32_def mStoreX_def
  by (rule costs_mono, (rule costs)+, simp add: MCPL_def)+

lemma costs_layer3 [costs]:
  "costs 282 checkBytecodeStartsEF"
  "costs 193 hashPoseidonLinearFromMemoryLoop"
  "costs 200 readFromCallDataOffset"
  "costs 363 preModExpLoop"
  "costs 552 identityReturnLoop"
  "costs 550 returnDataCopyLoop"
  "costs 552 returnLoop"
  "costs 552 revertLoop"
  "costs 193 sha3Loop"
  "costs 195 logLoop"
  unfolding checkBytecodeStartsEF_def hashPoseidonLinearFromMemoryLoop_def readFromCallDataOffset_def
    preModExpLoop_def identityReturnLoop_def returnDataCopyLoop_def returnLoop_def
    revertLoop_def sha3Loop_def logLoop_def
  by (rule costs_mono, (rule costs)+, simp add: MCPL_def)+

lemma costs_layer4 [costs]:
  "costs 3526 preECAdd"
  "costs 217426 preECMul"
  "costs 211 preSha256Loop"
  "costs 563 identityLoop"
  "costs 242 opCalldataCopyLoop"
  unfolding preECAdd_def preECMul_def preSha256Loop_def identityLoop_def opCalldataCopyLoop_def
  by (rule costs_mono, (rule costs)+, simp add: MCPL_def)+


text \<open>
  Charges that depend on a length. Lengths are up to \<open>2 ^ 32\<close>: more than any memory or code that gas
  can pay for.
\<close>

definition small :: "gint \<Rightarrow> bool" where
  "small x \<longleftrightarrow> uint x \<le> 2 ^ 32"

lemma sint_uint_small: "uint (x :: gint) < 2 ^ 63 \<Longrightarrow> sint x = uint x"
  by (simp add: sint_uint signed_take_bit_int_eq_self order_trans [OF _ uint_ge_0])

lemma small_sint: "small x \<Longrightarrow> sint x = uint x"
  by (rule sint_uint_small) (simp add: small_def)

lemma small_shift: "small x \<Longrightarrow> sint (signed_drop_bit 5 x) \<le> 2 ^ 27"
  using small_sint [of x] by (auto simp: sint_signed_drop_bit_eq drop_bit_eq_div small_def)

lemma small_shift_1: "small x \<Longrightarrow> sint (signed_drop_bit 5 (x + 1)) \<le> 2 ^ 27"
  using uint_add_le [of x 1] sint_uint_small [of "x + 1"]
  by (auto simp: sint_signed_drop_bit_eq drop_bit_eq_div small_def)

lemma uint_word_of_int_le: "0 \<le> n \<Longrightarrow> uint (word_of_int n :: gint) \<le> n"
  by (simp only: uint_word_of_int zmod_le_nonneg_dividend)

lemma uint_ceil_div:
  assumes "uint x \<le> n" "n < 2 ^ 53" "0 < b"
  shows "uint (ceil_div x b) \<le> n"
proof -
  have x: "sint x = uint x"
    using assms by (simp add: sint_uint_small)
  then have "ceil_div x b = word_of_int (- (- uint x div b))"
    using assms ceil_div_exact [of x b] by simp
  then have "uint (ceil_div x b) \<le> - (- uint x div b)"
    using uint_word_of_int_le [OF ceil_nonneg_le(1) [OF uint_ge_0 assms(3), of x]] by simp
  then show ?thesis
    using ceil_nonneg_le(2) [OF uint_ge_0 assms(3), of x] assms(1) by linarith
qed

lemma uint_ceil_div_plus:
  assumes "uint x \<le> n" "n < 2 ^ 52" "0 < b" "0 \<le> c" "c < 2 ^ 52"
  shows "uint (ceil_div_plus x b c) \<le> n + c"
proof -
  have x: "sint x = uint x"
    using assms by (simp add: sint_uint_small)
  then have "ceil_div_plus x b c = word_of_int (- (- uint x div b) + c)"
    using assms ceil_div_plus_exact [of x b c] by simp
  then have "uint (ceil_div_plus x b c) \<le> - (- uint x div b) + c"
    using uint_word_of_int_le [of "- (- uint x div b) + c"]
      ceil_nonneg_le(1) [OF uint_ge_0 assms(3), of x] assms(4) by simp
  then show ?thesis
    using ceil_nonneg_le(2) [OF uint_ge_0 assms(3), of x] assms(1) by linarith
qed

text \<open>The bounds for amounts and repetitions that come from a length.\<close>

lemma costs_shift:
  assumes "small x" "costs m f"
  shows "costs (2 ^ 27 * m) (multiCall f (signed_drop_bit 5 x))"
  by (rule costs_multiCall [OF assms(2) costs_nonneg [OF assms(2)] small_shift [OF assms(1)]]) auto

lemma costs_shift_1:
  assumes "small x" "costs m f"
  shows "costs (2 ^ 27 * m) (multiCall f (signed_drop_bit 5 (x + 1)))"
  by (rule costs_multiCall [OF assms(2) costs_nonneg [OF assms(2)] small_shift_1 [OF assms(1)]]) auto

lemma costs_times:
  assumes "small x" "costs m f"
  shows "costs (2 ^ 32 * m) (multiCall f x)"
  by (rule costs_multiCall [OF assms(2) costs_nonneg [OF assms(2)], of x "2 ^ 32"])
    (use small_sint [OF assms(1)] assms(1) in \<open>auto simp: small_def\<close>)

lemma costs_ceil:
  "small x \<Longrightarrow> costs (2 ^ 32) (Deduct k (ceil_div x (numeral b)))"
  "small x \<Longrightarrow> costs (2 ^ 32 + 1) (Deduct k (ceil_div (x + 1) (numeral b)))"
  "small x \<Longrightarrow> costs (2 ^ 32 + 8) (Deduct k (ceil_div (x + 8) (numeral b)))"
  using uint_add_le [of x 1] uint_add_le [of x 8]
  by (auto intro!: costs_Deduct uint_ceil_div simp: small_def)

lemma costs_ceil_plus:
  "small x \<Longrightarrow> costs (2 ^ 32 + 4) (Deduct k (ceil_div_plus x (numeral b) 4))"
  "small x \<Longrightarrow> costs (2 ^ 32 + 4) (Deduct k (ceil_div_plus (x + 1) (numeral b) 1))"
  "small x \<Longrightarrow> costs (2 ^ 32 + 4) (Deduct k (ceil_div_plus (x + 1) (numeral b) 3))"
  using uint_add_le [of x 1] uint_ceil_div_plus [of x "2 ^ 32" "numeral b" 4]
    uint_ceil_div_plus [of "x + 1" "2 ^ 32 + 1" "numeral b" 1]
    uint_ceil_div_plus [of "x + 1" "2 ^ 32 + 1" "numeral b" 3]
  by (auto intro!: costs_Deduct simp: small_def)

lemmas costs_length = costs_shift costs_shift_1 costs_times costs_ceil costs_ceil_plus

lemma costs_saveMem [costs]: "costs 141 (saveMem n)"
  unfolding saveMem_def by (rule costs_mono, (rule costs)+, simp)

lemma costs_getLenBytes:
  assumes "small n"
  shows "costs (95 * 2 ^ 32 + 12) (getLenBytes n)"
proof -
  have "uint (n * 7 + 12) \<le> 7 * 2 ^ 32 + 12" "uint (n * 1) \<le> 2 ^ 32"
    using uint_add_le [of "n * 7" 12] uint_mult_le [of n 7] assms by (auto simp: small_def)
  then show ?thesis
    unfolding getLenBytes_def
    by (intro costs_mono [OF costs_Cons_exact [OF costs_Deduct costs_Cons_exact [OF costs_Deduct
          costs_Cons_exact [OF costs_times [OF assms]]]]]) (assumption | rule costs | simp)+
qed

lemma costs_four_levels:
  "uint n < 2 ^ 16 \<Longrightarrow> costs (2 * 65535) (Deduct k (2 * n))"
  "uint n < 2 ^ 16 \<Longrightarrow> costs (4 * 65535) (Deduct k (4 * n))"
  "uint n < 2 ^ 16 \<Longrightarrow> costs (14 * 65535) (Deduct k (14 * n))"
  using uint_mult_le [of 2 n] uint_mult_le [of 4 n] uint_mult_le [of 14 n] by (auto intro!: costs_Deduct)

lemma costs_moveBalances: "uint n < 2 ^ 16 \<Longrightarrow> costs (30 + 4 * 65535) (moveBalances n)"
  unfolding moveBalances_def
  by (rule costs_mono, (rule costs_four_levels costs | assumption)+, simp)

lemma costs_hashPoseidonLinearFromMemory:
  "small n \<Longrightarrow> costs (2 ^ 36) (hashPoseidonLinearFromMemory n)"
  unfolding hashPoseidonLinearFromMemory_def
  by (rule costs_mono, ((rule costs_length, assumption) | rule costs)+, simp)

lemma costs_processContractCall:
  assumes "uint n < 2 ^ 16" "small len"
  shows "costs (2 ^ 38) (processContractCall n len d c c2)"
  unfolding processContractCall_def using assms
  by (intro costs_mono [where n = "2 ^ 38"])
    (((rule costs_four_levels costs_moveBalances costs_hashPoseidonLinearFromMemory costs_length, assumption) |
       rule costs)+, simp)

lemma costs_preSha256: "small n \<Longrightarrow> costs (2 ^ 36) (preSha256 n)"
  unfolding preSha256_def
  by (rule costs_mono, ((rule costs_length, assumption) | rule costs)+, simp)

lemma costs_preIdentity: "small n \<Longrightarrow> small m \<Longrightarrow> costs (2 ^ 38) (preIdentity n m)"
  unfolding preIdentity_def
  by (rule costs_mono, ((rule costs_length, assumption) | rule costs)+, simp)

lemma costs_getLenBits [costs]: "costs (12 + int (nat (sint n)) * 54) (getLenBits n)"
  unfolding getLenBits_def
  by (rule costs_mono, (rule costs costs_repeat_op | (simp; fail))+)

lemma costs_expAd: "0 \<le> sint n \<Longrightarrow> sint n \<le> 2 ^ 32 \<Longrightarrow> costs (2 ^ 40) (expAd n)"
  unfolding expAd_def
  by (rule costs_mono, (rule costs costs_repeat_op | (simp; fail))+)

lemma costs_processChangeL2Block [costs]: "costs 393827 (processChangeL2Block b)"
  by (rule costs_eta [OF _ processChangeL2Block_def])
    (rule costs_mono, (rule costs_levels costs | assumption)+, simp add: MCPL_def)


end
