(* ===== verification/Zk_Opcodes.thy ===== *)
theory Zk_Opcodes
  imports Zk_Charges
begin

text \<open>
  What each EVM opcode costs the prover, \<^verbatim>\<open>src/core/vm/zk_counters.go\<close>: one definition for each handler \<^verbatim>\<open>op...\<close> of the
  collector, the table \<^verbatim>\<open>SimpleCounterOperations\<close> that assigns them to the opcodes and the wrapper that runs a handler
  before the instruction. A handler sees the call frame (\<^verbatim>\<open>ScopeContext\<close>: the stack, top last, and what is asked of the
  contract) and two lookups in the state of the block.
\<close>

section \<open>What a handler sees\<close>

record scope =
  Stack_Data :: "256 word list"
  IsCreate :: bool
  IsCreate2 :: bool
  CallerAddress :: "160 word"

record intra_block_state =
  ibs_GetCodeSize :: "160 word \<Rightarrow> gint"
  ibs_GetNonce :: "160 word \<Rightarrow> u64"

definition PeekAt :: "scope \<Rightarrow> nat \<Rightarrow> 256 word res" where
  "PeekAt s position =
     (if 0 < position \<and> position \<le> length (Stack_Data s)
      then Inr (Stack_Data s ! (length (Stack_Data s) - position))
      else Inl (Panic ''index out of range''))"

text \<open>\<^verbatim>\<open>int(scope.Stack.PeekAt(p).Uint64())\<close> and \<^verbatim>\<open>PeekAt(p).Bytes20()\<close>, and what follows.\<close>

definition with_size :: "scope \<Rightarrow> nat \<Rightarrow> (gint \<Rightarrow> cc_op) \<Rightarrow> cc_op" where
  "with_size s position k cc = res_bind (PeekAt s position) (\<lambda>x. k (ucast x) cc)"

definition with_address :: "scope \<Rightarrow> nat \<Rightarrow> (160 word \<Rightarrow> cc_op) \<Rightarrow> cc_op" where
  "with_address s position k cc = res_bind (PeekAt s position) (\<lambda>x. k (ucast x) cc)"

text \<open>The number of bytes from the first that is not zero; all of them when there is none.\<close>

fun leading_zeros :: "bytes \<Rightarrow> nat" where
  "leading_zeros [] = 0"
| "leading_zeros (b # bs) = (if b = 0 then Suc (leading_zeros bs) else 0)"

definition getRelevantNumberBytes :: "bytes \<Rightarrow> gint" where
  "getRelevantNumberBytes input =
     of_nat (length input - (if leading_zeros input = length input then 0 else leading_zeros input))"

definition byte_length :: "256 word \<Rightarrow> gint" where
  "byte_length x = of_nat (length (nat_bytes (unat x)))"

section \<open>Handlers\<close>

definition opCode :: "scope \<Rightarrow> cc_op" where
  "opCode scope cc = seq
     [Deduct S 12,
      when_op (IsCreate scope \<or> IsCreate2 scope \<or> isDeploy cc) (seq [mLoadX, SHRarith])] cc"

definition opAdd :: "scope \<Rightarrow> cc_op" where
  "opAdd scope = seq
     [opCode scope, Deduct S 10, Deduct B 1]"

definition opMul :: "scope \<Rightarrow> cc_op" where
  "opMul scope = seq
     [opCode scope, Deduct S 10, mulArith]"

definition opSub :: "scope \<Rightarrow> cc_op" where
  "opSub scope = seq
     [opCode scope, Deduct S 10, Deduct B 1]"

definition opDiv :: "scope \<Rightarrow> cc_op" where
  "opDiv scope = seq
     [opCode scope, Deduct S 15, divArith]"

definition opSDiv :: "scope \<Rightarrow> cc_op" where
  "opSDiv scope = seq
     [opCode scope, Deduct S 25, Deduct B 1, multiCall cc_abs 2, divArith]"

definition opMod :: "scope \<Rightarrow> cc_op" where
  "opMod scope = seq
     [opCode scope, Deduct S 20, divArith]"

definition opSMod :: "scope \<Rightarrow> cc_op" where
  "opSMod scope = seq
     [opCode scope, Deduct S 20, Deduct B 1, multiCall cc_abs 2, divArith]"

definition opAddMod :: "scope \<Rightarrow> cc_op" where
  "opAddMod scope = seq
     [opCode scope, Deduct S 30, Deduct B 3, Deduct A 1]"

definition opMulMod :: "scope \<Rightarrow> cc_op" where
  "opMulMod scope = seq
     [opCode scope, Deduct S 10, utilMulMod]"

definition opExp :: "scope \<Rightarrow> cc_op" where
  "opExp scope = seq
     [opCode scope, Deduct S 10,
      \<lambda>cc. res_bind (PeekAt scope 2) (\<lambda>exponent.
        let exponentLength = if exponent = 0 then 1 else byte_length exponent in
        seq [getLenBytes exponentLength, expAd (exponentLength * 8)] cc)]"

definition opSignExtend :: "scope \<Rightarrow> cc_op" where
  "opSignExtend scope cc = seq
     [opCode scope, Deduct S 20, Deduct B 6, Deduct P (2 * smtLevels cc)] cc"

definition opBlockHash :: "scope \<Rightarrow> cc_op" where
  "opBlockHash scope cc = seq
     [opCode scope, Deduct S 15, Deduct P (smtLevels cc), Deduct K 1] cc"

definition opCoinbase :: "scope \<Rightarrow> cc_op" where
  "opCoinbase scope = seq
     [opCode scope, Deduct S 5]"

definition opTimestamp :: "scope \<Rightarrow> cc_op" where
  "opTimestamp scope = seq
     [opCode scope, Deduct S 5]"

definition opNumber :: "scope \<Rightarrow> cc_op" where
  "opNumber scope = seq
     [opCode scope, Deduct S 5]"

definition opDifficulty :: "scope \<Rightarrow> cc_op" where
  "opDifficulty scope = seq
     [opCode scope, Deduct S 5]"

definition opGasLimit :: "scope \<Rightarrow> cc_op" where
  "opGasLimit scope = seq
     [opCode scope, Deduct S 5]"

definition opChainId :: "scope \<Rightarrow> cc_op" where
  "opChainId scope = seq
     [opCode scope, Deduct S 5]"

definition opCalldataLoad :: "scope \<Rightarrow> cc_op" where
  "opCalldataLoad scope = seq
     [opCode scope, Deduct S 15, readFromCallDataOffset]"

definition opCalldataSize :: "scope \<Rightarrow> cc_op" where
  "opCalldataSize scope = seq
     [opCode scope, Deduct S 10]"

definition opCalldataCopy :: "scope \<Rightarrow> cc_op" where
  "opCalldataCopy scope = with_size scope 3 (\<lambda>inputLen.
     when_op (inputLen \<noteq> 0) (seq
       [opCode scope, Deduct S 100, Deduct B 2, saveMem inputLen, offsetUtil,
        multiCall opCalldataCopyLoop (signed_drop_bit 5 inputLen), readFromCallDataOffset,
        multiCall mStoreX 2]))"

definition opCodeSize :: "scope \<Rightarrow> cc_op" where
  "opCodeSize scope cc = seq
     [opCode scope, Deduct S 10, Deduct P (smtLevels cc)] cc"

definition opExtCodeSize :: "scope \<Rightarrow> cc_op" where
  "opExtCodeSize scope cc = seq
     [opCode scope, Deduct S 10, Deduct P (smtLevels cc), maskAddress, isColdAddress] cc"

definition opExtCodeCopy :: "intra_block_state \<Rightarrow> scope \<Rightarrow> cc_op" where
  "opExtCodeCopy ibs scope cc = with_address scope 1 (\<lambda>address.
     let bytecodeLen = ibs_GetCodeSize ibs address in
     with_size scope 4 (\<lambda>len. when_op (len \<noteq> 0) (seq
       [opCode scope, Deduct S 60, maskAddress, isColdAddress,
        Deduct P (2 * smtLevels cc + ceil_div bytecodeLen 56), Deduct D (ceil_div bytecodeLen 56),
        multiCall divArith 2, saveMem len, mulArith, Deduct M len, multiCall opCodeCopyLoop len, Deduct B 1]))) cc"

definition opCodeCopy :: "scope \<Rightarrow> cc_op" where
  "opCodeCopy scope cc = with_size scope 3 (\<lambda>len.
     when_op (len \<noteq> 0) (seq
       [opCode scope,
        if IsCreate scope \<or> isDeploy cc then opCalldataCopy scope
        else seq [Deduct S 40, Deduct B 3, saveMem len, divArith, mulArith, multiCall opCodeCopyLoop len]])) cc"

definition opReturnDataSize :: "scope \<Rightarrow> cc_op" where
  "opReturnDataSize scope = seq
     [opCode scope, Deduct S 11, Deduct B 1]"

definition opReturnDataCopy :: "scope \<Rightarrow> cc_op" where
  "opReturnDataCopy scope = with_size scope 3 (\<lambda>len.
     when_op (len \<noteq> 0) (seq
       [opCode scope, Deduct S 50, Deduct B 2, saveMem len, divArith, mulArith,
        multiCall returnDataCopyLoop (signed_drop_bit 5 len), mLoadX, mStoreX]))"

definition opExtCodeHash :: "scope \<Rightarrow> cc_op" where
  "opExtCodeHash scope cc = seq
     [opCode scope, Deduct S 10, Deduct P (smtLevels cc), maskAddress, isColdAddress] cc"

definition opLT :: "scope \<Rightarrow> cc_op" where
  "opLT scope = seq
     [opCode scope, Deduct S 8, Deduct B 1]"

definition opGT :: "scope \<Rightarrow> cc_op" where
  "opGT scope = seq
     [opCode scope, Deduct S 8, Deduct B 1]"

definition opSLT :: "scope \<Rightarrow> cc_op" where
  "opSLT scope = seq
     [opCode scope, Deduct S 8, Deduct B 1]"

definition opSGT :: "scope \<Rightarrow> cc_op" where
  "opSGT scope = seq
     [opCode scope, Deduct S 8, Deduct B 1]"

definition opEQ :: "scope \<Rightarrow> cc_op" where
  "opEQ scope = seq
     [opCode scope, Deduct S 8, Deduct B 1]"

definition opIsZero :: "scope \<Rightarrow> cc_op" where
  "opIsZero scope = seq
     [opCode scope, Deduct S 8, Deduct B 1]"

definition opAnd :: "scope \<Rightarrow> cc_op" where
  "opAnd scope = seq
     [opCode scope, Deduct S 10, Deduct B 1]"

definition opOr :: "scope \<Rightarrow> cc_op" where
  "opOr scope = seq
     [opCode scope, Deduct S 10, Deduct B 1]"

definition opXor :: "scope \<Rightarrow> cc_op" where
  "opXor scope = seq
     [opCode scope, Deduct S 10, Deduct B 1]"

definition opNot :: "scope \<Rightarrow> cc_op" where
  "opNot scope = seq
     [opCode scope, Deduct S 10, Deduct B 1]"

definition opByte :: "scope \<Rightarrow> cc_op" where
  "opByte scope = seq
     [opCode scope, Deduct S 15, Deduct B 2, SHRarith]"

definition opSHR :: "scope \<Rightarrow> cc_op" where
  "opSHR scope = seq
     [opCode scope, Deduct S 8, Deduct B 1, shrArithBit]"

definition opSHL :: "scope \<Rightarrow> cc_op" where
  "opSHL scope = seq
     [opCode scope, Deduct S 8, Deduct B 1, shlArithBit]"

definition opSAR :: "scope \<Rightarrow> cc_op" where
  "opSAR scope = seq
     [opCode scope, Deduct S 25, Deduct B 5, shrArithBit]"

definition opStop :: "scope \<Rightarrow> cc_op" where
  "opStop scope = seq
     [opCode scope, Deduct S 20]"

definition opCreate :: "intra_block_state \<Rightarrow> scope \<Rightarrow> cc_op" where
  "opCreate ibs scope cc = with_size scope 3 (\<lambda>sz.
     let nonce = ibs_GetNonce ibs (CallerAddress scope) + 1;
         nonceByteLength = getRelevantNumberBytes (PutUint64 nonce) in
     seq
       [opCode scope, Deduct S 70, Deduct B 3, Deduct P (3 * smtLevels cc), saveMem sz,
        getLenBytes nonceByteLength, computeGasSendCall, saveCalldataPointer, checkpointBlockInfoTree,
        checkpointTouched, processContractCall (smtLevels cc) sz False True False]) cc"

definition opCall :: "intra_block_state \<Rightarrow> scope \<Rightarrow> cc_op" where
  "opCall ibs scope cc = with_address scope 2 (\<lambda>addr.
     let toAddrBytecodeLength = ibs_GetCodeSize ibs addr in
     with_size scope 5 (\<lambda>inSize. with_size scope 7 (\<lambda>outSize. seq
       [opCode scope, Deduct S 80, Deduct B 5, maskAddress, saveMem inSize, saveMem outSize, isColdAddress,
        isEmptyAccount, computeGasSendCall, saveCalldataPointer, checkpointBlockInfoTree, checkpointTouched,
        processContractCall (smtLevels cc) toAddrBytecodeLength False False False]))) cc"

definition opCallCode :: "intra_block_state \<Rightarrow> scope \<Rightarrow> cc_op" where
  "opCallCode ibs scope cc = with_address scope 2 (\<lambda>addr.
     let toAddrBytecodeLength = ibs_GetCodeSize ibs addr in
     with_size scope 5 (\<lambda>inSize. with_size scope 7 (\<lambda>outSize. seq
       [opCode scope, Deduct S 80, Deduct B 5, maskAddress, saveMem inSize, saveMem outSize, isColdAddress,
        computeGasSendCall, saveCalldataPointer, checkpointBlockInfoTree, checkpointTouched,
        processContractCall (smtLevels cc) toAddrBytecodeLength False False False]))) cc"

definition opDelegateCall :: "intra_block_state \<Rightarrow> scope \<Rightarrow> cc_op" where
  "opDelegateCall ibs scope cc = with_address scope 2 (\<lambda>addr.
     let toAddrBytecodeLength = ibs_GetCodeSize ibs addr in
     with_size scope 4 (\<lambda>inSize. with_size scope 6 (\<lambda>outSize. seq
       [opCode scope, Deduct S 80, maskAddress, saveMem inSize, saveMem outSize, isColdAddress,
        computeGasSendCall, saveCalldataPointer, checkpointBlockInfoTree, checkpointTouched,
        processContractCall (smtLevels cc) toAddrBytecodeLength False False False]))) cc"

definition opStaticCall :: "intra_block_state \<Rightarrow> scope \<Rightarrow> cc_op" where
  "opStaticCall ibs scope cc = with_address scope 2 (\<lambda>addr.
     let toAddrBytecodeLength = ibs_GetCodeSize ibs addr in
     with_size scope 4 (\<lambda>inSize. with_size scope 6 (\<lambda>outSize. seq
       [opCode scope, Deduct S 80, maskAddress, saveMem inSize, saveMem outSize, isColdAddress,
        computeGasSendCall, saveCalldataPointer, checkpointBlockInfoTree, checkpointTouched,
        processContractCall (smtLevels cc) toAddrBytecodeLength False False False]))) cc"

definition opCreate2 :: "intra_block_state \<Rightarrow> scope \<Rightarrow> cc_op" where
  "opCreate2 ibs scope cc = with_size scope 3 (\<lambda>inSize.
     let accNonce = ibs_GetNonce ibs (CallerAddress scope) + 1;
         nonceByteLength = getRelevantNumberBytes (PutUint64 accNonce) in
     seq
       [opCode scope, Deduct S 80, Deduct B 4, Deduct P (2 * smtLevels cc), saveMem inSize, divArith,
        getLenBytes nonceByteLength, computeGasSendCall, saveCalldataPointer, checkpointBlockInfoTree,
        checkpointTouched, processContractCall (smtLevels cc) inSize False False True]) cc"

definition opReturn :: "scope \<Rightarrow> cc_op" where
  "opReturn scope cc = with_size scope 2 (\<lambda>returnSize. seq
     [opCode scope, Deduct S 30, Deduct B 1, saveMem returnSize,
      if isDeploy cc \<or> IsCreate scope then
        when_op (IsCreate scope) (seq
          [Deduct S 25, Deduct B 2, Deduct P (2 * smtLevels cc), checkBytecodeStartsEF,
           hashPoseidonLinearFromMemory returnSize])
      else seq [multiCall returnLoop (signed_drop_bit 5 returnSize), mLoadX, mStoreX]]) cc"

definition opRevert :: "scope \<Rightarrow> cc_op" where
  "opRevert scope = with_size scope 2 (\<lambda>sz. seq
     [opCode scope, Deduct S 40, Deduct B 1, revertTouched, revertBlockInfoTree, saveMem sz,
      multiCall revertLoop (signed_drop_bit 5 sz), mLoadX, mStoreX])"

definition opSendAll :: "scope \<Rightarrow> cc_op" where
  "opSendAll scope cc = seq
     [opCode scope, Deduct S 60, Deduct B (2 + 1), Deduct P (4 * smtLevels cc), maskAddress,
     isEmptyAccount, isColdAddress, addArith] cc"

definition opInvalid :: "scope \<Rightarrow> cc_op" where
  "opInvalid scope = seq
     [opCode scope, Deduct S 50]"

definition opAddress :: "scope \<Rightarrow> cc_op" where
  "opAddress scope = seq
     [opCode scope, Deduct S 6]"

definition opSelfBalance :: "scope \<Rightarrow> cc_op" where
  "opSelfBalance scope cc = seq
     [opCode scope, Deduct S 8, Deduct P (smtLevels cc)] cc"

definition opBalance :: "scope \<Rightarrow> cc_op" where
  "opBalance scope cc = seq
     [opCode scope, Deduct S 8, Deduct P (smtLevels cc), maskAddress, isColdAddress] cc"

definition opOrigin :: "scope \<Rightarrow> cc_op" where
  "opOrigin scope = seq
     [opCode scope, Deduct S 5]"

definition opCaller :: "scope \<Rightarrow> cc_op" where
  "opCaller scope = seq
     [opCode scope, Deduct S 5]"

definition opCallValue :: "scope \<Rightarrow> cc_op" where
  "opCallValue scope = seq
     [opCode scope, Deduct S 5]"

definition opGasPrice :: "scope \<Rightarrow> cc_op" where
  "opGasPrice scope = seq
     [opCode scope, Deduct S 5]"

definition opGas :: "scope \<Rightarrow> cc_op" where
  "opGas scope = seq
     [opCode scope, Deduct S 4]"

definition opSha3 :: "scope \<Rightarrow> cc_op" where
  "opSha3 scope = with_size scope 2 (\<lambda>sz. seq
     [opCode scope, Deduct S 40, Deduct K (ceil_div (sz + 1) 136), saveMem sz, multiCall divArith 2,
      mulArith, multiCall sha3Loop (signed_drop_bit 5 sz), mLoadX, SHRarith])"

definition checkJumpDest :: "scope \<Rightarrow> cc_op" where
  "checkJumpDest scope cc = seq
     [Deduct S 10, Deduct B 1,
      when_op (IsCreate scope) (when_op (isDeploy cc) (seq [Deduct B 1, mLoadX]))] cc"

definition opJump :: "scope \<Rightarrow> cc_op" where
  "opJump scope = seq
     [opCode scope, Deduct S 5, checkJumpDest scope]"

definition opJumpI :: "scope \<Rightarrow> cc_op" where
  "opJumpI scope = seq
     [opCode scope, Deduct S 10, Deduct B 1, checkJumpDest scope]"

definition opPC :: "scope \<Rightarrow> cc_op" where
  "opPC scope = seq
     [opCode scope, Deduct S 4]"

definition opJumpDest :: "scope \<Rightarrow> cc_op" where
  "opJumpDest scope = seq
     [opCode scope, Deduct S 2]"

definition cc_log :: "scope \<Rightarrow> cc_op" where
  "cc_log scope = with_size scope 2 (\<lambda>sz. seq
     [opCode scope, Deduct S (34 + 7 * 4), saveMem sz, mulArith, divArith,
      Deduct P (ceil_div_plus sz 56 4), Deduct D (ceil_div_plus sz 56 4),
      multiCall logLoop (signed_drop_bit 5 (sz + 1)), mLoadX, SHRarith, fillBlockInfoTreeWithLog,
      Deduct B 1])"

definition opLog0 :: "scope \<Rightarrow> cc_op" where
  "opLog0 scope = seq
     [cc_log scope]"

definition opLog1 :: "scope \<Rightarrow> cc_op" where
  "opLog1 scope = seq
     [cc_log scope]"

definition opLog2 :: "scope \<Rightarrow> cc_op" where
  "opLog2 scope = seq
     [cc_log scope]"

definition opLog3 :: "scope \<Rightarrow> cc_op" where
  "opLog3 scope = seq
     [cc_log scope]"

definition opLog4 :: "scope \<Rightarrow> cc_op" where
  "opLog4 scope = seq
     [cc_log scope]"

definition opPush0 :: "scope \<Rightarrow> cc_op" where
  "opPush0 scope = seq
     [opCode scope, Deduct S 4]"

definition readPush :: "gint \<Rightarrow> cc_op" where
  "readPush num =
     (if num = 1 then Deduct S 2 else if num = 2 then Deduct S 4 else if num = 3 then Deduct S 5
      else if num = 4 then Deduct S 6 else if num = 32 then Deduct S 45 else Deduct S (6 + num * 2))"

definition opPush :: "gint \<Rightarrow> scope \<Rightarrow> cc_op" where
  "opPush num scope cc = seq
     [opCode scope, Deduct S 2,
      if IsCreate scope \<or> isDeploy cc then
        (if IsCreate scope then seq [Deduct S 20, mLoadX, SHRarith]
         else seq [Deduct S 10, repeat_op (nat (sint num)) (seq [Deduct S 10, SHLarith])])
      else seq [Deduct S 10, readPush num]] cc"

definition opDup :: "scope \<Rightarrow> cc_op" where
  "opDup scope = seq
     [opCode scope, Deduct S 6]"

definition opSwap :: "scope \<Rightarrow> cc_op" where
  "opSwap scope = seq
     [opCode scope, Deduct S 7]"

definition opPop :: "scope \<Rightarrow> cc_op" where
  "opPop scope = seq
     [opCode scope, Deduct S 3]"

definition opMLoad :: "scope \<Rightarrow> cc_op" where
  "opMLoad scope = seq
     [opCode scope, Deduct S 8, saveMem 32, mLoad32]"

definition opMStore :: "scope \<Rightarrow> cc_op" where
  "opMStore scope = seq
     [opCode scope, Deduct S 22, Deduct M 1, saveMem 32, offsetUtil]"

definition opMStore8 :: "scope \<Rightarrow> cc_op" where
  "opMStore8 scope = seq
     [opCode scope, Deduct S 13, Deduct M 1, saveMem 1, offsetUtil]"

definition opMSize :: "scope \<Rightarrow> cc_op" where
  "opMSize scope = seq
     [opCode scope, Deduct S 15, divArith]"

definition opSLoad :: "scope \<Rightarrow> cc_op" where
  "opSLoad scope cc = seq
     [opCode scope, Deduct S 10, Deduct P (smtLevels cc), isColdSlot] cc"

definition opSSTore :: "scope \<Rightarrow> cc_op" where
  "opSSTore scope cc = seq
     [opCode scope, Deduct S 70, Deduct B 8, Deduct P (3 * smtLevels cc), isColdSlot] cc"

definition opPushGenerator :: "gint \<Rightarrow> scope \<Rightarrow> cc_op" where
  "opPushGenerator num = (\<lambda>scope. opPush num scope)"

text \<open>The table: the handler of each opcode byte that has one.\<close>

definition counter_table :: "intra_block_state \<Rightarrow> (nat \<times> (scope \<Rightarrow> cc_op)) list" where
  "counter_table ibs =
     [(1, opAdd), (2, opMul), (3, opSub), (4, opDiv), (5, opSDiv), (6, opMod), (7, opSMod),
      (8, opAddMod), (9, opMulMod), (10, opExp), (11, opSignExtend), (64, opBlockHash),
      (65, opCoinbase), (66, opTimestamp), (67, opNumber), (68, opDifficulty), (69, opGasLimit),
      (70, opChainId), (53, opCalldataLoad), (54, opCalldataSize), (55, opCalldataCopy),
      (56, opCodeSize), (59, opExtCodeSize), (60, opExtCodeCopy ibs), (57, opCodeCopy),
      (61, opReturnDataSize), (62, opReturnDataCopy), (63, opExtCodeHash), (16, opLT), (17, opGT),
      (18, opSLT), (19, opSGT), (20, opEQ), (21, opIsZero), (22, opAnd), (23, opOr), (24, opXor),
      (25, opNot), (26, opByte), (28, opSHR), (27, opSHL), (29, opSAR), (0, opStop),
      (240, opCreate ibs), (241, opCall ibs), (242, opCallCode ibs), (244, opDelegateCall ibs),
      (250, opStaticCall ibs), (245, opCreate2 ibs), (243, opReturn), (253, opRevert),
      (255, opSendAll), (254, opInvalid), (48, opAddress), (71, opSelfBalance), (50, opOrigin),
      (51, opCaller), (52, opCallValue), (58, opGasPrice), (90, opGas), (32, opSha3), (86, opJump),
      (87, opJumpI), (88, opPC), (91, opJumpDest), (160, opLog0), (161, opLog1), (162, opLog2),
      (163, opLog3), (164, opLog4), (95, opPush0), (96, opPushGenerator 1), (97, opPushGenerator 2),
      (98, opPushGenerator 3), (99, opPushGenerator 4), (100, opPushGenerator 5),
      (101, opPushGenerator 6), (102, opPushGenerator 7), (103, opPushGenerator 8),
      (104, opPushGenerator 9), (105, opPushGenerator 10), (106, opPushGenerator 11),
      (107, opPushGenerator 12), (108, opPushGenerator 13), (109, opPushGenerator 14),
      (110, opPushGenerator 15), (111, opPushGenerator 16), (112, opPushGenerator 17),
      (113, opPushGenerator 18), (114, opPushGenerator 19), (115, opPushGenerator 20),
      (116, opPushGenerator 21), (117, opPushGenerator 22), (118, opPushGenerator 23),
      (119, opPushGenerator 24), (120, opPushGenerator 25), (121, opPushGenerator 26),
      (122, opPushGenerator 27), (123, opPushGenerator 28), (124, opPushGenerator 29),
      (125, opPushGenerator 30), (126, opPushGenerator 31), (127, opPushGenerator 32), (128, opDup),
      (129, opDup), (130, opDup), (131, opDup), (132, opDup), (133, opDup), (134, opDup),
      (135, opDup), (136, opDup), (137, opDup), (138, opDup), (139, opDup), (140, opDup),
      (141, opDup), (142, opDup), (143, opDup), (144, opSwap), (145, opSwap), (146, opSwap),
      (147, opSwap), (148, opSwap), (149, opSwap), (150, opSwap), (151, opSwap), (152, opSwap),
      (153, opSwap), (154, opSwap), (155, opSwap), (156, opSwap), (157, opSwap), (158, opSwap),
      (159, opSwap), (80, opPop), (81, opMLoad), (82, opMStore), (83, opMStore8), (89, opMSize),
      (84, opSLoad), (85, opSSTore), (49, opBalance)]"

definition SimpleCounterOperations :: "intra_block_state \<Rightarrow> nat \<Rightarrow> (scope \<Rightarrow> cc_op) option" where
  "SimpleCounterOperations ibs = map_of (counter_table ibs)"

text \<open>
  The wrapped jump table: an instruction that has a handler runs the handler, then the instruction. A handler
  panics or returns no error.
\<close>

definition wrap_execute :: "('s \<Rightarrow> 's res) \<Rightarrow> ('s \<Rightarrow> 's res) \<Rightarrow> 's \<Rightarrow> 's res" where
  "wrap_execute original counter s = res_bind (counter s) original"

definition WrapJumpTableWithZkCounters ::
  "(nat \<Rightarrow> 's \<Rightarrow> 's res) \<Rightarrow> (nat \<Rightarrow> ('s \<Rightarrow> 's res) option) \<Rightarrow> nat \<Rightarrow> 's \<Rightarrow> 's res" where
  "WrapJumpTableWithZkCounters originalTable counterCalls idx =
     (case counterCalls idx of
        None \<Rightarrow> originalTable idx
      | Some counterExec \<Rightarrow> wrap_execute (originalTable idx) counterExec)"

section \<open>What a handler costs\<close>

lemma costs_opCode [costs]: "costs 274 (opCode scope)"
  by (rule costs_eta [OF _ opCode_def]) (rule costs_mono, (rule costs)+, simp)

lemma costs_checkJumpDest [costs]: "costs 187 (checkJumpDest scope)"
  by (rule costs_eta [OF _ checkJumpDest_def]) (rule costs_mono, (rule costs)+, simp)

lemma costs_plain_ops:
  "costs (2 ^ 20) (opAdd scope)" "costs (2 ^ 20) (opMul scope)" "costs (2 ^ 20) (opSub scope)"
  "costs (2 ^ 20) (opDiv scope)" "costs (2 ^ 20) (opSDiv scope)" "costs (2 ^ 20) (opMod scope)"
  "costs (2 ^ 20) (opSMod scope)" "costs (2 ^ 20) (opAddMod scope)"
  "costs (2 ^ 20) (opMulMod scope)" "costs (2 ^ 20) (opCoinbase scope)"
  "costs (2 ^ 20) (opTimestamp scope)" "costs (2 ^ 20) (opNumber scope)"
  "costs (2 ^ 20) (opDifficulty scope)" "costs (2 ^ 20) (opGasLimit scope)"
  "costs (2 ^ 20) (opChainId scope)" "costs (2 ^ 20) (opCalldataLoad scope)"
  "costs (2 ^ 20) (opCalldataSize scope)" "costs (2 ^ 20) (opReturnDataSize scope)"
  "costs (2 ^ 20) (opLT scope)" "costs (2 ^ 20) (opGT scope)" "costs (2 ^ 20) (opSLT scope)"
  "costs (2 ^ 20) (opSGT scope)" "costs (2 ^ 20) (opEQ scope)" "costs (2 ^ 20) (opIsZero scope)"
  "costs (2 ^ 20) (opAnd scope)" "costs (2 ^ 20) (opOr scope)" "costs (2 ^ 20) (opXor scope)"
  "costs (2 ^ 20) (opNot scope)" "costs (2 ^ 20) (opByte scope)" "costs (2 ^ 20) (opSHR scope)"
  "costs (2 ^ 20) (opSHL scope)" "costs (2 ^ 20) (opSAR scope)" "costs (2 ^ 20) (opStop scope)"
  "costs (2 ^ 20) (opInvalid scope)" "costs (2 ^ 20) (opAddress scope)"
  "costs (2 ^ 20) (opOrigin scope)" "costs (2 ^ 20) (opCaller scope)"
  "costs (2 ^ 20) (opCallValue scope)" "costs (2 ^ 20) (opGasPrice scope)"
  "costs (2 ^ 20) (opGas scope)" "costs (2 ^ 20) (opJump scope)" "costs (2 ^ 20) (opJumpI scope)"
  "costs (2 ^ 20) (opPC scope)" "costs (2 ^ 20) (opJumpDest scope)" "costs (2 ^ 20) (opPush0 scope)"
  "costs (2 ^ 20) (opDup scope)" "costs (2 ^ 20) (opSwap scope)" "costs (2 ^ 20) (opPop scope)"
  "costs (2 ^ 20) (opMLoad scope)" "costs (2 ^ 20) (opMStore scope)"
  "costs (2 ^ 20) (opMStore8 scope)" "costs (2 ^ 20) (opMSize scope)"
  unfolding opAdd_def opMul_def opSub_def opDiv_def opSDiv_def opMod_def opSMod_def opAddMod_def
    opMulMod_def opCoinbase_def opTimestamp_def opNumber_def opDifficulty_def opGasLimit_def
    opChainId_def opCalldataLoad_def opCalldataSize_def opReturnDataSize_def opLT_def opGT_def
    opSLT_def opSGT_def opEQ_def opIsZero_def opAnd_def opOr_def opXor_def opNot_def opByte_def
    opSHR_def opSHL_def opSAR_def opStop_def opInvalid_def opAddress_def opOrigin_def
    opCaller_def opCallValue_def opGasPrice_def opGas_def opJump_def opJumpI_def opPC_def
    opJumpDest_def opPush0_def opDup_def opSwap_def opPop_def opMLoad_def opMStore_def
    opMStore8_def opMSize_def
  by (rule costs_mono, (rule costs)+, simp)+

lemma costs_level_ops:
  "costs (2 ^ 20) (opSignExtend scope)" "costs (2 ^ 20) (opBlockHash scope)"
  "costs (2 ^ 20) (opCodeSize scope)" "costs (2 ^ 20) (opExtCodeSize scope)"
  "costs (2 ^ 20) (opExtCodeHash scope)" "costs (2 ^ 20) (opSendAll scope)"
  "costs (2 ^ 20) (opSelfBalance scope)" "costs (2 ^ 20) (opBalance scope)"
  "costs (2 ^ 20) (opSLoad scope)" "costs (2 ^ 20) (opSSTore scope)"
  subgoal by (rule costs_eta [OF _ opSignExtend_def]) (rule costs_mono, (rule costs_levels costs | assumption)+, simp)
  subgoal by (rule costs_eta [OF _ opBlockHash_def]) (rule costs_mono, (rule costs_levels costs | assumption)+, simp)
  subgoal by (rule costs_eta [OF _ opCodeSize_def]) (rule costs_mono, (rule costs_levels costs | assumption)+, simp)
  subgoal by (rule costs_eta [OF _ opExtCodeSize_def]) (rule costs_mono, (rule costs_levels costs | assumption)+, simp)
  subgoal by (rule costs_eta [OF _ opExtCodeHash_def]) (rule costs_mono, (rule costs_levels costs | assumption)+, simp)
  subgoal by (rule costs_eta [OF _ opSendAll_def]) (rule costs_mono, (rule costs_levels costs | assumption)+, simp)
  subgoal by (rule costs_eta [OF _ opSelfBalance_def]) (rule costs_mono, (rule costs_levels costs | assumption)+, simp)
  subgoal by (rule costs_eta [OF _ opBalance_def]) (rule costs_mono, (rule costs_levels costs | assumption)+, simp)
  subgoal by (rule costs_eta [OF _ opSLoad_def]) (rule costs_mono, (rule costs_levels costs | assumption)+, simp)
  subgoal by (rule costs_eta [OF _ opSSTore_def]) (rule costs_mono, (rule costs_levels costs | assumption)+, simp)
  done


text \<open>The handlers that read lengths from the stack. The positions they read, by opcode.\<close>

definition size_positions :: "nat \<Rightarrow> nat list" where
  "size_positions opcode =
     (if opcode \<in> {55, 57, 62, 240, 245} then [3]
      else if opcode = 60 then [4]
      else if opcode \<in> {241, 242} then [5, 7]
      else if opcode \<in> {244, 250} then [4, 6]
      else if opcode \<in> {32, 160, 161, 162, 163, 164, 243, 253} then [2]
      else [])"

definition peek_depth :: "nat \<Rightarrow> nat" where
  "peek_depth opcode = (if opcode = 10 then 2 else foldr max (size_positions opcode) 0)"

definition peek_size :: "scope \<Rightarrow> nat \<Rightarrow> gint" where
  "peek_size s position = ucast (Stack_Data s ! (length (Stack_Data s) - position))"

text \<open>
  The interpreter checks the depth of the stack before it executes an instruction, and the gas for memory bounds
  the lengths.
\<close>

definition stack_ok :: "nat \<Rightarrow> scope \<Rightarrow> bool" where
  "stack_ok opcode s \<longleftrightarrow> peek_depth opcode \<le> length (Stack_Data s) \<and>
     list_all (\<lambda>p. small (peek_size s p)) (size_positions opcode)"

lemma costs_with_size:
  "0 < p \<Longrightarrow> p \<le> length (Stack_Data s) \<Longrightarrow> costs n (k (peek_size s p)) \<Longrightarrow> costs n (with_size s p k)"
  by (simp add: costs_def with_size_def PeekAt_def peek_size_def)

lemma costs_with_address:
  "0 < p \<Longrightarrow> p \<le> length (Stack_Data s) \<Longrightarrow> (\<And>a. costs n (k a)) \<Longrightarrow> costs n (with_address s p k)"
  by (simp add: costs_def with_address_def PeekAt_def)

lemma costs_eta_size:
  "(\<And>cc. cc_ok cc \<Longrightarrow> costs n (with_size s p (F cc))) \<Longrightarrow> (\<And>cc. f cc = with_size s p (F cc) cc) \<Longrightarrow> costs n f"
  by (simp add: costs_def)

lemma costs_eta_address:
  "(\<And>cc. cc_ok cc \<Longrightarrow> costs n (with_address s p (F cc))) \<Longrightarrow> (\<And>cc. f cc = with_address s p (F cc) cc) \<Longrightarrow> costs n f"
  by (simp add: costs_def)

lemma cc_ok_levels: "cc_ok cc \<Longrightarrow> uint (smtLevels cc) < 2 ^ 16"
  by (simp add: cc_ok_def)

lemmas costs_sized = costs_levels costs_length costs_hashPoseidonLinearFromMemory costs_getLenBytes
  costs_processContractCall [OF cc_ok_levels]

lemma small_getRelevantNumberBytes: "length bs = 8 \<Longrightarrow> small (getRelevantNumberBytes bs)"
proof -
  assume "length bs = 8"
  then have "\<exists>n \<le> 8. getRelevantNumberBytes bs = of_nat n"
    unfolding getRelevantNumberBytes_def by (metis diff_le_self)
  then show ?thesis
    by (auto simp: small_def unsigned_of_nat take_bit_nat_eq_self)
qed

lemma costs_opCalldataCopy:
  assumes "3 \<le> length (Stack_Data scope)" "small (peek_size scope 3)"
  shows "costs (2 ^ 40) (opCalldataCopy scope)"
  unfolding opCalldataCopy_def using assms
  by (intro costs_with_size costs_when_exact)
    (simp_all, rule costs_mono, ((rule costs_sized, assumption+) | rule costs)+, simp)

lemma costs_opReturnDataCopy:
  assumes "3 \<le> length (Stack_Data scope)" "small (peek_size scope 3)"
  shows "costs (2 ^ 40) (opReturnDataCopy scope)"
  unfolding opReturnDataCopy_def using assms
  by (intro costs_with_size costs_when_exact)
    (simp_all, rule costs_mono, ((rule costs_sized, assumption+) | rule costs)+, simp)

lemma costs_opCodeCopy:
  assumes "3 \<le> length (Stack_Data scope)" "small (peek_size scope 3)"
  shows "costs (2 ^ 41) (opCodeCopy scope)"
  by (rule costs_eta_size [OF _ opCodeCopy_def], insert assms, intro costs_with_size costs_when_exact)
    (((simp; fail) | assumption)+, rule costs_mono, ((rule costs_opCalldataCopy costs_sized, assumption+) | rule costs)+, simp)

lemma costs_opExtCodeCopy:
  assumes "4 \<le> length (Stack_Data scope)" "small (peek_size scope 4)" "\<And>a. small (ibs_GetCodeSize ibs a)"
  shows "costs (2 ^ 41) (opExtCodeCopy ibs scope)"
proof -
  have code: "costs (2 ^ 33) (Deduct P (2 * smtLevels cc + ceil_div (ibs_GetCodeSize ibs a) 56))" if "cc_ok cc" for cc a
  proof (rule costs_Deduct)
    show "uint (2 * smtLevels cc + ceil_div (ibs_GetCodeSize ibs a) 56) \<le> 2 ^ 33"
      using uint_add_le [of "2 * smtLevels cc" "ceil_div (ibs_GetCodeSize ibs a) 56"]
        uint_mult_le [of 2 "smtLevels cc"] cc_ok_levels [OF that]
        uint_ceil_div [of "ibs_GetCodeSize ibs a" "2 ^ 32" 56] assms(3) [of a]
      by (simp add: small_def)
  qed
  have len: "costs (2 ^ 32) (Deduct M (peek_size scope 4))"
    using assms(2) by (auto intro!: costs_Deduct simp: small_def)
  show ?thesis
    unfolding Let_def
    by (rule costs_eta_address [OF _ opExtCodeCopy_def [unfolded Let_def]], insert assms,
        intro costs_with_address costs_with_size costs_when_exact)
      (((simp; fail) | assumption)+, rule costs_mono,
       ((rule code len costs_ceil(1) [OF assms(3)] | rule costs_sized, assumption+ | assumption) | rule costs)+, simp)
qed

lemma costs_opCreate:
  assumes "3 \<le> length (Stack_Data scope)" "small (peek_size scope 3)"
  shows "costs (2 ^ 41) (opCreate ibs scope)" "costs (2 ^ 41) (opCreate2 ibs scope)"
  subgoal
    by (rule costs_eta_size [OF _ opCreate_def [unfolded Let_def]], insert assms, intro costs_with_size)
      (((simp; fail) | assumption)+, rule costs_mono,
       ((rule costs_getLenBytes [OF small_getRelevantNumberBytes [OF length_PutUint64]] | (rule costs_sized, assumption+)) |
        rule costs)+, simp)
  subgoal
    by (rule costs_eta_size [OF _ opCreate2_def [unfolded Let_def]], insert assms, intro costs_with_size)
      (((simp; fail) | assumption)+, rule costs_mono,
       ((rule costs_getLenBytes [OF small_getRelevantNumberBytes [OF length_PutUint64]] | (rule costs_sized, assumption+)) |
        rule costs)+, simp)
  done

lemma costs_single: "costs n (seq [f]) \<longleftrightarrow> costs n f"
proof -
  have "seq [f] = f"
    by (rule ext) (simp add: res_bind_def split: sum.split)
  then show ?thesis by simp
qed

lemma costs_calls:
  assumes "d \<le> length (Stack_Data scope)" "\<And>a. small (ibs_GetCodeSize ibs a)"
  shows "7 \<le> d \<Longrightarrow> costs (2 ^ 41) (opCall ibs scope)" "7 \<le> d \<Longrightarrow> costs (2 ^ 41) (opCallCode ibs scope)"
    "6 \<le> d \<Longrightarrow> costs (2 ^ 41) (opDelegateCall ibs scope)" "6 \<le> d \<Longrightarrow> costs (2 ^ 41) (opStaticCall ibs scope)"
  subgoal
    by (rule costs_eta_address [OF _ opCall_def [unfolded Let_def]], insert assms(1), intro costs_with_address costs_with_size)
      (((simp; fail) | assumption)+, rule costs_mono,
       ((rule costs_processContractCall [OF cc_ok_levels assms(2)], assumption) | rule costs)+, simp)
  subgoal
    by (rule costs_eta_address [OF _ opCallCode_def [unfolded Let_def]], insert assms(1), intro costs_with_address costs_with_size)
      (((simp; fail) | assumption)+, rule costs_mono,
       ((rule costs_processContractCall [OF cc_ok_levels assms(2)], assumption) | rule costs)+, simp)
  subgoal
    by (rule costs_eta_address [OF _ opDelegateCall_def [unfolded Let_def]], insert assms(1), intro costs_with_address costs_with_size)
      (((simp; fail) | assumption)+, rule costs_mono,
       ((rule costs_processContractCall [OF cc_ok_levels assms(2)], assumption) | rule costs)+, simp)
  subgoal
    by (rule costs_eta_address [OF _ opStaticCall_def [unfolded Let_def]], insert assms(1), intro costs_with_address costs_with_size)
      (((simp; fail) | assumption)+, rule costs_mono,
       ((rule costs_processContractCall [OF cc_ok_levels assms(2)], assumption) | rule costs)+, simp)
  done

lemma costs_opReturn:
  assumes "2 \<le> length (Stack_Data scope)" "small (peek_size scope 2)"
  shows "costs (2 ^ 41) (opReturn scope)"
  by (rule costs_eta_size [OF _ opReturn_def], insert assms, intro costs_with_size)
    (((simp; fail) | assumption)+, rule costs_mono, ((rule costs_sized, assumption+) | rule costs)+, simp)

lemma costs_memory_ops:
  assumes "2 \<le> length (Stack_Data scope)" "small (peek_size scope 2)"
  shows "costs (2 ^ 41) (opRevert scope)" "costs (2 ^ 41) (opSha3 scope)" "costs (2 ^ 41) (cc_log scope)"
  unfolding opRevert_def opSha3_def cc_log_def
  by (insert assms, intro costs_with_size,
      (((simp; fail) | assumption)+, rule costs_mono, ((rule costs_sized, assumption+) | rule costs)+, simp))+

lemma byte_length_le: "uint (byte_length x) \<le> 32"
proof -
  have len: "n < 256 ^ k \<Longrightarrow> length (nat_bytes n) \<le> k" for n k
  proof (induction k arbitrary: n)
    case 0
    then show ?case by (simp add: nat_bytes.simps)
  next
    case (Suc k)
    then show ?case
      by (subst nat_bytes.simps) (simp add: less_mult_imp_div_less mult.commute)
  qed
  have "unat x < 256 ^ 32"
    using unsigned_less [of x, where ?'a = nat] by simp
  then have "length (nat_bytes (unat x)) \<le> 32"
    by (rule len)
  then show ?thesis
    by (simp add: byte_length_def unsigned_of_nat take_bit_nat_eq_self)
qed

lemma costs_opExp:
  assumes "2 \<le> length (Stack_Data scope)"
  shows "costs (2 ^ 41) (opExp scope)"
proof -
  have bound: "costs (2 ^ 40 + 2 ^ 39) (seq [getLenBytes n, expAd (n * 8)])" if "uint n \<le> 32" for n
  proof -
    have "uint (n * 8) \<le> 256"
      using uint_mult_le [of n 8] that by simp
    then have "sint (n * 8) = uint (n * 8)" "sint (n * 8) \<le> 2 ^ 32"
      by (simp_all add: sint_uint_small)
    then have "costs (2 ^ 40) (expAd (n * 8))"
      by (intro costs_expAd) simp_all
    moreover have "costs (95 * 2 ^ 32 + 12) (getLenBytes n)"
      using that by (intro costs_getLenBytes) (simp add: small_def)
    ultimately show ?thesis
      by (intro costs_mono [OF costs_Cons_exact [OF _ costs_Cons_exact [OF _ costs_Nil_exact]]]) (assumption | simp)+
  qed
  have "costs (2 ^ 40 + 2 ^ 39) (\<lambda>cc. res_bind (PeekAt scope 2) (\<lambda>exponent.
        let exponentLength = if exponent = 0 then 1 else byte_length exponent in
        seq [getLenBytes exponentLength, expAd (exponentLength * 8)] cc))"
    using assms bound [of 1] bound [OF byte_length_le] by (simp add: costs_def PeekAt_def Let_def del: seq.simps)
  then show ?thesis
    unfolding opExp_def by - (rule costs_mono, (assumption | rule costs)+, simp)
qed

lemma costs_opPush: "small n \<Longrightarrow> uint n \<le> 32 \<Longrightarrow> costs (2 ^ 20) (opPush n scope)"
proof -
  assume n: "small n" "uint n \<le> 32"
  have "uint (6 + n * 2) \<le> 70"
    using uint_add_le [of 6 "n * 2"] uint_mult_le [of n 2] n by simp
  then have "costs 70 (readPush n)"
    unfolding readPush_def by (intro costs_if) (auto intro!: costs_Deduct)
  moreover have "costs (32 * 54) (repeat_op (nat (sint n)) (seq [Deduct S 10, SHLarith]))"
  proof (rule costs_mono [OF costs_repeat_op])
    show "costs 54 (seq [Deduct S 10, SHLarith])"
      by (rule costs_mono, (rule costs)+, simp)
    show "int (nat (sint n)) * 54 \<le> 32 * 54"
      using n small_sint [OF n(1)] by simp
  qed
  ultimately show ?thesis
    by (intro costs_eta [OF _ opPush_def]) (rule costs_mono, (assumption | rule costs)+, simp)
qed

lemma costs_table:
  assumes "\<And>a. small (ibs_GetCodeSize ibs a)"
  shows "list_all (\<lambda>(opcode, h). \<forall>scope. stack_ok opcode scope \<longrightarrow> costs (2 ^ 41) (h scope)) (counter_table ibs)"
proof -
  have plain: "costs (2 ^ 20) f \<Longrightarrow> costs (2 ^ 41) f" for f
    by (erule costs_mono) simp
  note ops = costs_plain_ops [THEN plain] costs_level_ops [THEN plain]
  have push: "costs (2 ^ 41) (opPushGenerator n scope)" if "uint n \<le> 32" for n scope
    unfolding opPushGenerator_def using that by (intro plain costs_opPush) (simp_all add: small_def)
  have log: "costs (2 ^ 41) (opLog0 scope)" "costs (2 ^ 41) (opLog1 scope)" "costs (2 ^ 41) (opLog2 scope)"
    "costs (2 ^ 41) (opLog3 scope)" "costs (2 ^ 41) (opLog4 scope)"
    if "2 \<le> length (Stack_Data scope)" "small (peek_size scope 2)" for scope
    using costs_memory_ops(3) [OF that]
    unfolding opLog0_def opLog1_def opLog2_def opLog3_def opLog4_def by (simp_all add: costs_single)
  show ?thesis
    using assms
    by (simp add: counter_table_def stack_ok_def peek_depth_def size_positions_def ops push log costs_opExp
        costs_opCreate costs_opReturn costs_memory_ops costs_calls [of 7] costs_calls [of 6] costs_opExtCodeCopy costs_opCodeCopy
        costs_opReturnDataCopy [THEN costs_mono] costs_opCalldataCopy [THEN costs_mono] del: power_numeral)
qed

section \<open>Runs of handlers\<close>

text \<open>The handlers of a sequence of instructions, each with the frame it sees.\<close>

fun run_handlers :: "intra_block_state \<Rightarrow> (nat \<times> scope) list \<Rightarrow> cc_op" where
  "run_handlers ibs [] cc = Inr cc"
| "run_handlers ibs ((opcode, scope) # steps) cc =
     (case SimpleCounterOperations ibs opcode of
        None \<Rightarrow> run_handlers ibs steps cc
      | Some h \<Rightarrow> res_bind (h scope cc) (run_handlers ibs steps))"

lemma costs_handler:
  assumes "\<And>a. small (ibs_GetCodeSize ibs a)" "SimpleCounterOperations ibs opcode = Some h" "stack_ok opcode scope"
  shows "costs (2 ^ 41) (h scope)"
  using costs_table [OF assms(1)] assms(2,3) map_of_SomeD [of "counter_table ibs" opcode h]
  unfolding SimpleCounterOperations_def list_all_iff by blast

lemma costs_run_handlers:
  assumes "\<And>a. small (ibs_GetCodeSize ibs a)" "list_all (\<lambda>(opcode, scope). stack_ok opcode scope) steps"
  shows "costs (int (length steps) * 2 ^ 41) (run_handlers ibs steps)"
  using assms(2)
proof (induction steps)
  case Nil
  then show ?case
    using costs_Inr_exact by (simp add: costs_def)
next
  case (Cons step steps)
  obtain opcode scope where step: "step = (opcode, scope)" by force
  have rest: "costs (int (length steps) * 2 ^ 41) (run_handlers ibs steps)" and ok: "stack_ok opcode scope"
    using Cons step by auto
  show ?case
  proof (cases "SimpleCounterOperations ibs opcode")
    case None
    then show ?thesis
      using costs_mono [OF rest, of "int (length (step # steps)) * 2 ^ 41"] step by (simp add: costs_def)
  next
    case (Some h)
    then show ?thesis
      using costs_bind [OF costs_handler [OF assms(1) Some ok] rest] step
      by (simp add: costs_def algebra_simps)
  qed
qed

lemma run_handlers_append:
  "run_handlers ibs (xs @ ys) cc = res_bind (run_handlers ibs xs cc) (run_handlers ibs ys)"
  by (induction ibs xs cc rule: run_handlers.induct) (auto simp: res_bind_def split: option.splits sum.splits)

text \<open>A collector at the start of a transaction: nothing used and limits of at most \<open>2 ^ 61\<close>.\<close>

definition fresh :: "counter_collector \<Rightarrow> bool" where
  "fresh cc \<longleftrightarrow> cc_ok cc \<and>
     list_all (\<lambda>c. case c of None \<Rightarrow> False
                 | Some c \<Rightarrow> used c = 0 \<and> 0 \<le> sint (initialAmount c) \<and> sint (initialAmount c) \<le> 2 ^ 61)
       (cc_counters cc)"

lemma fresh_remaining:
  "fresh cc \<Longrightarrow> Some c \<in> set (cc_counters cc) \<Longrightarrow> remaining c = initialAmount c \<and> 0 \<le> sint (initialAmount c)
     \<and> sint (initialAmount c) \<le> 2 ^ 61"
  by (fastforce simp: fresh_def cc_ok_def list_all_iff counter_ok_def)

lemma fresh_room: "fresh cc \<Longrightarrow> n < 2 ^ 63 \<Longrightarrow> room n cc"
  by (auto simp: room_def dest!: fresh_remaining)

lemma used_exact:
  assumes "used c + remaining c = initialAmount c" "0 \<le> sint (initialAmount c)" "sint (initialAmount c) \<le> 2 ^ 61"
    "- (2 ^ 62) \<le> sint (remaining c)"
  shows "sint (used c) = sint (initialAmount c) - sint (remaining c)"
proof -
  have "used c = initialAmount c - remaining c"
    using assms(1) by (simp add: algebra_simps)
  moreover have "sint (remaining c) < 2 ^ 63"
    using sint_lt [of "remaining c"] by simp
  ultimately show ?thesis
    using assms(2-4) by (simp add: sint_word_ariths signed_take_bit_int_eq_self_iff)
qed

lemma charge_initial:
  assumes "Some c' \<in> set (cc_counters (charge v cc))"
  obtains c where "Some c \<in> set (cc_counters cc)" "initialAmount c' = initialAmount c"
  using assms by (rule charge_memE) (metis counter.select_convs(4) counter.surjective counter.update_convs(1,2)
      deduct_counter_def nth_mem)

lemma overflown_iff_used:
  assumes "fresh cc" "cost_le (2 ^ 61) v"
  shows "overflown (charge v cc) \<longleftrightarrow>
    (\<exists>c. Some c \<in> set (cc_counters (charge v cc)) \<and> sint (initialAmount c) < sint (used c))"
proof -
  have ok: "cc_ok (charge v cc)"
    using assms(1) by (simp add: fresh_def cc_ok_charge)
  have "room (2 ^ 61 + 2 ^ 62) cc"
    by (rule fresh_room [OF assms(1)]) simp
  then have "room (2 ^ 62) (charge v cc)"
    by (rule room_charge [OF _ assms(2)]) simp_all
  then have low: "- (2 ^ 62) \<le> sint (remaining c)" if "Some c \<in> set (cc_counters (charge v cc))" for c
    using that by (auto simp: room_def)
  have "sint (used c) = sint (initialAmount c) - sint (remaining c)" if c: "Some c \<in> set (cc_counters (charge v cc))" for c
  proof (rule used_exact)
    show "used c + remaining c = initialAmount c"
      using ok c by (fastforce simp: cc_ok_def list_all_iff counter_ok_def)
    show "0 \<le> sint (initialAmount c)" "sint (initialAmount c) \<le> 2 ^ 61"
      using charge_initial [OF c] fresh_remaining [OF assms(1)] by metis+
  qed (rule low [OF c])
  then show ?thesis
    by (auto simp: overflown_def)
qed

lemma run_handlers_charge:
  assumes "\<And>a. small (ibs_GetCodeSize ibs a)" "list_all (\<lambda>(opcode, scope). stack_ok opcode scope) steps"
    "length steps \<le> 2 ^ 20" "cc_ok cc"
  obtains v where "run_handlers ibs steps cc = Inr (charge v cc)" "cost_le (2 ^ 61) v"
proof (rule costsE [OF costs_run_handlers [OF assms(1,2)] assms(4)])
  fix v
  assume "run_handlers ibs steps cc = Inr (charge v cc)" "cost_le (int (length steps) * 2 ^ 41) v"
  then show thesis
    using assms(3) that cost_le_mono [of "int (length steps) * 2 ^ 41" v "2 ^ 61"] by simp
qed

lemma run_handlers_sticky:
  assumes "fresh cc" "\<And>a. small (ibs_GetCodeSize ibs a)" "list_all (\<lambda>(opcode, scope). stack_ok opcode scope) (xs @ ys)"
    "length (xs @ ys) \<le> 2 ^ 20" "run_handlers ibs xs cc = Inr cc0" "overflown cc0"
    "run_handlers ibs (xs @ ys) cc = Inr cc'"
  shows "overflown cc'"
proof -
  have ok: "cc_ok cc"
    using assms(1) by (simp add: fresh_def)
  obtain w where w: "cc0 = charge w cc" "cost_le (2 ^ 61) w"
    using run_handlers_charge [OF assms(2) _ _ ok, of xs] assms(3-5) by auto
  obtain u where u: "run_handlers ibs ys cc0 = Inr (charge u cc0)" "cost_le (2 ^ 61) u"
    using run_handlers_charge [OF assms(2) _ _ cc_ok_charge [OF ok], of ys w] assms(3,4) w(1) by auto
  have "cc' = charge u cc0"
    using assms(5,7) u(1) by (simp add: run_handlers_append)
  moreover have "room (2 ^ 61 + 2 ^ 61) cc"
    by (rule fresh_room [OF assms(1)]) simp
  then have "room (2 ^ 61) cc0"
    unfolding w(1) using w(2) by (rule room_charge) simp_all
  ultimately show ?thesis
    using overflown_charge [OF assms(6) _ u(2)] by simp
qed

text \<open>
  C6. Over any run of up to \<open>2 ^ 20\<close> instructions that starts from fresh counters, with the stack as deep as each
  handler reads it and lengths of at most \<open>2 ^ 32\<close>, the counters give the right verdict: the handlers never
  panic, the collector counts as overflown at the end exactly when some counter has used more than its limit (as
  integers: nothing wraps round), and a run that has overflown at some point is still overflown at the end.
\<close>

theorem run_handlers_verdict:
  assumes "fresh cc" "\<And>a. small (ibs_GetCodeSize ibs a)" "list_all (\<lambda>(opcode, scope). stack_ok opcode scope) steps"
    "length steps \<le> 2 ^ 20"
  shows "\<exists>cc'. run_handlers ibs steps cc = Inr cc' \<and> cc_ok cc' \<and>
    isOverflown cc' = Inr (\<exists>c. Some c \<in> set (cc_counters cc') \<and> sint (initialAmount c) < sint (used c)) \<and>
    (\<forall>n cc0. run_handlers ibs (take n steps) cc = Inr cc0 \<longrightarrow> isOverflown cc0 = Inr True \<longrightarrow> isOverflown cc' = Inr True)"
proof -
  have ok: "cc_ok cc"
    using assms(1) by (simp add: fresh_def)
  obtain v where v: "run_handlers ibs steps cc = Inr (charge v cc)" "cost_le (2 ^ 61) v"
    using run_handlers_charge [OF assms(2-4) ok] by blast
  have ok': "cc_ok (charge v cc)"
    using ok by (rule cc_ok_charge)
  show ?thesis
  proof (intro exI [of _ "charge v cc"] conjI allI impI)
    show "isOverflown (charge v cc) =
        Inr (\<exists>c. Some c \<in> set (cc_counters (charge v cc)) \<and> sint (initialAmount c) < sint (used c))"
      using isOverflown_ok [OF ok'] overflown_iff_used [OF assms(1) v(2)] by simp
  next
    fix n cc0
    assume run: "run_handlers ibs (take n steps) cc = Inr cc0" and over: "isOverflown cc0 = Inr True"
    have "list_all (\<lambda>(opcode, scope). stack_ok opcode scope) (take n steps)" "length (take n steps) \<le> 2 ^ 20"
      using assms(3,4) by (auto simp: list_all_iff dest: in_set_takeD)
    then obtain w where "cc0 = charge w cc"
      using run_handlers_charge [OF assms(2) _ _ ok] run by (metis Inr_inject)
    then have "cc_ok cc0"
      using ok by (simp add: cc_ok_charge)
    then show "isOverflown (charge v cc) = Inr True"
      using run_handlers_sticky [OF assms(1,2), of "take n steps" "drop n steps" cc0 "charge v cc"] assms(3,4) run over
        v(1) ok' by (simp add: isOverflown_ok)
  qed (rule v(1), rule ok')
qed

definition full_counter :: "gint \<Rightarrow> counter option" where
  "full_counter n = Some \<lparr>remaining = n, used = 0, counter_name = ''S'', initialAmount = n\<rparr>"

definition sample_collector :: counter_collector where
  "sample_collector = \<lparr>cc_counters = map full_counter [1000, 10, 10, 10, 10, 10, 10, 10], smtLevels = 32, isDeploy = False,
     cc_transaction = None, forkId = 12\<rparr>"

definition sample_scope :: "256 word list \<Rightarrow> scope" where
  "sample_scope ws = \<lparr>Stack_Data = ws, IsCreate = False, IsCreate2 = False, CallerAddress = 0\<rparr>"

definition no_code :: intra_block_state where
  "no_code = \<lparr>ibs_GetCodeSize = (\<lambda>_. 0), ibs_GetNonce = (\<lambda>_. 0)\<rparr>"

lemma fresh_sample: "fresh sample_collector"
  by (simp add: fresh_def cc_ok_def sample_collector_def CounterTypesCount_def full_counter_def counter_ok_def)

text \<open>An addition and a hash of 64 bytes: the hash overflows the counter of arithmetic operations.\<close>

theorem run_handlers_verdict_witness:
  "\<exists>cc'. run_handlers no_code [(1, sample_scope []), (32, sample_scope [64, 0])] sample_collector = Inr cc' \<and> cc_ok cc' \<and>
    isOverflown cc' = Inr (\<exists>c. Some c \<in> set (cc_counters cc') \<and> sint (initialAmount c) < sint (used c)) \<and>
    (\<forall>n cc0. run_handlers no_code (take n [(1, sample_scope []), (32, sample_scope [64, 0])]) sample_collector = Inr cc0 \<longrightarrow>
      isOverflown cc0 = Inr True \<longrightarrow> isOverflown cc' = Inr True)"
proof (rule run_handlers_verdict [OF fresh_sample])
  show "small (ibs_GetCodeSize no_code a)" for a
    by (simp add: no_code_def small_def)
  show "list_all (\<lambda>(opcode, scope). stack_ok opcode scope) [(1, sample_scope []), (32, sample_scope [64, 0])]"
    by (simp add: stack_ok_def peek_depth_def size_positions_def sample_scope_def peek_size_def small_def)
qed simp

text \<open>
  C7. Every handler of the table, on a well formed collector and under the same conditions on the stack, returns a
  well formed collector that differs only in its counters: each has moved an amount of at most \<open>2 ^ 41\<close> from
  remaining to used, and keeps its name and its limit.
\<close>

theorem handler_moves_amounts:
  assumes "SimpleCounterOperations ibs opcode = Some h" "stack_ok opcode scope" "\<And>a. small (ibs_GetCodeSize ibs a)"
    "cc_ok cc"
  shows "\<exists>v. h scope cc = Inr (cc\<lparr>cc_counters :=
      map (\<lambda>i. map_option (\<lambda>c. c\<lparr>used := used c + v i, remaining := remaining c - v i\<rparr>) (cc_counters cc ! i))
        [0..<CounterTypesCount]\<rparr>) \<and> (\<forall>i. uint (v i) \<le> 2 ^ 41)"
proof -
  obtain v where v: "h scope cc = Inr (charge v cc)" "cost_le (2 ^ 41) v"
    using costs_handler [OF assms(3,1,2)] assms(4) by (rule costsE)
  have "charge_counters v (cc_counters cc) =
      map (\<lambda>i. map_option (\<lambda>c. c\<lparr>used := used c + v i, remaining := remaining c - v i\<rparr>) (cc_counters cc ! i))
        [0..<CounterTypesCount]"
    using assms(4)
    by (intro nth_equalityI) (auto simp: cc_ok_def deduct_counter_def intro!: option.map_cong)
  then show ?thesis
    using v by (auto simp: charge_def cost_le_def)
qed

theorem handler_moves_amounts_witness:
  "\<exists>v. opSha3 (sample_scope [64, 0]) sample_collector = Inr (sample_collector\<lparr>cc_counters :=
      map (\<lambda>i. map_option (\<lambda>c. c\<lparr>used := used c + v i, remaining := remaining c - v i\<rparr>) (cc_counters sample_collector ! i))
        [0..<CounterTypesCount]\<rparr>) \<and> (\<forall>i. uint (v i) \<le> 2 ^ 41)"
proof (rule handler_moves_amounts [where ibs = no_code and opcode = 32])
  show "SimpleCounterOperations no_code 32 = Some opSha3"
    by (simp add: SimpleCounterOperations_def counter_table_def)
  show "stack_ok 32 (sample_scope [64, 0])"
    by (simp add: stack_ok_def peek_depth_def size_positions_def sample_scope_def peek_size_def small_def)
  show "small (ibs_GetCodeSize no_code a)" for a
    by (simp add: no_code_def small_def)
  show "cc_ok sample_collector"
    using fresh_sample by (simp add: fresh_def)
qed

text \<open>
  C8. The early exit of \<^verbatim>\<open>multiCall\<close> does not change the verdict: for a charge that costs at most \<open>m\<close>, run where the
  remaining amounts cannot wrap round, the loop that checks for an overflow every thousand rounds and stops there, and
  the loop that makes all the calls, either give the same collector or both give an overflown one.
\<close>

theorem multiCall_verdict:
  assumes "costs m f" "0 \<le> m" "cc_ok cc" "room (int (nat (sint iterations)) * m) cc"
  shows "\<exists>c1 c2. multiCall f iterations cc = Inr c1 \<and> repeat_op (nat (sint iterations)) f cc = Inr c2 \<and>
    (c1 = c2 \<or> isOverflown c1 = Inr True \<and> isOverflown c2 = Inr True)"
proof -
  obtain c1 c2 where c: "multiCall f iterations cc = Inr c1" "repeat_op (nat (sint iterations)) f cc = Inr c2"
    "c1 = c2 \<or> overflown c1 \<and> overflown c2"
    using multi_call_loop_verdict [OF assms] unfolding multiCall_def by blast
  have "cc_ok c1" "cc_ok c2"
    using costs_multiCall_exact [OF assms(1), of iterations] costs_repeat_op [OF assms(1)] c(1,2) assms(3) cc_ok_charge
    by (metis Inr_inject costsE)+
  then show ?thesis
    using c by (auto simp: isOverflown_ok)
qed

theorem multiCall_verdict_witness:
  "\<exists>c1 c2. multiCall mLoad32 3 sample_collector = Inr c1 \<and> repeat_op (nat (sint (3 :: gint))) mLoad32 sample_collector = Inr c2 \<and>
    (c1 = c2 \<or> isOverflown c1 = Inr True \<and> isOverflown c2 = Inr True)"
proof (rule multiCall_verdict)
  show "costs 185 mLoad32"
    by (rule costs)
  show "cc_ok sample_collector"
    using fresh_sample by (simp add: fresh_def)
  show "room (int (nat (sint (3 :: gint))) * 185) sample_collector"
    by (rule fresh_room [OF fresh_sample]) simp
qed simp

end
