(* ===== verification/Zk_Limits.thy ===== *)
theory Zk_Limits
  imports Zk_Opcodes
begin

text \<open>
  The limits of the counters, \<^verbatim>\<open>src/core/vm/zk_counters_limits.go\<close>, and the collectors made from them
  (\<^verbatim>\<open>NewCounterCollector\<close>, \<^verbatim>\<open>NewUnlimitedCounterCollector\<close> and \<^verbatim>\<open>calculateSmtLevels\<close> of \<^verbatim>\<open>zk_counters.go\<close>). The safety
  margins are \<^verbatim>\<open>float64\<close> constants, rounded like any other value of the type.
\<close>

section \<open>Limits\<close>

definition stepDeduction :: gint where
  "stepDeduction = 200"

definition baseSafetyPercentage :: float64 where
  "baseSafetyPercentage = fl64 (5 / 100)"

definition preForkId10TotalSteps :: gint where
  "preForkId10TotalSteps = push_bit 23 1"

definition forkId10TotalSteps :: gint where
  "forkId10TotalSteps = push_bit 24 1"

definition forkId11TotalSteps :: gint where
  "forkId11TotalSteps = push_bit 25 1"

record counter_limits =
  totalSteps :: gint
  arith :: gint
  binary :: gint
  memAlign :: gint
  keccaks :: gint
  padding :: gint
  poseidon :: gint
  sha256 :: gint

definition unlimitedCounters :: counter_limits where
  "unlimitedCounters = (let m = 2147483647 in
     \<lparr>totalSteps = m, arith = m, binary = m, memAlign = m, keccaks = m, padding = m, poseidon = m, sha256 = m\<rparr>)"

definition safetyPercentages :: "u16 \<Rightarrow> float64 option" where
  "safetyPercentages fork =
     (if fork = ForkID10 then Some (fl64 (25 / 1000)) else if fork = ForkID11 then Some (fl64 (125 / 10000)) else None)"

definition limit_counter :: "gint \<Rightarrow> string \<Rightarrow> counter option" where
  "limit_counter n nm = Some \<lparr>remaining = n, used = 0, counter_name = nm, initialAmount = n\<rparr>"

definition createCountrsByLimits :: "counter_limits \<Rightarrow> counters" where
  "createCountrsByLimits c =
     NewCounters
       [key_index S := limit_counter (totalSteps c) ''defaultTotalSteps'',
        key_index A := limit_counter (arith c) ''arith'',
        key_index B := limit_counter (binary c) ''binary'',
        key_index M := limit_counter (memAlign c) ''memAlign'',
        key_index K := limit_counter (keccaks c) ''keccaks'',
        key_index D := limit_counter (padding c) ''padding'',
        key_index P := limit_counter (poseidon c) ''poseidon'',
        key_index SHA := limit_counter (sha256 c) ''sha256'']"

definition getTotalSteps :: "u16 \<Rightarrow> gint" where
  "getTotalSteps fork =
     (if fork < ForkID10 then preForkId10TotalSteps
      else (if fork = ForkID10 then forkId10TotalSteps
            else if fork \<ge> ForkID11 then forkId11TotalSteps else 0) - stepDeduction)"

definition applyDeduction :: "u16 \<Rightarrow> gint \<Rightarrow> gint" where
  "applyDeduction fork input =
     (let deduction = (case safetyPercentages fork of None \<Rightarrow> baseSafetyPercentage | Some p \<Rightarrow> p);
          asFloat = float64_of_int (sint input);
          reduction = float64_mult asFloat deduction;
          newValue = float64_minus asFloat reduction
      in word_of_int \<lceil>newValue\<rceil>)"

definition fork_limits :: "u16 \<Rightarrow> counter_limits" where
  "fork_limits fork =
     (let total = getTotalSteps fork in
      \<lparr>totalSteps = applyDeduction fork total,
       arith = applyDeduction fork (signed_drop_bit 5 total),
       binary = applyDeduction fork (signed_drop_bit 4 total),
       memAlign = applyDeduction fork (signed_drop_bit 5 total),
       keccaks = applyDeduction fork
         (word_of_int \<lfloor>float64_mult (of_int \<lfloor>float64_div (float64_of_int (sint total)) 155286\<rfloor>) 44\<rfloor>),
       padding = applyDeduction fork (floor_div total 56),
       poseidon = applyDeduction fork (floor_div total 31),
       sha256 = applyDeduction fork (floor_div (total - 1) 31488 * 7)\<rparr>)"

definition getCounterLimits :: "u16 \<Rightarrow> counters" where
  "getCounterLimits fork = createCountrsByLimits (fork_limits fork)"

section \<open>Collectors\<close>

definition calculateSmtLevels :: "gint \<Rightarrow> gint \<Rightarrow> float64 \<Rightarrow> gint" where
  "calculateSmtLevels smtMaxLevel minValue mcpReduction =
     (let binaryLength = of_nat (floorlog 2 (2 ^ nat (sint smtMaxLevel) + 50000));
          binaryLength = (if sint binaryLength < sint minValue then minValue else binaryLength)
      in word_of_int \<lfloor>float64_mult (float64_of_int (sint binaryLength)) mcpReduction\<rfloor>)"

definition NewUnlimitedCounterCollector :: counter_collector where
  "NewUnlimitedCounterCollector =
     \<lparr>cc_counters = createCountrsByLimits unlimitedCounters, smtLevels = 256, isDeploy = False, cc_transaction = None,
      forkId = 0\<rparr>"

definition NewCounterCollector :: "gint \<Rightarrow> u16 \<Rightarrow> counter_collector" where
  "NewCounterCollector levels fork =
     \<lparr>cc_counters = getCounterLimits fork, smtLevels = levels, isDeploy = False, cc_transaction = None, forkId = fork\<rparr>"

definition limit_values :: "counters \<Rightarrow> gint option list" where
  "limit_values cs = map (map_option initialAmount) cs"

section \<open>The safety margin\<close>

text \<open>The margin each fork keeps, as an exact fraction.\<close>

definition safety_margin :: "u16 \<Rightarrow> rat" where
  "safety_margin fork = (if fork = ForkID10 then 25 / 1000 else if fork = ForkID11 then 125 / 10000 else 5 / 100)"

definition float_margin :: "u16 \<Rightarrow> float64" where
  "float_margin fork = (case safetyPercentages fork of None \<Rightarrow> baseSafetyPercentage | Some p \<Rightarrow> p)"

lemma float_margin_eq: "float_margin fork = fl64 (safety_margin fork)"
  by (simp add: float_margin_def safetyPercentages_def safety_margin_def baseSafetyPercentage_def ForkID10_def ForkID11_def)

lemma safety_margin_range: "0 < safety_margin fork" "safety_margin fork \<le> 1 / 20"
  by (simp_all add: safety_margin_def)

lemma fl64_near:
  assumes "\<bar>x - y\<bar> \<le> d" "\<bar>y\<bar> \<le> c"
  shows "\<bar>fl64 x - y\<bar> \<le> d + (c + d) / 2 ^ 53"
proof -
  have "\<bar>x\<bar> \<le> c + d"
    using assms by linarith
  then have "\<bar>x\<bar> / 2 ^ 53 \<le> (c + d) / 2 ^ 53"
    by (simp add: divide_right_mono)
  then have "\<bar>fl64 x - x\<bar> \<le> (c + d) / 2 ^ 53"
    using fl64_error [of x] by linarith
  then show ?thesis
    using assms(1) by linarith
qed

lemma reduced_value:
  fixes n :: int
  assumes "0 \<le> n" "n < 2 ^ 40" "0 < p" "p \<le> (1 / 20 :: rat)"
  shows "\<bar>float64_minus (float64_of_int n) (float64_mult (float64_of_int n) (fl64 p)) - (1 - p) * of_int n\<bar> \<le> 1 / 1024"
proof -
  define x where "x = (of_int n :: rat)"
  have x: "0 \<le> x" "x \<le> 2 ^ 40" "float64_of_int n = x"
    using assms(1,2) fl64_int [of n] of_int_le_iff [of n "2 ^ 40", where ?'a = rat]
    by (simp_all add: x_def float64_of_int_def)
  have "\<bar>fl64 p - p\<bar> \<le> 1 / 2 ^ 53"
    by (rule order_trans [OF fl64_error]) (use assms(3,4) in simp)
  then have "\<bar>x * fl64 p - x * p\<bar> \<le> 2 ^ 40 * (1 / 2 ^ 53)"
    using x(1,2) mult_mono [of x "2 ^ 40" "\<bar>fl64 p - p\<bar>" "1 / 2 ^ 53"]
    by (simp add: abs_mult flip: right_diff_distrib)
  moreover have "\<bar>x * p\<bar> \<le> 2 ^ 40"
    using x(1,2) assms(3,4) mult_mono [of x "2 ^ 40" p 1] by simp
  ultimately have m: "\<bar>float64_mult x (fl64 p) - x * p\<bar> \<le> 1 / 2048"
    using fl64_near [of "x * fl64 p" "x * p" "1 / 8192" "2 ^ 40"] by (simp add: float64_mult_def)
  have "\<bar>(1 - p) * x\<bar> \<le> 2 ^ 40"
    using x(1,2) assms(3,4) mult_mono [of "1 - p" 1 x "2 ^ 40"] by simp
  moreover have "\<bar>x - float64_mult x (fl64 p) - (1 - p) * x\<bar> \<le> 1 / 2048"
    using m by (simp add: algebra_simps abs_minus_commute)
  ultimately have "\<bar>float64_minus x (float64_mult x (fl64 p)) - (1 - p) * x\<bar> \<le> 1 / 1024"
    using fl64_near [of "x - float64_mult x (fl64 p)" "(1 - p) * x" "1 / 2048" "2 ^ 40"] by (simp add: float64_minus_def)
  then show ?thesis
    by (simp add: x(3)) (simp add: x_def)
qed

lemma applyDeduction_near:
  assumes "0 \<le> sint amount" "sint amount < 2 ^ 40"
  shows "(1 - safety_margin fork) * of_int (sint amount) - 1 / 1024 \<le> of_int (sint (applyDeduction fork amount)) \<and>
    of_int (sint (applyDeduction fork amount)) < (1 - safety_margin fork) * of_int (sint amount) + 1 + 1 / 1024"
proof -
  define n where "n = sint amount"
  define v where "v = float64_minus (float64_of_int n) (float64_mult (float64_of_int n) (float_margin fork))"
  define y where "y = (1 - safety_margin fork) * (of_int n :: rat)"
  have n: "0 \<le> n" "n < 2 ^ 40"
    using assms by (simp_all add: n_def)
  then have near: "\<bar>v - y\<bar> \<le> 1 / 1024"
    unfolding v_def y_def float_margin_eq by (rule reduced_value [OF _ _ safety_margin_range])
  then have near': "y - 1 / 1024 \<le> v" "v \<le> y + 1 / 1024"
    unfolding abs_le_iff by linarith+
  have "0 \<le> (of_int n :: rat)" "(of_int n :: rat) \<le> 2 ^ 40"
    using n of_int_le_iff [of n "2 ^ 40", where ?'a = rat] by simp_all
  then have "0 \<le> y" "y \<le> 2 ^ 40"
    using safety_margin_range [of fork] mult_mono [of "1 - safety_margin fork" 1 "of_int n :: rat" "2 ^ 40"]
    by (simp_all add: y_def)
  then have c: "- 1 < v" "v \<le> 2 ^ 41"
    using near' by simp_all
  have ceil: "v \<le> of_int \<lceil>v\<rceil>" "of_int \<lceil>v\<rceil> < v + 1"
    by linarith+
  have "0 \<le> \<lceil>v\<rceil>" "\<lceil>v\<rceil> \<le> 2 ^ 41"
    using c by (simp_all add: ceiling_le_iff le_ceiling_iff)
  then have "sint (word_of_int \<lceil>v\<rceil> :: gint) = \<lceil>v\<rceil>"
    by (simp add: signed_of_int signed_take_bit_int_eq_self_iff)
  moreover have "applyDeduction fork amount = word_of_int \<lceil>v\<rceil>"
    by (simp add: applyDeduction_def v_def n_def float_margin_def Let_def)
  ultimately have "sint (applyDeduction fork amount) = \<lceil>v\<rceil>"
    by simp
  then show ?thesis
    unfolding n_def [symmetric] y_def [symmetric] using near' ceil by linarith
qed

text \<open>
  C9. Every fork's safety margin is taken off correctly in spite of the rounding of \<^verbatim>\<open>float64\<close>: for an amount below
  \<open>2 ^ 40\<close> the reduced limit is the exact value \<open>(1 - margin) * amount\<close> rounded up, to within a thousandth, with a
  margin of 2.5\% for fork 10, 1.25\% for fork 11 and 5\% for every other fork.
\<close>

theorem applyDeduction_margin:
  assumes "0 \<le> sint amount" "sint amount < 2 ^ 40"
  shows "(1 - safety_margin fork) * of_int (sint amount) - 1 / 1024 \<le> of_int (sint (applyDeduction fork amount)) \<and>
    of_int (sint (applyDeduction fork amount)) < (1 - safety_margin fork) * of_int (sint amount) + 1 + 1 / 1024"
  using assms by (rule applyDeduction_near)

theorem applyDeduction_margin_witness:
  "(1 - safety_margin 12) * of_int (sint (1000 :: gint)) - 1 / 1024 \<le> of_int (sint (applyDeduction 12 1000)) \<and>
    of_int (sint (applyDeduction 12 1000)) < (1 - safety_margin 12) * of_int (sint (1000 :: gint)) + 1 + 1 / 1024"
  by (rule applyDeduction_margin) simp_all

section \<open>The limits of each fork\<close>

lemma getTotalSteps_cases:
  "getTotalSteps fork = 8388608 \<or> getTotalSteps fork = 16777016 \<or> getTotalSteps fork = 33554232"
proof -
  have "fork < 10 \<or> fork = 10 \<or> 11 \<le> fork"
    by (simp add: word_less_nat_alt word_le_nat_alt word_unat_eq_iff) linarith
  then show ?thesis
    by (auto simp: getTotalSteps_def ForkID10_def ForkID11_def preForkId10TotalSteps_def forkId10TotalSteps_def
        forkId11TotalSteps_def stepDeduction_def)
qed

text \<open>The amounts before the margin is taken off.\<close>

definition raw_limits :: "gint \<Rightarrow> gint list" where
  "raw_limits steps =
     [steps, signed_drop_bit 5 steps, signed_drop_bit 4 steps, signed_drop_bit 5 steps,
      word_of_int \<lfloor>float64_mult (of_int \<lfloor>float64_div (float64_of_int (sint steps)) 155286\<rfloor>) 44\<rfloor>,
      floor_div steps 56, floor_div steps 31, floor_div (steps - 1) 31488 * 7]"

lemma keccak_limit:
  assumes "0 \<le> n" "n < 2 ^ 40"
  shows "\<lfloor>float64_mult (of_int \<lfloor>float64_div (float64_of_int n) 155286\<rfloor>) 44\<rfloor> = n div 155286 * 44"
proof -
  have "\<lfloor>float64_div (float64_of_int n) 155286\<rfloor> = n div 155286"
    using fl64_quotient_ceiling(2) [of n 155286] fl64_int [of n] assms
    by (simp add: float64_div_def float64_of_int_def floor_divide_of_int_eq [of n 155286, simplified])
  moreover have "n div 155286 \<le> n" "0 \<le> n div 155286"
    using assms(1) zdiv_mono2 [of n 1 155286] by (simp_all add: pos_imp_zdiv_nonneg_iff)
  then have "fl64 (of_int (n div 155286 * 44)) = of_int (n div 155286 * 44)"
    using assms by (intro fl64_int) simp
  ultimately show ?thesis
    using floor_of_int [of "n div 155286 * 44", where ?'a = rat] by (simp add: float64_mult_def)
qed

lemma raw_limits_values:
  "raw_limits 8388608 = [8388608, 262144, 524288, 262144, 2376, 149796, 270600, 1862]"
  "raw_limits 16777016 = [16777016, 524281, 1048563, 524281, 4752, 299589, 541194, 3724]"
  "raw_limits 33554232 = [33554232, 1048569, 2097139, 1048569, 9504, 599182, 1082394, 7455]"
  unfolding raw_limits_def
  by (simp_all add: keccak_limit floor_div_exact signed_drop_bit_word_numeral)

lemma fork_limits_raw:
  "limit_values (getCounterLimits fork) = map (Some \<circ> applyDeduction fork) (raw_limits (getTotalSteps fork))"
  by (simp add: getCounterLimits_def createCountrsByLimits_def fork_limits_def Let_def raw_limits_def limit_values_def
      NewCounters_def CounterTypesCount_def limit_counter_def numeral_eq_Suc)
lemma applyDeduction_range:
  assumes "100 \<le> sint r" "sint r \<le> 33554432"
  shows "0 < sint (applyDeduction fork r) \<and> sint (applyDeduction fork r) \<le> sint r"
proof -
  obtain n where n: "sint r = n" "100 \<le> n"
    using assms(1) by simp
  obtain k where k: "sint (applyDeduction fork r) = k"
    by simp
  define m where "m = safety_margin fork"
  define y where "y = (1 - m) * (of_int n :: rat)"
  have near: "y - 1 / 1024 \<le> of_int k" "of_int k < y + 1 + 1 / 1024"
    using applyDeduction_near [of r fork] assms unfolding n(1) k m_def [symmetric] y_def by simp_all
  have m: "1 / 80 \<le> m" "m \<le> 1 / 20"
    by (simp_all add: m_def safety_margin_def)
  have nr: "(100 :: rat) \<le> of_int n"
    using n(2) by simp
  have "1 / 80 * 100 \<le> m * of_int n"
    using m nr by (intro mult_mono) simp_all
  then have up: "y \<le> of_int n - 5 / 4"
    by (simp add: y_def left_diff_distrib)
  have "(19 / 20) * 100 \<le> y"
    unfolding y_def using m nr by (intro mult_mono) simp_all
  then have "(0 :: rat) < of_int k" "(of_int k :: rat) < of_int (n + 1)"
    using near up by simp_all
  then show ?thesis
    unfolding of_int_less_iff of_int_0_less_iff n(1) k by simp
qed
lemma raw_limits_range: "r \<in> set (raw_limits (getTotalSteps fork)) \<Longrightarrow> 100 \<le> sint r \<and> sint r \<le> 33554432"
  using getTotalSteps_cases [of fork] by (auto simp: raw_limits_values)

lemma getCounterLimits_member:
  assumes "x \<in> set (getCounterLimits fork)"
  obtains c where "x = Some c" "used c = 0" "remaining c = initialAmount c"
    "\<exists>r \<in> set (raw_limits (getTotalSteps fork)). initialAmount c = applyDeduction fork r"
  using assms
  by (auto simp: getCounterLimits_def createCountrsByLimits_def fork_limits_def Let_def raw_limits_def
      NewCounters_def CounterTypesCount_def limit_counter_def numeral_eq_Suc)

lemma new_collector_fresh:
  assumes "uint levels < 2 ^ 16"
  shows "fresh (NewCounterCollector levels fork) \<and>
    (\<forall>c. Some c \<in> set (cc_counters (NewCounterCollector levels fork)) \<longrightarrow>
      0 < sint (initialAmount c) \<and> sint (initialAmount c) \<le> 2 ^ 25)"
proof -
  have range: "0 < sint (initialAmount c) \<and> sint (initialAmount c) \<le> 2 ^ 25" if c: "Some c \<in> set (getCounterLimits fork)" for c
  proof -
    obtain r where "r \<in> set (raw_limits (getTotalSteps fork))" "initialAmount c = applyDeduction fork r"
      using getCounterLimits_member [OF c] by auto
    then show ?thesis
      using raw_limits_range [of r fork] applyDeduction_range [of r fork] by auto
  qed
  have "counter_ok x \<and> (case x of None \<Rightarrow> False
      | Some c \<Rightarrow> used c = 0 \<and> 0 \<le> sint (initialAmount c) \<and> sint (initialAmount c) \<le> 2 ^ 61)"
    if x: "x \<in> set (getCounterLimits fork)" for x
  proof -
    obtain c where "x = Some c" "used c = 0" "remaining c = initialAmount c"
      using getCounterLimits_member [OF x] by blast
    then show ?thesis
      using range [of c] x by (simp add: counter_ok_def)
  qed
  moreover have "length (getCounterLimits fork) = CounterTypesCount"
    by (simp add: getCounterLimits_def createCountrsByLimits_def NewCounters_def)
  ultimately show ?thesis
    using assms range by (simp add: fresh_def cc_ok_def NewCounterCollector_def list_all_iff)
qed

text \<open>
  C10. The collector made for any fork is fresh: all eight counters are there with nothing used, and each has a
  positive limit of at most \<open>2 ^ 25\<close>, so the verdict on runs of handlers applies to it.
\<close>

theorem NewCounterCollector_fresh:
  assumes "uint levels < 2 ^ 16"
  shows "fresh (NewCounterCollector levels fork) \<and>
    (\<forall>c. Some c \<in> set (cc_counters (NewCounterCollector levels fork)) \<longrightarrow>
      0 < sint (initialAmount c) \<and> sint (initialAmount c) \<le> 2 ^ 25)"
  using assms by (rule new_collector_fresh)

theorem NewCounterCollector_fresh_witness:
  "fresh (NewCounterCollector 80 12) \<and> 0 < sint (initialAmount (the (cc_counters (NewCounterCollector 80 12) ! 0)))"
proof -
  have "cc_counters (NewCounterCollector 80 12) ! 0 \<in> set (getCounterLimits 12)"
    using nth_mem [of 0 "getCounterLimits 12"]
    by (simp add: NewCounterCollector_def getCounterLimits_def createCountrsByLimits_def NewCounters_def CounterTypesCount_def
        del: nth_mem)
  then obtain c where "cc_counters (NewCounterCollector 80 12) ! 0 = Some c" "Some c \<in> set (getCounterLimits 12)"
    using getCounterLimits_member by metis
  then show ?thesis
    using NewCounterCollector_fresh [of 80 12] by (simp add: NewCounterCollector_def)
qed

end
