(* ===== verification/Zk_Precompiles.thy ===== *)
theory Zk_Precompiles
  imports Zk_Limits
begin

text \<open>
  What the precompiled contracts cost the prover: the charges of \<^verbatim>\<open>src/core/vm/zk_counters.go\<close> that look at the
  operands (\<^verbatim>\<open>ecRecover\<close>, \<^verbatim>\<open>modExp\<close>, \<^verbatim>\<open>p256verify\<close> and the handlers that call them) and the formulas for modular
  exponentiation of \<^verbatim>\<open>src/core/vm/virtual_counters_util.go\<close>. A \<^verbatim>\<open>big.Int\<close> is an integer; where a function changes the
  number its argument points to, the new value is returned and passed on. The operands are read from bytes, so they are
  not negative and Go's Euclidean division is \<open>div\<close>.
\<close>

section \<open>Signature recovery\<close>

definition fnec :: "256 word" where
  "fnec = 0xFFFFFFFFFFFFFFFFFFFFFFFFFFFFFFFEBAAEDCE6AF48A03BBFD25E8CD0364141"

definition fnecMinusOne :: "256 word" where
  "fnecMinusOne = fnec - 1"

definition fnecHalf :: "256 word" where
  "fnecHalf = fnec div 2"

definition fpec :: "256 word" where
  "fpec = 0xFFFFFFFFFFFFFFFFFFFFFFFFFFFFFFFFFFFFFFFFFFFFFFFFFFFFFFFEFFFFFC2F"

text \<open>
  \<^verbatim>\<open>Sqrt\<close> returns its receiver, so the pointer \<^verbatim>\<open>r2\<close> is never nil and is replaced by the number with all bits set.
\<close>

definition ecRecover :: "256 word \<Rightarrow> 256 word \<Rightarrow> 256 word \<Rightarrow> bool \<Rightarrow> cc_op" where
  "ecRecover v r s isPrecompiled =
     (let upperLimit = (if isPrecompiled then fnecMinusOne else fnecHalf);
          fnecCheck = fnecMinusOne < r;
          upperLimitCheck = upperLimit < s;
          low = (\<lambda>x :: 256 word. ucast x :: u64)
      in
      if low r = 0 \<or> low s = 0 \<or> fnecCheck \<or> upperLimitCheck \<or> low v \<noteq> 27 \<and> low v \<noteq> 28
      then seq [Deduct S 45, Deduct A 2, Deduct B 8]
      else
        let r2 = (0xFFFFFFFFFFFFFFFFFFFFFFFFFFFFFFFFFFFFFFFFFFFFFFFFFFFFFFFFFFFFFFFF :: 256 word) in
        if r2 < fpec then seq [Deduct S 4527, Deduct A 1014, Deduct B 10]
        else seq [Deduct S 6294, Deduct A 528, Deduct B 523, Deduct K 1])"

definition preEcRecover :: "256 word \<Rightarrow> 256 word \<Rightarrow> 256 word \<Rightarrow> cc_op" where
  "preEcRecover v r s = seq
     [Deduct S 35, Deduct B 1, multiCall readFromCallDataOffset 4, ecRecover v r s True, mStore32, mStoreX]"

section \<open>Modular exponentiation\<close>

definition newInt :: "gint \<Rightarrow> int" where
  "newInt x = uint x"

text \<open>The product starts from zero and the first argument is not used.\<close>

definition newMul :: "int \<Rightarrow> int list \<Rightarrow> int" where
  "newMul x vals = foldl (*) (newInt 0) vals"

text \<open>Go's division of two ints truncates towards zero.\<close>

definition int_quo :: "gint \<Rightarrow> int \<Rightarrow> gint" where
  "int_quo a b = word_of_int (sgn (sint a) * (\<bar>sint a\<bar> div b))"

function len_loop :: "int \<Rightarrow> nat" where
  "len_loop x = (if x > 0 then Suc (len_loop (x div 2 ^ 256)) else 0)"
  by auto
termination
proof (relation "measure nat")
  fix x :: int
  assume "x > 0"
  then have "x div 2 ^ 256 < x"
    by (simp add: int_div_less_self)
  then show "(x div 2 ^ 256, x) \<in> measure nat"
    using \<open>x > 0\<close> by simp
qed simp

declare len_loop.simps [simp del]

text \<open>The length in 256-bit digits, and what is left of the argument: the loop shifts it down to zero.\<close>

definition computeLenThisBase :: "int \<Rightarrow> gint \<times> int" where
  "computeLenThisBase x = (if x = 0 then (1, x) else (of_nat (len_loop x), if x > 0 then 0 else x))"

definition setupAndFirstDivCounters :: "gint \<Rightarrow> gint \<Rightarrow> int \<Rightarrow> int \<Rightarrow> int \<times> int \<times> int" where
  "setupAndFirstDivCounters lenB lenM q r =
     (let (lq1, q1) = computeLenThisBase q;
          (lr1, r1) = computeLenThisBase r;
          steps = newInt 84 + newInt 2 + newMul (newInt 10) [newInt lenB] + newMul (newInt 3) [newInt lenM] +
                  newMul (newInt (8 + 19 * lenM)) [newInt lq1] + newMul (newInt 12) [newInt lr1];
          (lr2, r2) = computeLenThisBase r1;
          (lq2, q2) = computeLenThisBase q1;
          binaries = newInt 4 - newInt lenM + newInt lr2 + newMul (newInt 2) [newInt lq2, newInt lenM];
          (lq3, q3) = computeLenThisBase q2;
          ariths = newInt (lenM * lq3)
      in (steps, binaries, ariths))"

definition halfLoopCounters :: "gint \<Rightarrow> gint \<Rightarrow> gint \<Rightarrow> int \<Rightarrow> int \<times> int \<times> int" where
  "halfLoopCounters lenB lenM lenE lenQE2 =
     (newInt 153 + newMul (newInt 82) [newInt lenM] + newMul (newInt 6) [newInt lenE] +
        newInt (int_quo (80 * lenM * (lenM - 1)) 2) + newMul (newInt 19) [newInt (lenM * lenM)] +
        newMul (newInt 25) [lenQE2],
      newInt 9 + newMul (newInt 6) [newInt lenM] + newInt (int_quo (23 * lenM * (lenM - 1)) 2) +
        newMul (newInt 2) [newInt (lenM * lenM)] + newMul (newInt 3) [lenQE2],
      newInt (- 1) + newMul (newInt 2) [newInt lenM] + newInt (int_quo (2 * lenM * (lenM - 1)) 2) +
        newInt (lenM * lenM))"

definition fullLoopCounters :: "gint \<Rightarrow> gint \<Rightarrow> gint \<Rightarrow> int \<Rightarrow> int \<times> int \<times> int" where
  "fullLoopCounters lenB lenM lenE lenQE2 =
     (newInt 263 + newMul (newInt 114) [newInt lenM] + newMul (newInt 6) [newInt lenE] +
        newInt (int_quo (80 * lenM * (lenM - 1)) 2) + newMul (newInt 57) [newInt (lenM * lenM)] +
        newMul (newInt 25) [lenQE2],
      newInt 17 + newMul (newInt 3) [newInt lenM] + newInt (int_quo (23 * lenM * (lenM - 1)) 2) +
        newMul (newInt 6) [newInt (lenM * lenM)] + newMul (newInt 3) [lenQE2],
      newInt (- 1) + newMul (newInt 2) [newInt lenM] + newInt (int_quo (2 * lenM * (lenM - 1)) 2) +
        newMul (newInt 3) [newInt (lenM * lenM)])"

definition combineResults :: "int \<Rightarrow> int \<Rightarrow> int \<Rightarrow> int \<Rightarrow> int \<Rightarrow> int" where
  "combineResults nTimesOdd nTimesEven firstDiv halfLoop fullLoop =
     firstDiv + nTimesEven * halfLoop + nTimesOdd * fullLoop"

text \<open>The loop that counts the bits set in the exponent; it shifts the exponent down to zero.\<close>

fun count_ones :: "nat \<Rightarrow> int" where
  "count_ones n = (if n = 0 then 0 else int (n mod 2) + count_ones (n div 2))"

declare count_ones.simps [simp del]

definition expectedModExpCounters :: "gint \<Rightarrow> gint \<Rightarrow> gint \<Rightarrow> int \<Rightarrow> int \<Rightarrow> int \<Rightarrow> (int \<times> int \<times> int) res" where
  "expectedModExpCounters lenB lenE lenM base E modulus =
     (if modulus = 0 then Inl (Panic ''division by zero'')
      else
        let q = base div modulus; r = base mod modulus;
            lenQE2 = uint (floor_div lenE 2);
            nTimesOdd = count_ones (nat E);
            nTimesEven = uint lenE * 256;
            (stepFirstDiv, binaryFirstDiv, arithFirstDiv) = setupAndFirstDivCounters lenB lenM q r;
            (stepHalfLoop, binaryHalfLoop, arithHalfLoop) = halfLoopCounters lenB lenM lenE lenQE2;
            (stepFullLoop, binaryFullLoop, arithFullLoop) = fullLoopCounters lenB lenM lenE lenQE2
        in Inr (combineResults nTimesOdd nTimesEven stepFirstDiv stepHalfLoop stepFullLoop,
                combineResults nTimesOdd nTimesEven binaryFirstDiv binaryHalfLoop binaryFullLoop,
                combineResults nTimesOdd nTimesEven arithFirstDiv arithHalfLoop arithFullLoop))"

text \<open>\<^verbatim>\<open>Int64\<close> of a \<^verbatim>\<open>big.Int\<close> keeps the low 64 bits.\<close>

definition modExp :: "gint \<Rightarrow> gint \<Rightarrow> gint \<Rightarrow> int \<Rightarrow> int \<Rightarrow> int \<Rightarrow> cc_op" where
  "modExp bLen mLen eLen base exponent modulus cc =
     res_bind
       (if forkId cc \<ge> ForkId13Durian
        then expectedModExpCounters (ceil_div bLen 32) (ceil_div eLen 32) (ceil_div mLen 32) base exponent modulus
        else expectedModExpCounters (ceil_div bLen 32) (ceil_div mLen 32) (ceil_div eLen 32) base exponent modulus)
       (\<lambda>(steps, binary, arith).
          seq [Deduct S (word_of_int steps), Deduct B (word_of_int binary), Deduct A (word_of_int arith)] cc)"

definition preModExp :: "gint \<Rightarrow> gint \<Rightarrow> gint \<Rightarrow> gint \<Rightarrow> gint \<Rightarrow> int \<Rightarrow> int \<Rightarrow> int \<Rightarrow> cc_op" where
  "preModExp callDataLength returnDataLength bLen mLen eLen base exponent modulus = seq
     [Deduct S 100, Deduct B 20, multiCall readFromCallDataOffset 4, SHRarith, multiCall addArith 2,
      multiCall divArith 3, multiCall mulArith 3, subArith, multiCall SHLarith 2, multiCall mStoreX 2,
      multiCall preModExpLoop (signed_drop_bit 5 callDataLength),
      multiCall preModExpLoop (signed_drop_bit 5 returnDataLength),
      when_op (big_Uint64 modulus > 0) (modExp bLen mLen eLen base exponent modulus)]"

section \<open>Signatures over P-256\<close>

definition SECP256R1_P :: int where
  "SECP256R1_P = 0xffffffff00000001000000000000000000000000ffffffffffffffffffffffff"

text \<open>
  \<^verbatim>\<open>SECP256R1_N.Sub(...)\<close> stores its result in \<^verbatim>\<open>SECP256R1_N\<close> and returns that pointer, twice: after the package is
  initialised the order and both bounds are one number, the field prime less one.
\<close>

definition SECP256R1_N_MINUS_ONE :: int where
  "SECP256R1_N_MINUS_ONE = SECP256R1_P - 1"

definition SECP256R1_P_MINUS_ONE :: int where
  "SECP256R1_P_MINUS_ONE = SECP256R1_P - 1"

definition SECP256R1_A :: int where
  "SECP256R1_A = 0xffffffff00000001000000000000000000000000fffffffffffffffffffffffc"

definition SECP256R1_B :: int where
  "SECP256R1_B = 0x5ac635d8aa3a93e7b3ebbd55769886bc651d06b0cc53b0f63bce3c3e27d2604b"

text \<open>\<^verbatim>\<open>new(big.Int).Mul(x, A).Add(x, B)\<close> overwrites the product with the sum.\<close>

definition p256_ax_b :: "int \<Rightarrow> int" where
  "p256_ax_b x = (let z = x * SECP256R1_A; z = x + SECP256R1_B in z)"

definition p256_on_curve :: "int \<Rightarrow> int \<Rightarrow> bool" where
  "p256_on_curve x y =
     (let aux_x3 = x ^ 3 mod SECP256R1_P;
          aux_x3_ax_b = (aux_x3 + p256_ax_b x) mod SECP256R1_P;
          aux_y2 = y ^ 2 mod SECP256R1_P
      in aux_y2 = aux_x3_ax_b)"

definition p256verify :: "int \<Rightarrow> int \<Rightarrow> int \<Rightarrow> int \<Rightarrow> cc_op" where
  "p256verify r s x y =
     (if r = 0 then seq [Deduct S 13, Deduct B 1]
      else if SECP256R1_N_MINUS_ONE < r then seq [Deduct S 15, Deduct B 2]
      else if s = 0 then seq [Deduct S 17, Deduct B 3]
      else if SECP256R1_N_MINUS_ONE < s then seq [Deduct S 19, Deduct B 4]
      else if SECP256R1_P_MINUS_ONE < x then seq [Deduct S 22, Deduct B 5]
      else if SECP256R1_P_MINUS_ONE < y then seq [Deduct S 24, Deduct B 6]
      else if x = 0 \<and> y = 0 then seq [Deduct S 29, Deduct B 8]
      else if \<not> p256_on_curve x y then seq [Deduct S 104, Deduct B 15, Deduct A 12]
      else seq [Deduct S 7718, Deduct B 22, Deduct A 531])"

definition preP256Verify :: "int \<Rightarrow> int \<Rightarrow> int \<Rightarrow> int \<Rightarrow> cc_op" where
  "preP256Verify r s x y = seq
     [Deduct S 50, Deduct B 1, multiCall readFromCallDataOffset 5, p256verify r s x y, mStore32, mStoreX]"

section \<open>What modular exponentiation is charged\<close>

lemma newMul_0 [simp]: "newMul x (v # vs) = 0"
proof -
  have "foldl (*) 0 (v # vs) = (0 :: int)"
    by (induction vs arbitrary: v) simp_all
  then show ?thesis
    by (simp add: newMul_def newInt_def)
qed

lemma computeLenThisBase_again:
  "0 \<le> x \<Longrightarrow> computeLenThisBase (snd (computeLenThisBase x)) = (1, 0)"
  by (auto simp: computeLenThisBase_def)

lemma setupAndFirstDivCounters_eq:
  assumes "0 \<le> q" "0 \<le> r"
  shows "setupAndFirstDivCounters lenB lenM q r = (86, 5 - uint lenM, uint lenM)"
proof -
  obtain lq where q: "computeLenThisBase q = (lq, snd (computeLenThisBase q))"
    by (metis prod.collapse)
  obtain lr where r: "computeLenThisBase r = (lr, snd (computeLenThisBase r))"
    by (metis prod.collapse)
  show ?thesis
    unfolding setupAndFirstDivCounters_def Let_def
    by (subst q, subst r) (simp add: computeLenThisBase_again [OF assms(1)] computeLenThisBase_again [OF assms(2)]
        newInt_def computeLenThisBase_def [of 0])
qed

lemma int_quo_half:
  assumes "0 \<le> t" "t < 2 ^ 62"
  shows "newInt (int_quo (word_of_int t) 2) = t div 2"
proof -
  have "sint (word_of_int t :: gint) = t"
    using assms by (simp add: signed_of_int signed_take_bit_int_eq_self_iff)
  moreover have "sgn t * (\<bar>t\<bar> div 2) = t div 2"
    using assms(1) by (cases "t = 0") simp_all
  moreover have "0 \<le> t div 2" "t div 2 < 2 ^ 62"
    using assms by (simp_all add: pos_imp_zdiv_nonneg_iff)
  then have "uint (word_of_int (t div 2) :: gint) = t div 2"
    by (simp add: unsigned_of_int take_bit_int_eq_self_iff)
  ultimately show ?thesis
    by (simp add: newInt_def int_quo_def)
qed

lemma triangle_eq:
  assumes "uint m \<le> 2 ^ 16" "0 \<le> k" "k \<le> 100"
  shows "newInt (int_quo (word_of_int k * m * (m - 1)) 2) = k * uint m * (uint m - 1) div 2"
proof (cases "m = 0")
  case False
  define n where "n = uint m"
  have "0 < n"
    using False uint_ge_0 [of m] unfolding n_def by (metis order_le_less uint_0_iff)
  then have n: "1 \<le> n" "n \<le> 2 ^ 16"
    using assms(1) by (simp_all add: n_def)
  have "k * n * (n - 1) \<le> 100 * 2 ^ 16 * 2 ^ 16"
    using n assms by (intro mult_mono) simp_all
  moreover have "0 \<le> k * n * (n - 1)"
    using n assms by simp
  ultimately have "newInt (int_quo (word_of_int (k * n * (n - 1))) 2) = k * n * (n - 1) div 2"
    by (intro int_quo_half) simp_all
  then show ?thesis
    by (simp add: n_def)
qed (simp add: newInt_def int_quo_def)

lemma square_eq: "uint m \<le> 2 ^ 16 \<Longrightarrow> newInt (m * m) = uint m * uint m"
  using mult_mono [of "uint m" "2 ^ 16" "uint m" "2 ^ 16"]
  by (simp add: newInt_def uint_word_ariths)

text \<open>
  C11. What a modular exponentiation is charged, in closed form: for a modulus that is not zero and lengths within
  bounds the charge depends only on the two lengths \<^verbatim>\<open>lenE\<close> and \<^verbatim>\<open>lenM\<close> and on the number of ones of the exponent.
  The length of the base, the sizes of quotient and remainder and every term the code writes as a product with
  \<^verbatim>\<open>newMul\<close> do not contribute, since that product starts from zero.
\<close>

theorem expectedModExpCounters_closed_form:
  assumes "0 < modulus" "0 \<le> base" "uint lenM \<le> 2 ^ 16"
  shows "expectedModExpCounters lenB lenE lenM base E modulus =
    (let m = uint lenM; even_rounds = 256 * uint lenE; ones = count_ones (nat E) in
     Inr (86 + even_rounds * (153 + 40 * m * (m - 1)) + ones * (263 + 40 * m * (m - 1)),
          5 - m + even_rounds * (9 + 23 * m * (m - 1) div 2) + ones * (17 + 23 * m * (m - 1) div 2),
          m + even_rounds * (2 ^ 64 - 1 + m * (m - 1) + m * m) + ones * (2 ^ 64 - 1 + m * (m - 1))))"
proof -
  have "0 \<le> base div modulus" "0 \<le> base mod modulus"
    using assms(1,2) by (simp_all add: pos_imp_zdiv_nonneg_iff)
  moreover have "uint (lenM * lenM) = uint lenM * uint lenM" "uint (- 1 :: gint) = 2 ^ 64 - 1"
    using square_eq [OF assms(3)] by (simp_all add: newInt_def unsigned_minus_1_eq_mask mask_eq_exp_minus_1)
  ultimately show ?thesis
    using assms triangle_eq [of lenM 80] triangle_eq [of lenM 23] triangle_eq [of lenM 2]
    by (simp add: expectedModExpCounters_def Let_def setupAndFirstDivCounters_eq halfLoopCounters_def
        fullLoopCounters_def combineResults_def newInt_def mult.commute [of "uint lenE"] mult.assoc)
qed

theorem expectedModExpCounters_closed_form_witness:
  "expectedModExpCounters 1 2 3 7 6 5 =
    (let m = uint (3 :: gint); even_rounds = 256 * uint (2 :: gint); ones = count_ones (nat 6) in
     Inr (86 + even_rounds * (153 + 40 * m * (m - 1)) + ones * (263 + 40 * m * (m - 1)),
          5 - m + even_rounds * (9 + 23 * m * (m - 1) div 2) + ones * (17 + 23 * m * (m - 1) div 2),
          m + even_rounds * (2 ^ 64 - 1 + m * (m - 1) + m * m) + ones * (2 ^ 64 - 1 + m * (m - 1))))"
  by (rule expectedModExpCounters_closed_form) simp_all

text \<open>
  C12. A modulus whose low 64 bits are zero is charged as if there were no exponentiation at all: \<^verbatim>\<open>preModExp\<close> then
  charges exactly what it charges for the modulus zero, whatever the base, the exponent and their lengths are.
\<close>

theorem preModExp_skips:
  assumes "2 ^ 64 dvd modulus"
  shows "preModExp callDataLength returnDataLength bLen mLen eLen base exponent modulus =
    preModExp callDataLength returnDataLength bLen' mLen' eLen' base' exponent' 0"
proof -
  have "big_Uint64 modulus = 0"
    using assms unfolding big_Uint64_def by (simp add: word_of_int_eq_0_iff)
  moreover have "big_Uint64 0 = 0"
    by (simp add: big_Uint64_def)
  ultimately show ?thesis
    by (simp add: preModExp_def when_op_def)
qed

theorem preModExp_skips_witness:
  "preModExp 96 32 32 32 32 3 5 (2 ^ 64) = preModExp 96 32 0 0 0 0 0 0"
  by (rule preModExp_skips) simp

section \<open>Curve points\<close>

lemma int_mod_eqI: "a = b * q + r \<Longrightarrow> 0 \<le> r \<Longrightarrow> r < b \<Longrightarrow> a mod b = (r :: int)"
  by simp

text \<open>The multiplier of the code's curve equation differs from the curve's by four modulo the prime, which is odd.\<close>

lemma SECP256R1_A_eq: "SECP256R1_A = SECP256R1_P - 3"
  by (simp add: SECP256R1_A_def SECP256R1_P_def)

lemma coprime_4_P: "coprime 4 SECP256R1_P"
proof -
  have "\<not> 2 dvd SECP256R1_P"
    by (simp add: SECP256R1_P_def)
  then have "coprime 2 SECP256R1_P"
    by (simp add: coprime_left_2_iff_odd)
  then have "coprime (2 ^ 2) SECP256R1_P"
    by (subst coprime_power_left_iff) simp
  then show ?thesis
    by simp
qed

lemma p256_on_curve_iff:
  assumes "y ^ 2 mod SECP256R1_P = (x ^ 3 + SECP256R1_A * x + SECP256R1_B) mod SECP256R1_P"
  shows "p256_on_curve x y \<longleftrightarrow> SECP256R1_P dvd x"
proof -
  have "p256_on_curve x y \<longleftrightarrow>
      (x ^ 3 + SECP256R1_A * x + SECP256R1_B) mod SECP256R1_P = (x ^ 3 + (x + SECP256R1_B)) mod SECP256R1_P"
    using assms by (simp add: p256_on_curve_def p256_ax_b_def Let_def mod_add_left_eq)
  also have "\<dots> \<longleftrightarrow> SECP256R1_P dvd (SECP256R1_P - 4) * x"
    by (simp add: mod_eq_dvd_iff SECP256R1_A_eq algebra_simps)
  also have "\<dots> \<longleftrightarrow> SECP256R1_P dvd 4 * x"
  proof -
    have "(SECP256R1_P - 4) * x = SECP256R1_P * x - 4 * x"
      by (simp add: left_diff_distrib)
    then show ?thesis
      by (metis dvd_diff_right_iff dvd_triv_left)
  qed
  also have "\<dots> \<longleftrightarrow> SECP256R1_P dvd x"
    using coprime_4_P by (simp add: coprime_commute coprime_dvd_mult_right_iff)
  finally show ?thesis .
qed

lemma charges_differ:
  assumes "a \<noteq> c"
  shows "seq [Deduct S a, Deduct B b] \<noteq> seq [Deduct S c, Deduct B d, Deduct A e]"
    "seq [Deduct S a, Deduct B b, Deduct A n] \<noteq> seq [Deduct S c, Deduct B d, Deduct A e]"
proof -
  have "seq [Deduct S a, Deduct B b] sample_collector \<noteq> seq [Deduct S c, Deduct B d, Deduct A e] sample_collector"
    "seq [Deduct S a, Deduct B b, Deduct A n] sample_collector \<noteq> seq [Deduct S c, Deduct B d, Deduct A e] sample_collector"
    using assms by (simp_all add: sample_collector_def full_counter_def Deduct_def deduct_counter_def)
  then show "seq [Deduct S a, Deduct B b] \<noteq> seq [Deduct S c, Deduct B d, Deduct A e]"
    "seq [Deduct S a, Deduct B b, Deduct A n] \<noteq> seq [Deduct S c, Deduct B d, Deduct A e]"
    by metis+
qed

lemma p256_origin: "0 ^ 2 mod SECP256R1_P \<noteq> (0 ^ 3 + SECP256R1_A * 0 + SECP256R1_B) mod SECP256R1_P"
  by (simp add: SECP256R1_P_def SECP256R1_B_def)

lemma SECP256R1_bounds: "SECP256R1_N_MINUS_ONE < z \<longleftrightarrow> \<not> z < SECP256R1_P" "SECP256R1_P_MINUS_ONE < z \<longleftrightarrow> \<not> z < SECP256R1_P"
  by (auto simp: SECP256R1_N_MINUS_ONE_def SECP256R1_P_MINUS_ONE_def)

text \<open>What a key on the curve is charged, with the bounds written with the prime.\<close>

lemma p256verify_on_curve:
  assumes "0 \<le> x" and curve: "y ^ 2 mod SECP256R1_P = (x ^ 3 + SECP256R1_A * x + SECP256R1_B) mod SECP256R1_P"
  shows "p256verify r s x y =
     (if r = 0 then seq [Deduct S 13, Deduct B 1]
      else if \<not> r < SECP256R1_P then seq [Deduct S 15, Deduct B 2]
      else if s = 0 then seq [Deduct S 17, Deduct B 3]
      else if \<not> s < SECP256R1_P then seq [Deduct S 19, Deduct B 4]
      else if \<not> x < SECP256R1_P then seq [Deduct S 22, Deduct B 5]
      else if \<not> y < SECP256R1_P then seq [Deduct S 24, Deduct B 6]
      else if x \<noteq> 0 then seq [Deduct S 104, Deduct B 15, Deduct A 12]
      else seq [Deduct S 7718, Deduct B 22, Deduct A 531])"
proof -
  have "p256_on_curve x y \<longleftrightarrow> x = 0" if "x < SECP256R1_P"
    using p256_on_curve_iff [OF curve] that assms(1) zdvd_imp_le [of SECP256R1_P x] by force
  moreover have "\<not> (x = 0 \<and> y = 0)"
    using curve p256_origin by blast
  ultimately show ?thesis
    by (simp only: p256verify_def SECP256R1_bounds) simp
qed

text \<open>
  C13. The check that a public key lies on the curve turns the keys of the curve away. For every point that satisfies the
  curve equation \<open>y\<^sup>2 = x\<^sup>3 + a x + b\<close> modulo the field prime, and for any \<open>r\<close> and \<open>s\<close>, the cost of a verification is charged
  exactly when \<open>r\<close> and \<open>s\<close> lie strictly between zero and the prime, \<open>y\<close> is below the prime and \<open>x\<close> is zero. Under the same
  bounds a point of the curve with any other \<open>x\<close> below the prime, and nothing else, is charged as a key that is not on the
  curve (104, 15 and 12).
\<close>

theorem p256verify_curve_points:
  assumes "0 \<le> r" "0 \<le> s" "0 \<le> x" "0 \<le> y"
    "y ^ 2 mod SECP256R1_P = (x ^ 3 + SECP256R1_A * x + SECP256R1_B) mod SECP256R1_P"
  shows "(p256verify r s x y = seq [Deduct S 7718, Deduct B 22, Deduct A 531] \<longleftrightarrow>
      0 < r \<and> r < SECP256R1_P \<and> 0 < s \<and> s < SECP256R1_P \<and> x = 0 \<and> y < SECP256R1_P) \<and>
    (p256verify r s x y = seq [Deduct S 104, Deduct B 15, Deduct A 12] \<longleftrightarrow>
      0 < r \<and> r < SECP256R1_P \<and> 0 < s \<and> s < SECP256R1_P \<and> 0 < x \<and> x < SECP256R1_P \<and> y < SECP256R1_P)"
proof -
  have pos: "0 < SECP256R1_P"
    by (simp add: SECP256R1_P_def)
  have ne: "seq [Deduct S 7718, Deduct B 22, Deduct A 531] \<noteq> seq [Deduct S 104, Deduct B 15, Deduct A 12]"
    by (rule charges_differ) simp
  show ?thesis
    unfolding p256verify_on_curve [OF assms(3,5)] using assms(1-4) pos ne
    by (simp add: charges_differ del: seq.simps)
qed

theorem p256verify_curve_points_witness:
  "p256verify 1 1 0x6b17d1f2e12c4247f8bce6e563a440f277037d812deb33a0f4a13945d898c296
      0x4fe342e2fe1a7f9b8ee7eb4a7c0f9e162bce33576b315ececbb6406837bf51f5 =
    seq [Deduct S 104, Deduct B 15, Deduct A 12]"
proof -
  define x y :: int where "x = 0x6b17d1f2e12c4247f8bce6e563a440f277037d812deb33a0f4a13945d898c296"
    and "y = 0x4fe342e2fe1a7f9b8ee7eb4a7c0f9e162bce33576b315ececbb6406837bf51f5"
  have "y ^ 2 mod SECP256R1_P =
      0x55df5d5850f47bad82149139979369fe498a9022a412b5e0bedd2cfc21c3ed91"
    unfolding y_def SECP256R1_P_def
    by (rule int_mod_eqI [where q = "0x18ee0d07e1cadf1365bd80dd843314dd534834655163ed44a7f051b975f0f918"]) simp_all
  moreover have "(x ^ 3 + SECP256R1_A * x + SECP256R1_B) mod SECP256R1_P =
      0x55df5d5850f47bad82149139979369fe498a9022a412b5e0bedd2cfc21c3ed91"
    unfolding x_def SECP256R1_P_def SECP256R1_A_def SECP256R1_B_def
    by (rule int_mod_eqI [where q = "0x12bdd1ad23dfc833dccf5f6141d6bb4a1f365dc1430b0e600b52dd851938d2d71736e5a1f1f311915c29ab59230f53242134be4c00f81c5faa1bd1a2b128c006"])
      simp_all
  moreover have "0 < x" "x < SECP256R1_P" "0 < y" "y < SECP256R1_P" "1 < SECP256R1_P"
    by (simp_all add: x_def y_def SECP256R1_P_def)
  ultimately have "p256verify 1 1 x y = seq [Deduct S 104, Deduct B 15, Deduct A 12]"
    using p256verify_curve_points [of 1 1 x y] by simp
  then show ?thesis
    by (simp only: x_def y_def)
qed

end
