(* ===== verification/Rlp.thy ===== *)
theory Rlp
  imports Go_Bytes
begin

unbundle bit_operations_syntax

text \<open>
  Recursive length prefixes: the encoder of \<^verbatim>\<open>src/rlp/encode.go\<close> and the splitter of \<^verbatim>\<open>src/rlp/raw.go\<close>. The encoder
  works as the code does, with a buffer for the string data and a list of list headers whose sizes are filled in when a
  list ends. The values it writes are trees of byte strings (slices of slices of bytes). Lengths of slices are natural
  numbers, \<^verbatim>\<open>uint64\<close> sizes are words.
\<close>

section \<open>Integers and headers\<close>

text \<open>The bytes \<^verbatim>\<open>putint\<close> writes; their number is the result of the function.\<close>

definition putint :: "u64 \<Rightarrow> bytes" where
  "putint i =
     (if i < 2 ^ 8 then [ucast i]
      else if i < 2 ^ 16 then [ucast (drop_bit 8 i), ucast i]
      else if i < 2 ^ 24 then [ucast (drop_bit 16 i), ucast (drop_bit 8 i), ucast i]
      else if i < 2 ^ 32 then [ucast (drop_bit 24 i), ucast (drop_bit 16 i), ucast (drop_bit 8 i), ucast i]
      else if i < 2 ^ 40 then
        [ucast (drop_bit 32 i), ucast (drop_bit 24 i), ucast (drop_bit 16 i), ucast (drop_bit 8 i), ucast i]
      else if i < 2 ^ 48 then
        [ucast (drop_bit 40 i), ucast (drop_bit 32 i), ucast (drop_bit 24 i), ucast (drop_bit 16 i), ucast (drop_bit 8 i),
         ucast i]
      else if i < 2 ^ 56 then
        [ucast (drop_bit 48 i), ucast (drop_bit 40 i), ucast (drop_bit 32 i), ucast (drop_bit 24 i), ucast (drop_bit 16 i),
         ucast (drop_bit 8 i), ucast i]
      else
        [ucast (drop_bit 56 i), ucast (drop_bit 48 i), ucast (drop_bit 40 i), ucast (drop_bit 32 i), ucast (drop_bit 24 i),
         ucast (drop_bit 16 i), ucast (drop_bit 8 i), ucast i])"

text \<open>\<^verbatim>\<open>intsize\<close>: the number of bytes from the bit length; zero for zero.\<close>

fun bits_Len64 :: "nat \<Rightarrow> nat" where
  "bits_Len64 n = (if n = 0 then 0 else Suc (bits_Len64 (n div 2)))"

declare bits_Len64.simps [simp del]

definition intsize :: "u64 \<Rightarrow> nat" where
  "intsize i = (bits_Len64 (unat i) + 7) div 8"

definition headsize :: "u64 \<Rightarrow> nat" where
  "headsize sz = (if sz < 56 then 1 else 1 + intsize sz)"

definition puthead :: "u8 \<Rightarrow> u8 \<Rightarrow> u64 \<Rightarrow> bytes" where
  "puthead smalltag largetag sz =
     (if sz < 56 then [smalltag + ucast sz]
      else let sizesize = putint sz in (largetag + of_nat (length sizesize)) # sizesize)"

section \<open>The encoder\<close>

record encbuf =
  eb_str :: bytes
  eb_lheads :: "(nat \<times> nat) list"
  eb_lhsize :: nat

definition eb_reset :: encbuf where
  "eb_reset = \<lparr>eb_str = [], eb_lheads = [], eb_lhsize = 0\<rparr>"

definition eb_size :: "encbuf \<Rightarrow> nat" where
  "eb_size w = length (eb_str w) + eb_lhsize w"

definition encodeStringHeader :: "nat \<Rightarrow> encbuf \<Rightarrow> encbuf" where
  "encodeStringHeader sz w =
     (if sz < 56 then w\<lparr>eb_str := eb_str w @ [0x80 + of_nat sz]\<rparr>
      else let sizesize = putint (of_nat sz) in
        w\<lparr>eb_str := eb_str w @ (0xB7 + of_nat (length sizesize)) # sizesize\<rparr>)"

definition encodeString :: "bytes \<Rightarrow> encbuf \<Rightarrow> encbuf" where
  "encodeString b w =
     (if length b = 1 \<and> b ! 0 \<le> 0x7F then w\<lparr>eb_str := eb_str w @ [b ! 0]\<rparr>
      else let w = encodeStringHeader (length b) w in w\<lparr>eb_str := eb_str w @ b\<rparr>)"

definition encodeUint :: "u64 \<Rightarrow> encbuf \<Rightarrow> encbuf" where
  "encodeUint i w =
     (if i = 0 then w\<lparr>eb_str := eb_str w @ [0x80]\<rparr>
      else if i < 128 then w\<lparr>eb_str := eb_str w @ [ucast i]\<rparr>
      else let s = putint i in w\<lparr>eb_str := eb_str w @ (0x80 + of_nat (length s)) # s\<rparr>)"

definition eb_list :: "encbuf \<Rightarrow> nat \<times> encbuf" where
  "eb_list w = (length (eb_lheads w), w\<lparr>eb_lheads := eb_lheads w @ [(length (eb_str w), eb_lhsize w)]\<rparr>)"

definition listEnd :: "nat \<Rightarrow> encbuf \<Rightarrow> encbuf" where
  "listEnd index w =
     (let (offset, start) = eb_lheads w ! index;
          sz = eb_size w - offset - start;
          w = w\<lparr>eb_lheads := (eb_lheads w)[index := (offset, sz)]\<rparr>
      in if sz < 56 then w\<lparr>eb_lhsize := eb_lhsize w + 1\<rparr>
         else w\<lparr>eb_lhsize := eb_lhsize w + (1 + intsize (of_nat sz))\<rparr>)"

definition listhead_encode :: "nat \<Rightarrow> bytes" where
  "listhead_encode sz = puthead 0xC0 0xF7 (of_nat sz)"

text \<open>The output: the string data with the headers put in at their offsets, in an array of the size computed.\<close>

fun to_bytes_loop :: "bytes \<Rightarrow> (nat \<times> nat) list \<Rightarrow> nat \<Rightarrow> bytes" where
  "to_bytes_loop str [] strpos = drop strpos str"
| "to_bytes_loop str ((offset, sz) # heads) strpos =
     take (offset - strpos) (drop strpos str) @ listhead_encode sz @ to_bytes_loop str heads (max strpos offset)"

definition toBytes :: "encbuf \<Rightarrow> bytes" where
  "toBytes w = take (eb_size w) (to_bytes_loop (eb_str w) (eb_lheads w) 0 @ replicate (eb_size w) 0)"

datatype rlp_item = Str bytes | Lst "rlp_item list"

text \<open>\<^verbatim>\<open>writeBytes\<close> and the writer of slices.\<close>

fun write_item :: "rlp_item \<Rightarrow> encbuf \<Rightarrow> encbuf"
  and write_items :: "rlp_item list \<Rightarrow> encbuf \<Rightarrow> encbuf" where
  "write_item (Str b) w = encodeString b w"
| "write_item (Lst xs) w = (let (index, w) = eb_list w in listEnd index (write_items xs w))"
| "write_items [] w = w"
| "write_items (x # xs) w = write_items xs (write_item x w)"

definition EncodeToBytes :: "rlp_item \<Rightarrow> bytes" where
  "EncodeToBytes x = toBytes (write_item x eb_reset)"

section \<open>Splitting encoded values\<close>

datatype kind = Byte | String | List

definition ErrCanonSize :: go_error where "ErrCanonSize = Error ''rlp: non-canonical size information''"
definition ErrCanonInt :: go_error where "ErrCanonInt = Error ''rlp: non-canonical integer format''"
definition ErrValueTooLarge :: go_error where "ErrValueTooLarge = Error ''rlp: value size exceeds available input length''"
definition ErrExpectedString :: go_error where "ErrExpectedString = Error ''rlp: expected String or Byte''"
definition ErrExpectedList :: go_error where "ErrExpectedList = Error ''rlp: expected List''"
definition ErrUnexpectedEOF :: go_error where "ErrUnexpectedEOF = Error ''unexpected EOF''"
definition errUintOverflow :: go_error where "errUintOverflow = Error ''rlp: uint overflow''"

definition be_word :: "bytes \<Rightarrow> u64" where
  "be_word bs = foldl (\<lambda>s b. push_bit 8 s OR ucast b) 0 bs"

definition readSize :: "bytes \<Rightarrow> u8 \<Rightarrow> u64 res" where
  "readSize b slen =
     (if unat slen > length b then Inl ErrUnexpectedEOF
      else
        let s = (if 1 \<le> slen \<and> slen \<le> 8 then be_word (take (unat slen) b) else 0) in
        if s < 56 then Inl ErrCanonSize
        else res_bind (nth_res b 0) (\<lambda>b0. if b0 = 0 then Inl ErrCanonSize else Inr s))"

definition readKind :: "bytes \<Rightarrow> (kind \<times> u64 \<times> u64) res" where
  "readKind buf =
     (case buf of
        [] \<Rightarrow> Inl ErrUnexpectedEOF
      | b # tail \<Rightarrow>
          res_bind
            (if b < 0x80 then Inr (Byte, 0, 1)
             else if b < 0xB8 then
               (if ucast (b - 0x80) = (1 :: u64) \<and> tail \<noteq> [] \<and> hd tail < 128 then Inl ErrCanonSize
                else Inr (String, 1, ucast (b - 0x80)))
             else if b < 0xC0 then
               res_bind (readSize tail (b - 0xB7)) (\<lambda>s. Inr (String, ucast (b - 0xB7) + 1, s))
             else if b < 0xF8 then Inr (List, 1, ucast (b - 0xC0))
             else res_bind (readSize tail (b - 0xF7)) (\<lambda>s. Inr (List, ucast (b - 0xF7) + 1, s)))
            (\<lambda>(k, tagsize, contentsize).
               if contentsize > of_nat (length buf) - tagsize then Inl ErrValueTooLarge
               else Inr (k, tagsize, contentsize)))"

definition rlp_Split :: "bytes \<Rightarrow> (kind \<times> bytes \<times> bytes) res" where
  "rlp_Split b = res_bind (readKind b) (\<lambda>(k, ts, cs).
     res_bind (slice_res b (unat ts) (unat (ts + cs))) (\<lambda>content.
     res_bind (slice_res b (unat (ts + cs)) (length b)) (\<lambda>rest. Inr (k, content, rest))))"

definition SplitString :: "bytes \<Rightarrow> (bytes \<times> bytes) res" where
  "SplitString b = res_bind (rlp_Split b) (\<lambda>(k, content, rest).
     if k = List then Inl ErrExpectedString else Inr (content, rest))"

definition SplitList :: "bytes \<Rightarrow> (bytes \<times> bytes) res" where
  "SplitList b = res_bind (rlp_Split b) (\<lambda>(k, content, rest).
     if k \<noteq> List then Inl ErrExpectedList else Inr (content, rest))"

definition SplitUint64 :: "bytes \<Rightarrow> (u64 \<times> bytes) res" where
  "SplitUint64 b = res_bind (SplitString b) (\<lambda>(content, rest).
     if length content = 0 then Inr (0, rest)
     else if length content = 1 then
       (if content ! 0 = 0 then Inl ErrCanonInt else Inr (ucast (content ! 0), rest))
     else if length content > 8 then Inl errUintOverflow
     else (case readSize content (of_nat (length content)) of
             Inl _ \<Rightarrow> Inl ErrCanonInt
           | Inr x \<Rightarrow> Inr (x, rest)))"

text \<open>The loop of \<^verbatim>\<open>CountValues\<close>, \<^verbatim>\<open>None\<close> if it does not end.\<close>

partial_function (option) count_loop :: "nat \<Rightarrow> bytes \<Rightarrow> nat res option" where
  "count_loop i b =
     (if length b > 0 then
        (case readKind b of
           Inl e \<Rightarrow> Some (Inl e)
         | Inr (_, tagsize, sz) \<Rightarrow>
             (case slice_res b (unat (tagsize + sz)) (length b) of
                Inl e \<Rightarrow> Some (Inl e)
              | Inr b' \<Rightarrow> count_loop (i + 1) b'))
      else Some (Inr i))"

definition CountValues :: "bytes \<Rightarrow> nat res option" where
  "CountValues b = count_loop 0 b"

definition ListSize :: "u64 \<Rightarrow> u64" where
  "ListSize contentSize = of_nat (headsize contentSize) + contentSize"

definition IntSize :: "u64 \<Rightarrow> nat" where
  "IntSize x = (if x < 0x80 then 1 else 1 + intsize x)"

definition AppendUint64 :: "bytes \<Rightarrow> u64 \<Rightarrow> bytes" where
  "AppendUint64 b i =
     (if i = 0 then b @ [0x80]
      else if i < 128 then b @ [ucast i]
      else if i < 2 ^ 8 then b @ [0x81, ucast i]
      else if i < 2 ^ 16 then b @ [0x82, ucast (drop_bit 8 i), ucast i]
      else if i < 2 ^ 24 then b @ [0x83, ucast (drop_bit 16 i), ucast (drop_bit 8 i), ucast i]
      else if i < 2 ^ 32 then b @ [0x84, ucast (drop_bit 24 i), ucast (drop_bit 16 i), ucast (drop_bit 8 i), ucast i]
      else if i < 2 ^ 40 then
        b @ [0x85, ucast (drop_bit 32 i), ucast (drop_bit 24 i), ucast (drop_bit 16 i), ucast (drop_bit 8 i), ucast i]
      else if i < 2 ^ 48 then
        b @ [0x86, ucast (drop_bit 40 i), ucast (drop_bit 32 i), ucast (drop_bit 24 i), ucast (drop_bit 16 i),
             ucast (drop_bit 8 i), ucast i]
      else if i < 2 ^ 56 then
        b @ [0x87, ucast (drop_bit 48 i), ucast (drop_bit 40 i), ucast (drop_bit 32 i), ucast (drop_bit 24 i),
             ucast (drop_bit 16 i), ucast (drop_bit 8 i), ucast i]
      else
        b @ [0x88, ucast (drop_bit 56 i), ucast (drop_bit 48 i), ucast (drop_bit 40 i), ucast (drop_bit 32 i),
             ucast (drop_bit 24 i), ucast (drop_bit 16 i), ucast (drop_bit 8 i), ucast i])"

section \<open>Big-endian sizes\<close>

lemma ucast_drop_bit: "(ucast (drop_bit k i) :: u8) = of_nat (unat (i :: u64) div 2 ^ k)"
proof -
  have "unat (drop_bit k i) = drop_bit k (unat i)"
    using unsigned_less [of i, where ?'a = nat]
    by (simp add: unsigned_drop_bit_eq take_bit_nat_eq_self del: unsigned_less)
  then have "unat (drop_bit k i) = unat i div 2 ^ k"
    by (simp only: drop_bit_eq_div)
  then show ?thesis
    by (metis of_nat_unat)
qed

lemma ucast_nat: "(ucast i :: u8) = of_nat (unat (i :: u64))"
  using ucast_drop_bit [of 0 i] by simp

text \<open>Big-endian digits of a number.\<close>

definition be_digits :: "nat \<Rightarrow> nat \<Rightarrow> bytes" where
  "be_digits k n = map (\<lambda>j. of_nat (n div 256 ^ j)) (rev [0..<k])"

lemma be_digits_Suc: "be_digits (Suc k) n = be_digits k (n div 256) @ [of_nat n]"
proof -
  have "[0..<Suc k] = 0 # map Suc [0..<k]"
    by (simp only: upt_conv_Cons [of 0 "Suc k"] map_Suc_upt zero_less_Suc)
  then show ?thesis
    by (simp add: be_digits_def rev_map comp_def div_mult2_eq)
qed

lemma nat_bytes_digits:
  "n < 256 ^ k \<Longrightarrow> 256 ^ (k - 1) \<le> n \<Longrightarrow> 0 < k \<Longrightarrow> nat_bytes n = be_digits k n"
proof (induction k arbitrary: n)
  case (Suc k)
  have "n \<noteq> 0"
    using Suc.prems(2) by (cases n) auto
  show ?case
  proof (cases "k = 0")
    case True
    then show ?thesis
      using Suc.prems \<open>n \<noteq> 0\<close> by (simp add: nat_bytes_step be_digits_def)
  next
    case False
    then obtain l where k: "k = Suc l"
      by (cases k) auto
    have "n div 256 < 256 ^ k" "256 ^ (k - 1) \<le> n div 256"
      using Suc.prems unfolding k by (simp_all add: less_mult_imp_div_less mult.commute less_eq_div_iff_mult_less_eq)
    then have "nat_bytes (n div 256) = be_digits k (n div 256)"
      using Suc.IH False by simp
    then show ?thesis
      using \<open>n \<noteq> 0\<close> by (simp add: nat_bytes_step be_digits_Suc)
  qed
qed simp

lemma digit_range:
  fixes n :: nat
  assumes "0 < n" "n < 256 ^ 8"
  obtains k where "256 ^ (k - 1) \<le> n" "n < 256 ^ k" "k \<in> {1, 2, 3, 4, 5, 6, 7, 8}"
proof -
  define k where "k = (LEAST k. n < 256 ^ k)"
  have k: "n < 256 ^ k" "k \<le> 8"
    unfolding k_def using assms(2) LeastI [of "\<lambda>k. n < 256 ^ k" 8] Least_le [of "\<lambda>k. n < 256 ^ k" 8] by simp_all
  then have "0 < k"
    using assms(1) by (cases k) auto
  then have "256 ^ (k - 1) \<le> n"
    using not_less_Least [of "k - 1" "\<lambda>k. n < 256 ^ k"] by (simp add: k_def not_less)
  moreover have "k \<in> {1, 2, 3, 4, 5, 6, 7, 8}"
    using k(2) \<open>0 < k\<close> by auto
  ultimately show thesis
    using k(1) that by blast
qed

lemma putint_nat_bytes:
  assumes "i \<noteq> 0"
  shows "putint i = nat_bytes (unat i)"
proof -
  define n where "n = unat i"
  have "0 < n" "n < 256 ^ 8"
    using assms unsigned_less [of i, where ?'a = nat] by (simp_all add: n_def unat_gt_0)
  then obtain k where k: "256 ^ (k - 1) \<le> n" "n < 256 ^ k" "k \<in> {1, 2, 3, 4, 5, 6, 7, 8}"
    by (rule digit_range)
  have "putint i = be_digits k n"
  proof -
    have "k = 1 \<or> k = 2 \<or> k = 3 \<or> k = 4 \<or> k = 5 \<or> k = 6 \<or> k = 7 \<or> k = 8"
      using k(3) by simp
    moreover have "(ucast (drop_bit j i) :: u8) = of_nat (n div 2 ^ j)" "(ucast i :: u8) = of_nat n" for j
      unfolding n_def by (rule ucast_drop_bit, rule ucast_nat)
    ultimately show ?thesis
      using k(1,2) unfolding putint_def word_less_nat_alt n_def [symmetric]
      by (elim disjE) (simp_all add: be_digits_def upt_rec)
  qed
  moreover have "0 < k"
    using k(3) by auto
  ultimately show ?thesis
    using nat_bytes_digits [OF k(2,1)] by (simp add: n_def)
qed

lemma length_be_digits [simp]: "length (be_digits k n) = k"
  by (simp add: be_digits_def)

lemma bits_Len64_le: "bits_Len64 n \<le> b \<longleftrightarrow> n < 2 ^ b"
proof (induction b arbitrary: n)
  case 0
  then show ?case
    by (subst bits_Len64.simps) auto
next
  case (Suc b)
  then show ?case
    by (subst bits_Len64.simps) (auto simp: less_mult_imp_div_less mult.commute div_less_iff_less_mult)
qed

lemma length_nat_bytes:
  assumes "0 < n" "n < 256 ^ 8"
  shows "length (nat_bytes n) = (bits_Len64 n + 7) div 8" "length (nat_bytes n) \<le> 8" "nat_bytes n \<noteq> []"
proof -
  obtain k where k: "256 ^ (k - 1) \<le> n" "n < 256 ^ k" "k \<in> {1, 2, 3, 4, 5, 6, 7, 8}"
    using assms by (rule digit_range)
  have pow: "(256 :: nat) ^ j = 2 ^ (8 * j)" for j
    by (simp add: power_mult)
  have "bits_Len64 n \<le> 8 * k" "\<not> bits_Len64 n \<le> 8 * (k - 1)"
    using k(1,2) by (simp_all add: bits_Len64_le pow)
  moreover have len: "length (nat_bytes n) = k"
    using nat_bytes_digits [OF k(2,1)] k(3) by auto
  ultimately show "length (nat_bytes n) = (bits_Len64 n + 7) div 8"
    by simp
  show "length (nat_bytes n) \<le> 8" "nat_bytes n \<noteq> []"
    using len k(3) by auto
qed

lemma hd_nat_bytes: "n \<noteq> 0 \<Longrightarrow> hd (nat_bytes n) \<noteq> 0"
proof (induction n rule: nat_bytes.induct)
  case (1 n)
  show ?case
  proof (cases "n < 256")
    case True
    then show ?thesis
      using 1 by (simp add: nat_bytes_step word_unat_eq_iff unsigned_of_nat take_bit_nat_eq_self)
  next
    case False
    then have "n div 256 \<noteq> 0"
      by simp
    moreover then have "nat_bytes (n div 256) \<noteq> []"
      by (simp add: nat_bytes_step)
    ultimately show ?thesis
      using 1 by (simp add: nat_bytes_step [of n])
  qed
qed

lemma push_bit_or_byte: "push_bit 8 s OR ucast (b :: u8) = s * 256 + (ucast b :: u64)"
proof -
  have "push_bit 8 s + (ucast b :: u64) = push_bit 8 s OR ucast b"
    by (rule disjunctive_add) (auto simp: bit_simps dest: bit_imp_le_length)
  then show ?thesis
    by (simp add: push_bit_eq_mult)
qed

lemma be_word_SetBytes: "be_word bs = word_of_int (big_SetBytes bs)"
  unfolding be_word_def
  by (induction bs rule: rev_induct) (simp_all add: push_bit_or_byte big_SetBytes_def)

lemma be_word_nat_bytes: "be_word (nat_bytes n) = of_nat n"
  by (simp add: be_word_SetBytes big_SetBytes_nat_bytes)

lemma nat_bytes_nth_0: "n \<noteq> 0 \<Longrightarrow> nat_bytes n ! 0 \<noteq> 0"
  using hd_nat_bytes [of n] nat_bytes_step [of n] by (metis Nil_is_append_conv hd_conv_nth list.distinct(1))

lemma unat_64: "unat (i :: u64) < 256 ^ 8"
  using unsigned_less [of i, where ?'a = nat] by simp

lemma length_putint: "i \<noteq> 0 \<Longrightarrow> length (putint i) = intsize i \<and> 1 \<le> intsize i \<and> intsize i \<le> 8"
proof -
  assume i: "i \<noteq> 0"
  then have "0 < unat i"
    by (simp add: unat_gt_0)
  then show ?thesis
    using length_nat_bytes [OF _ unat_64, of i] length_greater_0_conv [of "nat_bytes (unat i)"]
    unfolding putint_nat_bytes [OF i] intsize_def by linarith
qed

lemma readSize_putint:
  assumes "56 \<le> i"
  shows "readSize (putint i @ bs) (of_nat (length (putint i))) = Inr i"
proof -
  have i: "i \<noteq> 0" "unat i \<noteq> 0"
    using assms by (auto simp: unat_eq_0)
  then have len: "1 \<le> length (putint i)" "length (putint i) \<le> 8"
    using length_putint by auto
  define k where "k = length (putint i)"
  have k: "unat (of_nat k :: u8) = k" "1 \<le> (of_nat k :: u8)" "(of_nat k :: u8) \<le> 8"
    using len by (simp_all add: k_def unsigned_of_nat take_bit_nat_eq_self word_le_nat_alt)
  have "be_word (putint i) = i" "putint i ! 0 \<noteq> 0"
    using i nat_bytes_nth_0 by (simp_all add: putint_nat_bytes be_word_nat_bytes)
  then show ?thesis
    using assms len k by (simp add: readSize_def nth_append Let_def flip: k_def)
qed

section \<open>The encoding, specified\<close>

text \<open>The encoding of a tree by recursion, without a buffer.\<close>

fun rlp_enc :: "rlp_item \<Rightarrow> bytes" where
  "rlp_enc (Str b) = (if length b = 1 \<and> b ! 0 \<le> 0x7F then b else puthead 0x80 0xB7 (of_nat (length b)) @ b)"
| "rlp_enc (Lst xs) =
     (let payload = concat (map rlp_enc xs) in puthead 0xC0 0xF7 (of_nat (length payload)) @ payload)"

text \<open>String data with headers at offsets, from an offset on.\<close>

fun flat :: "(nat \<times> nat) list \<Rightarrow> nat \<Rightarrow> bytes \<Rightarrow> bytes" where
  "flat [] base s = s"
| "flat ((offset, sz) # heads) base s =
     take (offset - base) s @ listhead_encode sz @ flat heads offset (drop (offset - base) s)"

text \<open>Offsets that grow and stay within the string data.\<close>

fun offsets_ok :: "(nat \<times> nat) list \<Rightarrow> nat \<Rightarrow> nat \<Rightarrow> bool" where
  "offsets_ok [] base upper \<longleftrightarrow> base \<le> upper"
| "offsets_ok ((offset, sz) # heads) base upper \<longleftrightarrow> base \<le> offset \<and> offsets_ok heads offset upper"

lemma offsets_ok_le: "offsets_ok hs base upper \<Longrightarrow> base \<le> upper"
  by (induction hs base upper rule: offsets_ok.induct) auto

lemma offsets_ok_append:
  "offsets_ok hs base mid \<Longrightarrow> offsets_ok hs' mid upper \<Longrightarrow> offsets_ok (hs @ hs') base upper"
proof (induction hs base mid rule: offsets_ok.induct)
  case (1 base mid)
  then show ?case
    by (cases hs') auto
qed auto

lemma flat_skip:
  "offsets_ok hs (base + length s) upper \<Longrightarrow> flat hs base (s @ s') = s @ flat hs (base + length s) s'"
  by (cases hs) (auto simp: Nat.diff_diff_eq)

lemma flat_append:
  "offsets_ok hs base (base + length s) \<Longrightarrow> offsets_ok hs' (base + length s) upper \<Longrightarrow>
    flat (hs @ hs') base (s @ s') = flat hs base s @ flat hs' (base + length s) s'"
proof (induction hs base s rule: flat.induct)
  case (1 base s)
  then show ?case
    by (simp add: flat_skip)
next
  case (2 offset sz heads base s)
  have "base \<le> offset" "offset - base \<le> length s"
    using 2(2) offsets_ok_le by fastforce+
  then show ?case
    using 2 by (simp add: add.commute [of base])
qed

lemma to_bytes_loop_flat:
  "offsets_ok hs strpos (length str) \<Longrightarrow> to_bytes_loop str hs strpos = flat hs strpos (drop strpos str)"
  by (induction str hs strpos rule: to_bytes_loop.induct) (auto simp: max_def)

lemma length_puthead: "length (puthead a b sz) = headsize sz"
  using length_putint [of sz] by (cases "sz = 0") (auto simp: puthead_def headsize_def Let_def)

text \<open>What writing an item adds to the buffer.\<close>

definition writes :: "bytes \<Rightarrow> encbuf \<Rightarrow> encbuf \<Rightarrow> bool" where
  "writes out w w' \<longleftrightarrow> (\<exists>s hs n.
     eb_str w' = eb_str w @ s \<and> eb_lheads w' = eb_lheads w @ hs \<and> eb_lhsize w' = eb_lhsize w + n \<and>
     offsets_ok hs (length (eb_str w)) (length (eb_str w')) \<and> flat hs (length (eb_str w)) s = out \<and>
     length s + n = length out)"

lemma writes_refl: "writes [] w w"
  by (simp add: writes_def)

lemma writes_trans:
  assumes "writes x u v" "writes y v w"
  shows "writes (x @ y) u w"
proof -
  obtain s hs n where v: "eb_str v = eb_str u @ s" "eb_lheads v = eb_lheads u @ hs" "eb_lhsize v = eb_lhsize u + n"
    "offsets_ok hs (length (eb_str u)) (length (eb_str u) + length s)" "flat hs (length (eb_str u)) s = x"
    "length s + n = length x"
    using assms(1) by (auto simp: writes_def)
  obtain s' hs' n' where w: "eb_str w = eb_str v @ s'" "eb_lheads w = eb_lheads v @ hs'" "eb_lhsize w = eb_lhsize v + n'"
    "offsets_ok hs' (length (eb_str v)) (length (eb_str w))" "flat hs' (length (eb_str v)) s' = y"
    "length s' + n' = length y"
    using assms(2) by (auto simp: writes_def)
  have "offsets_ok hs' (length (eb_str u) + length s) (length (eb_str w))"
    using w(4) v(1) by simp
  then have "flat (hs @ hs') (length (eb_str u)) (s @ s') = x @ y"
    "offsets_ok (hs @ hs') (length (eb_str u)) (length (eb_str w))"
    using v(1,4,5) w(5) flat_append [OF v(4)] offsets_ok_append [OF v(4)] by auto
  then show ?thesis
    unfolding writes_def using v(1-3,6) w(1-3,6)
    by (intro exI [of _ "s @ s'"] exI [of _ "hs @ hs'"] exI [of _ "n + n'"]) simp
qed

lemma writes_string: "eb_lheads w' = eb_lheads w \<Longrightarrow> eb_lhsize w' = eb_lhsize w \<Longrightarrow> eb_str w' = eb_str w @ s \<Longrightarrow> writes s w w'"
  by (auto simp: writes_def)

lemma size_less_56: "n < 2 ^ 64 \<Longrightarrow> (of_nat n :: u64) < 56 \<longleftrightarrow> n < 56"
  by (simp add: word_less_nat_alt unsigned_of_nat take_bit_nat_eq_self)

lemma ucast_size: "n < 2 ^ 64 \<Longrightarrow> (ucast (of_nat n :: u64) :: u8) = of_nat n"
  by (simp add: ucast_nat unsigned_of_nat take_bit_nat_eq_self)

lemma singleton_nth: "length b = 1 \<Longrightarrow> [b ! 0] = b"
  by (cases b) auto

lemma encodeString_writes: "length b < 2 ^ 64 \<Longrightarrow> writes (rlp_enc (Str b)) w (encodeString b w)"
  by (rule writes_string)
    (auto simp: encodeString_def encodeStringHeader_def puthead_def Let_def size_less_56 ucast_size singleton_nth)

lemma listEnd_writes:
  assumes "writes payload (snd (eb_list w)) v" "length payload < 2 ^ 64"
  shows "writes (puthead 0xC0 0xF7 (of_nat (length payload)) @ payload) w (listEnd (fst (eb_list w)) v)"
proof -
  define off where "off = length (eb_str w)"
  obtain s hs n where v: "eb_str v = eb_str w @ s" "eb_lheads v = eb_lheads w @ (off, eb_lhsize w) # hs"
    "eb_lhsize v = eb_lhsize w + n" "offsets_ok hs off (length (eb_str v))" "flat hs off s = payload"
    "length s + n = length payload"
    using assms(1) by (auto simp: writes_def eb_list_def off_def)
  have sz: "eb_size v - (off + eb_lhsize w) = length payload"
    using v by (simp add: eb_size_def off_def)
  have "listEnd (fst (eb_list w)) v =
      v\<lparr>eb_lheads := eb_lheads w @ (off, length payload) # hs,
        eb_lhsize := eb_lhsize w + (n + headsize (of_nat (length payload)))\<rparr>"
    using v(2,3) assms(2)
    by (auto simp: listEnd_def eb_list_def sz Let_def headsize_def size_less_56 simp del: of_nat_diff)
  then show ?thesis
    unfolding writes_def off_def [symmetric] using v(1,4-6)
    by (intro exI [of _ s] exI [of _ "(off, length payload) # hs"]
        exI [of _ "n + headsize (of_nat (length payload))"])
      (simp add: listhead_encode_def length_puthead)
qed

lemma length_enc_items: "x \<in> set xs \<Longrightarrow> length (rlp_enc x) \<le> length (concat (map rlp_enc xs))"
  by (induction xs) auto

lemma write_writes:
  "length (rlp_enc x) < 2 ^ 64 \<Longrightarrow> writes (rlp_enc x) w (write_item x w)"
  "length (concat (map rlp_enc xs)) < 2 ^ 64 \<Longrightarrow> writes (concat (map rlp_enc xs)) w (write_items xs w)"
proof (induction x w and xs w rule: write_item_write_items.induct)
  case (1 b w)
  then show ?case
    using encodeString_writes [of b w] by (auto split: if_splits simp del: One_nat_def)
next
  case (2 xs w)
  then show ?case
    using listEnd_writes [of "concat (map rlp_enc xs)" w] "2.IH" [OF refl prod.collapse]
    by (auto simp: Let_def case_prod_beta)
next
  case (4 x xs w)
  then show ?case
    using writes_trans by auto
qed (simp_all add: writes_refl)

lemma EncodeToBytes_enc:
  assumes "length (rlp_enc x) < 2 ^ 64"
  shows "EncodeToBytes x = rlp_enc x"
proof -
  have "writes (rlp_enc x) eb_reset (write_item x eb_reset)"
    using assms by (rule write_writes)
  then obtain s hs n where w: "eb_str (write_item x eb_reset) = s" "eb_lheads (write_item x eb_reset) = hs"
    "eb_lhsize (write_item x eb_reset) = n" "offsets_ok hs 0 (length s)" "flat hs 0 s = rlp_enc x"
    "length s + n = length (rlp_enc x)"
    by (auto simp: writes_def eb_reset_def)
  then show ?thesis
    by (simp add: EncodeToBytes_def toBytes_def eb_size_def to_bytes_loop_flat)
qed

section \<open>Reading back\<close>

text \<open>Tag bytes.\<close>

lemma unat_byte: "m < 256 \<Longrightarrow> unat (of_nat m :: u8) = m"
  by (simp add: unsigned_of_nat take_bit_nat_eq_self)

lemma byte_less: "m < 256 \<Longrightarrow> k < 256 \<Longrightarrow> (of_nat m :: u8) < of_nat k \<longleftrightarrow> m < k"
  by (simp add: word_less_nat_alt unat_byte)

lemma byte_less_numeral: "m < 256 \<Longrightarrow> numeral k < (256 :: nat) \<Longrightarrow> (of_nat m :: u8) < numeral k \<longleftrightarrow> m < numeral k"
  using byte_less [of m "numeral k"] by simp

lemma ucast_byte: "m < 256 \<Longrightarrow> (ucast (of_nat m :: u8) :: u64) = of_nat m"
  by (simp add: word_unat_eq_iff unsigned_ucast_eq unsigned_of_nat take_bit_nat_eq_self)

lemma tag_diff: "(of_nat (t + n) :: u8) - of_nat t = of_nat n"
  by simp

lemma unat_size: "n < 2 ^ 64 \<Longrightarrow> unat (of_nat n :: u64) = n"
  by (simp add: unsigned_of_nat take_bit_nat_eq_self)

lemma headsize_range: "1 \<le> headsize sz \<and> headsize sz \<le> 9"
  using length_putint [of sz] by (cases "sz = 0") (auto simp: headsize_def)

text \<open>Reading back a header that \<^verbatim>\<open>puthead\<close> wrote.\<close>

lemma fits:
  assumes "h + n + length r < 2 ^ 64" "length buf = h + n + length r"
  shows "\<not> of_nat n > (of_nat (length buf) - of_nat h :: u64)"
proof -
  have "(of_nat (length buf) - of_nat h :: u64) = of_nat (n + length r)"
    using assms(2) by simp
  then show ?thesis
    using assms(1) by (simp add: word_less_nat_alt unat_size del: of_nat_add)
qed

lemma readKind_list:
  assumes "length p < 2 ^ 63" "length r < 2 ^ 62"
  shows "readKind (puthead 0xC0 0xF7 (of_nat (length p)) @ p @ r) =
    Inr (List, of_nat (headsize (of_nat (length p))), of_nat (length p))"
proof (cases "length p < 56")
  case True
  define n where "n = length p"
  have "(0xC0 + of_nat n :: u8) = of_nat (192 + n)"
    by simp
  then have tag: "puthead 0xC0 0xF7 (of_nat n) = [of_nat (192 + n)]" "headsize (of_nat n) = 1"
    using True by (simp_all add: puthead_def headsize_def n_def size_less_56 ucast_size)
  have "(of_nat (192 + n) :: u8) - 0xC0 = of_nat n"
    using tag_diff [of 192 n] by simp
  then show ?thesis
    using True assms fits [of 1 n r "of_nat (192 + n) # p @ r"]
    unfolding n_def [symmetric] tag readKind_def
    by (simp add: byte_less_numeral ucast_byte n_def del: of_nat_add)
next
  case False
  define i where "i = (of_nat (length p) :: u64)"
  define k where "k = intsize i"
  have i: "56 \<le> i"
    using False assms(1) by (simp add: i_def word_le_nat_alt unat_size)
  then have "i \<noteq> 0"
    by auto
  then have k: "1 \<le> k" "k \<le> 8" "length (putint i) = k"
    using length_putint [of i] by (simp_all add: k_def)
  have tag: "puthead 0xC0 0xF7 i = of_nat (247 + k) # putint i" "headsize i = 1 + k"
    using i k by (auto simp: puthead_def headsize_def not_less Let_def k_def)
  have "(of_nat (247 + k) :: u8) - 0xF7 = of_nat k"
    using tag_diff [of 247 k] by simp
  moreover have "readSize (putint i @ p @ r) (of_nat k) = Inr i"
    using readSize_putint [OF i, of "p @ r"] k(3) by simp
  moreover have "\<not> of_nat (length p) > (of_nat (length (of_nat (247 + k) # putint i @ p @ r)) - of_nat (1 + k) :: u64)"
    using assms k by (intro fits [of "1 + k" "length p" r]) auto
  ultimately show ?thesis
    using k unfolding i_def [symmetric] tag readKind_def
    by (simp add: byte_less_numeral ucast_byte i_def del: of_nat_add)
qed

lemma readKind_string:
  assumes "length p < 2 ^ 63" "length r < 2 ^ 62" "\<not> (length p = 1 \<and> p ! 0 \<le> 0x7F)"
  shows "readKind (puthead 0x80 0xB7 (of_nat (length p)) @ p @ r) =
    Inr (String, of_nat (headsize (of_nat (length p))), of_nat (length p))"
proof (cases "length p < 56")
  case True
  define n where "n = length p"
  have "(0x80 + of_nat n :: u8) = of_nat (128 + n)"
    by simp
  then have tag: "puthead 0x80 0xB7 (of_nat n) = [of_nat (128 + n)]" "headsize (of_nat n) = 1"
    using True by (simp_all add: puthead_def headsize_def n_def size_less_56 ucast_size)
  have "(of_nat (128 + n) :: u8) - 0x80 = of_nat n"
    using tag_diff [of 128 n] by simp
  moreover have "\<not> (n = 1 \<and> p @ r \<noteq> [] \<and> hd (p @ r) < 128)"
    using assms(3) by (cases p) (auto simp: n_def word_less_nat_alt word_le_nat_alt)
  moreover have "(of_nat n = (1 :: u64)) \<longleftrightarrow> n = 1"
    using True by (simp add: word_unat_eq_iff unat_size n_def)
  ultimately show ?thesis
    using True assms fits [of 1 n r "of_nat (128 + n) # p @ r"]
    unfolding n_def [symmetric] tag readKind_def
    by (simp add: byte_less_numeral ucast_byte n_def del: of_nat_add)
next
  case False
  define i where "i = (of_nat (length p) :: u64)"
  define k where "k = intsize i"
  have i: "56 \<le> i"
    using False assms(1) by (simp add: i_def word_le_nat_alt unat_size)
  then have "i \<noteq> 0"
    by auto
  then have k: "1 \<le> k" "k \<le> 8" "length (putint i) = k"
    using length_putint [of i] by (simp_all add: k_def)
  have tag: "puthead 0x80 0xB7 i = of_nat (183 + k) # putint i" "headsize i = 1 + k"
    using i k by (auto simp: puthead_def headsize_def not_less Let_def k_def)
  have "(of_nat (183 + k) :: u8) - 0xB7 = of_nat k"
    using tag_diff [of 183 k] by simp
  moreover have "readSize (putint i @ p @ r) (of_nat k) = Inr i"
    using readSize_putint [OF i, of "p @ r"] k(3) by simp
  moreover have "\<not> of_nat (length p) > (of_nat (length (of_nat (183 + k) # putint i @ p @ r)) - of_nat (1 + k) :: u64)"
    using assms k by (intro fits [of "1 + k" "length p" r]) auto
  ultimately show ?thesis
    using k unfolding i_def [symmetric] tag readKind_def
    by (simp add: byte_less_numeral ucast_byte i_def del: of_nat_add)
qed

text \<open>The kind and the content of the first value of an encoding.\<close>

fun item_kind :: "rlp_item \<Rightarrow> kind" where
  "item_kind (Str b) = (if length b = 1 \<and> b ! 0 \<le> 0x7F then Byte else String)"
| "item_kind (Lst xs) = List"

fun item_content :: "rlp_item \<Rightarrow> bytes" where
  "item_content (Str b) = b"
| "item_content (Lst xs) = concat (map rlp_enc xs)"

lemma Split_head:
  assumes "readKind (hdr @ p @ r) = Inr (k, of_nat (length hdr), of_nat (length p))" "length hdr \<le> 9" "length p < 2 ^ 63"
  shows "rlp_Split (hdr @ p @ r) = Inr (k, p, r)"
proof -
  have "unat (of_nat (length hdr) + of_nat (length p) :: u64) = length hdr + length p"
    using assms unat_size [of "length hdr + length p"] by simp
  then show ?thesis
    using assms by (simp add: rlp_Split_def unat_size slice_res_def)
qed

lemma content_length: "length (item_content x) \<le> length (rlp_enc x)"
  by (cases x) (simp_all add: Let_def)

lemma Split_enc:
  assumes "length (item_content x) < 2 ^ 63" "length r < 2 ^ 62"
  shows "rlp_Split (rlp_enc x @ r) = Inr (item_kind x, item_content x, r)"
proof (cases x)
  case (Str b)
  show ?thesis
  proof (cases "length b = 1 \<and> b ! 0 \<le> 0x7F")
    case True
    then obtain c where b: "b = [c]" "c \<le> 0x7F"
      by (cases b) auto
    then have "readKind ([] @ [c] @ r) = Inr (Byte, of_nat (length []), of_nat (length [c]))"
      using fits [of 0 1 r "c # r"] assms(2) by (simp add: readKind_def word_le_nat_alt word_less_nat_alt)
    then show ?thesis
      using Split_head [of "[]" "[c]" r Byte] True b Str by simp
  next
    case False
    then show ?thesis
      using Split_head [of "puthead 0x80 0xB7 (of_nat (length b))" b r String] readKind_string [of b r]
        headsize_range [of "of_nat (length b)"] assms Str by (auto simp: length_puthead)
  qed
next
  case (Lst xs)
  then show ?thesis
    using Split_head [of "puthead 0xC0 0xF7 (of_nat (length (item_content x)))" "item_content x" r List]
      readKind_list [of "item_content x" r] headsize_range [of "of_nat (length (item_content x))"] assms
    by (auto simp: length_puthead Let_def)
qed

lemma AppendUint64_putint:
  "AppendUint64 b i = b @ (if i = 0 then [0x80] else if i < 128 then [ucast i] else (0x80 + of_nat (length (putint i))) # putint i)"
  by (simp add: AppendUint64_def putint_def)

lemma AppendUint64_enc: "AppendUint64 b i = b @ rlp_enc (Str (nat_bytes (unat i)))"
proof (cases "i < 128")
  case True
  then have i: "unat i < 128"
    by (simp add: word_less_nat_alt)
  show ?thesis
  proof (cases "i = 0")
    case False
    then have "nat_bytes (unat i) = [ucast i]"
      using i by (simp add: nat_bytes_step unat_gt_0 ucast_nat unat_eq_0 del: of_nat_unat)
    moreover have "(ucast i :: u8) \<le> 0x7F"
      using i by (simp add: ucast_nat word_le_nat_alt unat_byte del: of_nat_unat)
    ultimately show ?thesis
      using True False by (simp add: AppendUint64_putint)
  qed (simp add: AppendUint64_putint puthead_def)
next
  case False
  then have "i \<noteq> 0"
    by auto
  then have b: "putint i = nat_bytes (unat i)" "length (putint i) \<le> 8" "1 \<le> length (putint i)"
    using length_putint [of i] putint_nat_bytes by auto
  have "\<not> (length (putint i) = 1 \<and> putint i ! 0 \<le> 0x7F)"
  proof
    assume *: "length (putint i) = 1 \<and> putint i ! 0 \<le> 0x7F"
    then have "be_word (putint i) = ucast (putint i ! 0)"
      by (cases "putint i") (auto simp: be_word_def)
    moreover have "be_word (putint i) = i"
      using b(1) by (simp add: be_word_nat_bytes)
    ultimately show False
      using * False ucast_byte [of "unat (putint i ! 0)"] unat_size [of "unat (putint i ! 0)"]
      by (simp add: word_less_nat_alt word_le_nat_alt)
  qed
  then show ?thesis
    using False b \<open>i \<noteq> 0\<close>
    by (simp add: AppendUint64_putint puthead_def size_less_56 ucast_size)
qed

text \<open>A value that \<^verbatim>\<open>readKind\<close> accepts is not empty and lies inside the buffer.\<close>

lemma readSize_length: "readSize b slen = Inr s \<Longrightarrow> unat slen \<le> length b"
  by (auto simp: readSize_def split: if_splits)

lemma unat_tag: "a \<le> (b :: u8) \<Longrightarrow> unat (ucast (b - a) :: u64) = unat b - unat a"
  using unsigned_less [of b, where ?'a = nat] by (simp add: unsigned_ucast_eq take_bit_nat_eq_self unat_sub word_le_nat_alt)

lemmas rlp_errors = ErrCanonSize_def ErrCanonInt_def ErrValueTooLarge_def ErrExpectedString_def ErrExpectedList_def
  ErrUnexpectedEOF_def errUintOverflow_def

lemma readKind_tag:
  assumes "readKind buf = Inr (k, ts, cs)"
  shows "unat ts \<le> length buf \<and> unat ts \<le> 9 \<and> cs \<le> of_nat (length buf) - ts \<and> (ts = 0 \<longrightarrow> cs = 1)"
proof -
  obtain b tail where buf: "buf = b # tail"
    using assms by (cases buf) (auto simp: readKind_def)
  have lim: "unat b < 256"
    using unsigned_less [of b, where ?'a = nat] by simp
  have long: "unat (ucast (b - a) + 1 :: u64) \<le> length buf \<and> unat (ucast (b - a) + 1 :: u64) \<le> 9 \<and> ucast (b - a) + 1 \<noteq> (0 :: u64)"
    if "readSize tail (b - a) = Inr s" "a \<le> b" "unat b < unat a + 9" for a s
  proof -
    have "unat (ucast (b - a) + 1 :: u64) = unat b - unat a + 1"
      using unat_tag [OF that(2)] that(3) by (simp add: unat_word_ariths)
    moreover have "unat b - unat a \<le> length tail"
      using readSize_length [OF that(1)] that(2) by (simp add: unat_sub)
    ultimately show ?thesis
      using that(3) unat_eq_zero [of "ucast (b - a) + 1 :: u64"] by (auto simp: buf)
  qed
  show ?thesis
    using assms long [of "0xB7"] long [of "0xF7"] lim
    by (auto simp: readKind_def buf res_bind_def word_less_nat_alt word_le_nat_alt split: if_splits sum.splits)
qed

lemma readKind_bounds:
  assumes "readKind buf = Inr (k, ts, cs)" "length buf < 2 ^ 63"
  shows "unat (ts + cs) = unat ts + unat cs" "0 < unat ts + unat cs" "unat ts + unat cs \<le> length buf"
proof -
  note t = readKind_tag [OF assms(1)]
  then have "of_nat (length buf) - ts = of_nat (length buf - unat ts)"
    by simp
  then have le: "unat ts + unat cs \<le> length buf"
    using t assms(2) unat_size [of "length buf - unat ts"] by (auto simp: word_le_nat_alt)
  then show "unat (ts + cs) = unat ts + unat cs"
    using assms(2) by (simp add: unat_word_ariths)
  show "0 < unat ts + unat cs"
    using t by (cases "ts = 0") (auto simp: unat_gt_0)
  show "unat ts + unat cs \<le> length buf"
    by (rule le)
qed

lemma readKind_no_panic: "readKind buf = Inl e \<Longrightarrow> e \<noteq> Panic m"
  by (auto simp: readKind_def readSize_def res_bind_def nth_res_def word_le_nat_alt word_less_nat_alt rlp_errors Let_def
    split: list.splits if_splits sum.splits)

lemma count_loop_returns:
  assumes "length b < 2 ^ 63"
  shows "\<exists>r. count_loop i b = Some r \<and> (\<forall>m. r \<noteq> Inl (Panic m)) \<and> (\<forall>n. r = Inr n \<longrightarrow> i \<le> n \<and> n \<le> i + length b)"
  using assms
proof (induction b arbitrary: i rule: length_induct)
  case (1 b)
  show ?case
  proof (cases "readKind b")
    case (Inl e)
    then have "count_loop i b = Some (Inl e) \<or> count_loop i b = Some (Inr i)"
      by (subst (1 2) count_loop.simps) auto
    then show ?thesis
      using readKind_no_panic [OF Inl] by auto
  next
    case (Inr t)
    then obtain k ts cs where r: "readKind b = Inr (k, ts, cs)"
      by (cases t) auto
    note bd = readKind_bounds [OF this "1.prems"]
    let ?b = "drop (unat ts + unat cs) b"
    have "b \<noteq> []"
      using bd by auto
    then have step: "count_loop i b = count_loop (i + 1) ?b"
      using bd r by (subst count_loop.simps) (simp add: slice_res_def)
    have "length ?b < length b"
      using bd by auto
    moreover from this have "length ?b < 2 ^ 63"
      using "1.prems" by simp
    ultimately obtain r where "count_loop (i + 1) ?b = Some r" "\<forall>m. r \<noteq> Inl (Panic m)"
      "\<forall>n. r = Inr n \<longrightarrow> i + 1 \<le> n \<and> n \<le> i + 1 + length ?b"
      using "1.IH" by blast
    then show ?thesis
      using \<open>length ?b < length b\<close> unfolding step by (intro exI [of _ r]) auto
  qed
qed

lemma readKind_enc:
  assumes "length (rlp_enc x @ r) < 2 ^ 62"
  shows "\<exists>k ts cs. readKind (rlp_enc x @ r) = Inr (k, ts, cs) \<and> unat (ts + cs) = length (rlp_enc x)"
proof -
  have s: "rlp_Split (rlp_enc x @ r) = Inr (item_kind x, item_content x, r)"
    using assms content_length [of x] by (intro Split_enc) auto
  then obtain k ts cs where t: "readKind (rlp_enc x @ r) = Inr (k, ts, cs)"
    by (auto simp: rlp_Split_def res_bind_def split: sum.splits)
  then have "drop (unat (ts + cs)) (rlp_enc x @ r) = r" "unat (ts + cs) \<le> length (rlp_enc x @ r)"
    using s readKind_bounds [OF t] assms by (auto simp: rlp_Split_def res_bind_def slice_res_def split: sum.splits if_splits)
  then have "unat (ts + cs) = length (rlp_enc x)"
    by (metis add_diff_cancel_right' diff_diff_cancel length_append length_drop)
  with t show ?thesis
    by blast
qed

lemma count_loop_enc:
  assumes "length (concat (map rlp_enc xs)) < 2 ^ 62"
  shows "count_loop i (concat (map rlp_enc xs)) = Some (Inr (i + length xs))"
  using assms
proof (induction xs arbitrary: i)
  case Nil
  then show ?case
    by (simp add: count_loop.simps)
next
  case (Cons x xs)
  let ?r = "concat (map rlp_enc xs)"
  obtain k ts cs where r: "readKind (rlp_enc x @ ?r) = Inr (k, ts, cs)" "unat (ts + cs) = length (rlp_enc x)"
    using readKind_enc [of x ?r] Cons.prems by auto
  have "rlp_enc x @ ?r \<noteq> []"
  proof
    assume "rlp_enc x @ ?r = []"
    with r(1) show False
      by (simp only: readKind_def list.case) simp
  qed
  then have "count_loop i (rlp_enc x @ ?r) = count_loop (i + 1) ?r"
    using r by (subst count_loop.simps) (simp add: slice_res_def)
  then show ?case
    using Cons by simp
qed

lemma SplitUint64_AppendUint64:
  assumes "length r < 2 ^ 62"
  shows "SplitUint64 (AppendUint64 [] i @ r) = Inr (i, r)"
proof -
  have "length (nat_bytes (unat i)) \<le> 8"
    using length_putint [of i] putint_nat_bytes [of i] by (cases "i = 0") auto
  then have s: "SplitString (AppendUint64 [] i @ r) = Inr (nat_bytes (unat i), r)"
    using Split_enc [of "Str (nat_bytes (unat i))" r] assms by (auto simp: SplitString_def AppendUint64_enc simp del: rlp_enc.simps)
  consider "i = 0" | "length (putint i) = 1" "i \<noteq> 0" | "2 \<le> length (putint i)" "i \<noteq> 0"
    using length_putint [of i] by fastforce
  then show ?thesis
  proof cases
    case 1
    then show ?thesis
      using s by (simp add: SplitUint64_def nat_bytes_step)
  next
    case 2
    then obtain c where c: "nat_bytes (unat i) = [c]"
      using putint_nat_bytes [of i] by (metis length_0_conv length_Suc_conv One_nat_def)
    then have "c \<noteq> 0" "ucast c = i"
      using nat_bytes_nth_0 [of "unat i"] be_word_nat_bytes [of "unat i"] 2 by (auto simp: be_word_def unat_eq_zero)
    then show ?thesis
      using s c by (simp add: SplitUint64_def)
  next
    case 3
    then have p: "putint i = nat_bytes (unat i)"
      by (simp add: putint_nat_bytes)
    have "\<not> unat i < 256"
      using 3 p nat_bytes_step [of "unat i"] nat_bytes_step [of 0] by (auto simp: unat_eq_zero)
    then have "56 \<le> i"
      by (simp add: word_le_nat_alt)
    then show ?thesis
      using s 3 length_putint [of i] length_0_conv [of "putint i"] readSize_putint [of i "[]"] unfolding p [symmetric]
      by (simp add: SplitUint64_def)
  qed
qed

lemma map_EncodeToBytes:
  assumes "length (concat (map rlp_enc xs)) < 2 ^ 62"
  shows "concat (map EncodeToBytes xs) = concat (map rlp_enc xs)"
proof -
  have "EncodeToBytes x = rlp_enc x" if "x \<in> set xs" for x
  proof -
    have "length (rlp_enc x) \<le> length (concat (map rlp_enc xs))"
      using that by (simp add: length_concat member_le_sum_list)
    with assms show ?thesis
      by (intro EncodeToBytes_enc) simp
  qed
  then show ?thesis
    by (simp cong: map_cong)
qed

section \<open>Properties\<close>

text \<open>C15. The buffered encoder is the recursive encoding: writing a value into the buffer, with the list headers kept
  apart until the sizes of the lists are known and put in by \<^verbatim>\<open>toBytes\<close>, gives the bytes of the encoding defined by
  recursion on the value, for every value whose encoding has fewer than 2^64 bytes.\<close>

theorem EncodeToBytes_is_recursive:
  assumes "length (rlp_enc x) < 2 ^ 64"
  shows "EncodeToBytes x = rlp_enc x"
  using assms by (rule EncodeToBytes_enc)

theorem EncodeToBytes_is_recursive_witness:
  "EncodeToBytes (Lst [Str [1], Str [0x80], Lst []]) = rlp_enc (Lst [Str [1], Str [0x80], Lst []])"
  by (rule EncodeToBytes_is_recursive) (simp add: puthead_def)

text \<open>C16. Split inverts the encoder: of an encoded value followed by any bytes, \<^verbatim>\<open>Split\<close> returns the kind of the
  value, its content (the string, or the encodings of the list's elements one after the other) and the bytes that
  follow, for lengths that a slice can have.\<close>

theorem Split_EncodeToBytes:
  assumes "length (rlp_enc x) < 2 ^ 63" "length rest < 2 ^ 62"
  shows "rlp_Split (EncodeToBytes x @ rest) = Inr (item_kind x, item_content x, rest)"
  using assms content_length [of x] EncodeToBytes_enc [of x] by (simp add: Split_enc)

theorem Split_EncodeToBytes_witness:
  "rlp_Split (EncodeToBytes (Lst [Str [1], Str [0x80]]) @ [7]) = Inr (List, [1, 0x81, 0x80], [7])"
  using Split_EncodeToBytes [of "Lst [Str [1], Str [0x80]]" "[7]"] by (simp add: puthead_def)

text \<open>C17. \<^verbatim>\<open>CountValues\<close> returns on every slice of fewer than 2^63 bytes, with an error or a count that is at most the
  number of bytes, and never by a panic; on the encodings of values one after the other it counts the values.\<close>

theorem CountValues_total:
  "(length b < 2 ^ 63 \<longrightarrow>
      (\<exists>r. CountValues b = Some r \<and> (\<forall>m. r \<noteq> Inl (Panic m)) \<and> (\<forall>n. r = Inr n \<longrightarrow> n \<le> length b))) \<and>
   (length (concat (map rlp_enc xs)) < 2 ^ 62 \<longrightarrow>
      CountValues (concat (map EncodeToBytes xs)) = Some (Inr (length xs)))"
  using count_loop_returns [of b 0] count_loop_enc [of xs 0] map_EncodeToBytes [of xs]
  by (simp add: CountValues_def)

theorem CountValues_total_witness:
  "(\<exists>r. CountValues [0x82, 1] = Some r) \<and> CountValues (concat (map EncodeToBytes [Str [1], Lst [Str []]])) = Some (Inr 2)"
  using CountValues_total [of "[0x82, 1]" "[Str [1], Lst [Str []]]"] by (auto simp: puthead_def)

text \<open>C18. An integer that \<^verbatim>\<open>AppendUint64\<close> wrote is read back by \<^verbatim>\<open>SplitUint64\<close>, with the bytes after it untouched, for
  every 64-bit value.\<close>

theorem SplitUint64_roundtrip:
  assumes "length rest < 2 ^ 62"
  shows "SplitUint64 (AppendUint64 [] i @ rest) = Inr (i, rest)"
  using assms by (rule SplitUint64_AppendUint64)

theorem SplitUint64_roundtrip_witness:
  "SplitUint64 ([0x82, 1, 0] @ [9]) = Inr (256, [9])"
proof -
  have "(256 :: u8) = 0"
    by (simp add: word_unat_eq_iff)
  moreover have "SplitUint64 [0x82, 1, 256, 9] = Inr (256, [9])"
    using SplitUint64_roundtrip [of "[9]" 256] by (simp add: AppendUint64_def)
  ultimately show ?thesis
    by (metis append.simps)
qed

end
