(* ===== verification/Rlp_Stream.thy ===== *)
theory Rlp_Stream
  imports Rlp
begin

unbundle bit_operations_syntax

text \<open>
  The decoder of \<^verbatim>\<open>src/rlp/decode.go\<close>: a \<^verbatim>\<open>Stream\<close> over the bytes of a \<^verbatim>\<open>bytes.Reader\<close>, with the kind and the size of
  the value ahead kept between calls, errors that stay until the value is consumed and a stack of the lists that are open.
  Every operation returns its result and the stream it leaves, also when it fails. The decoders built on it read single
  values, slices and whole trees (the target \<^verbatim>\<open>interface{}\<close>).
\<close>

section \<open>The stream\<close>

text \<open>\<^verbatim>\<open>st_kind\<close> is \<^verbatim>\<open>None\<close> where the code has -1. The innermost list is the first element of the stack.\<close>

record stream =
  st_r :: bytes
  st_remaining :: u64
  st_limited :: bool
  st_kind :: "kind option"
  st_size :: u64
  st_byteval :: u8
  st_kinderr :: "go_error option"
  st_stack :: "(u64 \<times> u64) list"

type_synonym 'a stream_op = "stream \<Rightarrow> 'a res \<times> stream"

definition st_bind :: "'a stream_op \<Rightarrow> ('a \<Rightarrow> 'b stream_op) \<Rightarrow> 'b stream_op" where
  "st_bind m f s = (case m s of (Inl e, s') \<Rightarrow> (Inl e, s') | (Inr x, s') \<Rightarrow> f x s')"

definition EOL :: go_error where "EOL = Error ''rlp: end of list''"
definition io_EOF :: go_error where "io_EOF = Error ''EOF''"
definition ErrElemTooLarge :: go_error where "ErrElemTooLarge = Error ''rlp: element is larger than containing list''"
definition ErrMoreThanOneValue :: go_error where "ErrMoreThanOneValue = Error ''rlp: input contains more than one value''"
definition errNotInList :: go_error where "errNotInList = Error ''rlp: call of ListEnd outside of any list''"
definition errNotAtEOL :: go_error where "errNotAtEOL = Error ''rlp: call of ListEnd not positioned at EOL''"

text \<open>\<^verbatim>\<open>Reset\<close> on a \<^verbatim>\<open>bytes.Reader\<close> over \<^verbatim>\<open>r\<close>: without an explicit limit the length of the data is the limit.\<close>

definition stream_Reset :: "bytes \<Rightarrow> u64 \<Rightarrow> stream" where
  "stream_Reset r inputLimit =
     \<lparr>st_r = r, st_remaining = (if inputLimit > 0 then inputLimit else of_nat (length r)), st_limited = True,
      st_kind = None, st_size = 0, st_byteval = 0, st_kinderr = None, st_stack = []\<rparr>"

definition NewStream :: "bytes \<Rightarrow> u64 \<Rightarrow> stream" where
  "NewStream r inputLimit = stream_Reset r inputLimit"

definition NewListStream :: "bytes \<Rightarrow> u64 \<Rightarrow> stream" where
  "NewListStream r len = (stream_Reset r len)\<lparr>st_kind := Some List, st_size := len\<rparr>"

definition willRead :: "u64 \<Rightarrow> unit stream_op" where
  "willRead n s =
     (let s = s\<lparr>st_kind := None\<rparr>;
          (fits, s) = (case st_stack s of
             [] \<Rightarrow> (True, s)
           | (pos, sz) # st \<Rightarrow>
               if n > sz - pos then (False, s) else (True, s\<lparr>st_stack := (pos + n, sz) # st\<rparr>))
      in if \<not> fits then (Inl ErrElemTooLarge, s)
         else if st_limited s then
           (if n > st_remaining s then (Inl ErrValueTooLarge, s)
            else (Inr (), s\<lparr>st_remaining := st_remaining s - n\<rparr>))
         else (Inr (), s))"

text \<open>Reads of a \<^verbatim>\<open>bytes.Reader\<close>: what is there, then \<^verbatim>\<open>io.EOF\<close>, which both readers report as an unexpected end.\<close>

definition readByte :: "u8 stream_op" where
  "readByte = st_bind (willRead 1) (\<lambda>_ s.
     case st_r s of [] \<Rightarrow> (Inl ErrUnexpectedEOF, s) | b # r \<Rightarrow> (Inr b, s\<lparr>st_r := r\<rparr>))"

definition readFull :: "nat \<Rightarrow> bytes stream_op" where
  "readFull n = st_bind (willRead (of_nat n)) (\<lambda>_ s.
     if n \<le> length (st_r s) then (Inr (take n (st_r s)), s\<lparr>st_r := drop n (st_r s)\<rparr>)
     else (Inl ErrUnexpectedEOF, s\<lparr>st_r := []\<rparr>))"

definition readUint :: "u8 \<Rightarrow> u64 stream_op" where
  "readUint sz =
     (if sz = 0 then (\<lambda>s. (Inr 0, s\<lparr>st_kind := None\<rparr>))
      else if sz = 1 then st_bind readByte (\<lambda>b s. (Inr (ucast b), s))
      else st_bind (readFull (unat sz)) (\<lambda>buffer s.
        if buffer ! 0 = 0 then (Inl ErrCanonSize, s)
        else (BE_Uint64 (replicate (8 - unat sz) 0 @ buffer), s)))"

text \<open>The kind is returned also with an error, and the caller keeps it.\<close>

definition long_head :: "kind \<Rightarrow> u8 \<Rightarrow> stream \<Rightarrow> (kind \<times> u64 \<times> go_error option) \<times> stream" where
  "long_head k sz s =
     (case readUint sz s of
        (Inl e, s) \<Rightarrow> ((k, 0, Some e), s)
      | (Inr n, s) \<Rightarrow> ((k, n, if n < 56 then Some ErrCanonSize else None), s))"

definition stream_readKind :: "stream \<Rightarrow> (kind \<times> u64 \<times> go_error option) \<times> stream" where
  "stream_readKind s =
     (case readByte s of
        (Inl e, s) \<Rightarrow>
          ((Byte, 0, Some (if st_stack s = [] \<and> (e = ErrUnexpectedEOF \<or> e = ErrValueTooLarge) then io_EOF else e)), s)
      | (Inr b, s) \<Rightarrow>
          let s = s\<lparr>st_byteval := 0\<rparr> in
          if b < 0x80 then ((Byte, 0, None), s\<lparr>st_byteval := b\<rparr>)
          else if b < 0xB8 then ((String, ucast (b - 0x80), None), s)
          else if b < 0xC0 then long_head String (b - 0xB7) s
          else if b < 0xF8 then ((List, ucast (b - 0xC0), None), s)
          else long_head List (b - 0xF7) s)"

definition stream_Kind :: "(kind \<times> u64) stream_op" where
  "stream_Kind s =
     (case st_kind s of
        Some k \<Rightarrow> ((case st_kinderr s of Some e \<Rightarrow> Inl e | None \<Rightarrow> Inr (k, st_size s)), s)
      | None \<Rightarrow>
          let s = s\<lparr>st_kinderr := None\<rparr> in
          if (case st_stack s of [] \<Rightarrow> False | (pos, sz) # _ \<Rightarrow> pos = sz) then (Inl EOL, s)
          else
            let ((k, sz, err), s) = stream_readKind s;
                err = (if err \<noteq> None then err
                       else case st_stack s of
                         [] \<Rightarrow> if st_limited s \<and> sz > st_remaining s then Some ErrValueTooLarge else None
                       | (pos, size') # _ \<Rightarrow> if sz > size' - pos then Some ErrElemTooLarge else None);
                s = s\<lparr>st_kind := Some k, st_size := sz, st_kinderr := err\<rparr>
            in ((case err of Some e \<Rightarrow> Inl e | None \<Rightarrow> Inr (k, sz)), s))"

text \<open>\<^verbatim>\<open>make([]byte, n)\<close> panics when \<^verbatim>\<open>n\<close> is not the length of a slice.\<close>

definition make_bytes :: "u64 \<Rightarrow> nat stream_op" where
  "make_bytes n s = (if n < 2 ^ 63 then (Inr (unat n), s) else (Inl (Panic ''makeslice: len out of range''), s))"

definition stream_Bytes :: "bytes stream_op" where
  "stream_Bytes = st_bind stream_Kind (\<lambda>(k, sz) s.
     case k of
       Byte \<Rightarrow> (Inr [st_byteval s], s\<lparr>st_kind := None\<rparr>)
     | String \<Rightarrow> st_bind (make_bytes sz) (\<lambda>n. st_bind (readFull n) (\<lambda>b s.
         if sz = 1 \<and> b ! 0 < 128 then (Inl ErrCanonSize, s) else (Inr b, s))) s
     | List \<Rightarrow> (Inl ErrExpectedString, s))"

definition stream_Raw :: "bytes stream_op" where
  "stream_Raw = st_bind stream_Kind (\<lambda>(k, sz) s.
     if k = Byte then (Inr [st_byteval s], s\<lparr>st_kind := None\<rparr>)
     else st_bind (make_bytes (of_nat (headsize sz) + sz)) (\<lambda>n.
       if n < headsize sz then (\<lambda>s. (Inl (Panic ''slice bounds out of range''), s))
       else st_bind (readFull (n - headsize sz)) (\<lambda>b s.
         (Inr ((if k = String then puthead 0x80 0xB7 sz else puthead 0xC0 0xF7 sz) @ b), s))) s)"

definition stream_uint :: "nat \<Rightarrow> u64 stream_op" where
  "stream_uint maxbits = st_bind stream_Kind (\<lambda>(k, sz) s.
     case k of
       Byte \<Rightarrow> if st_byteval s = 0 then (Inl ErrCanonInt, s) else (Inr (ucast (st_byteval s)), s\<lparr>st_kind := None\<rparr>)
     | String \<Rightarrow>
         if sz > of_nat (maxbits div 8) then (Inl errUintOverflow, s)
         else
           (case readUint (ucast sz) s of
              (Inl e, s) \<Rightarrow> (Inl (if e = ErrCanonSize then ErrCanonInt else e), s)
            | (Inr v, s) \<Rightarrow> if sz > 0 \<and> v < 128 then (Inl ErrCanonSize, s) else (Inr v, s))
     | List \<Rightarrow> (Inl ErrExpectedString, s))"

definition stream_Uint :: "u64 stream_op" where
  "stream_Uint = stream_uint 64"

definition bigIntBytes :: "bytes stream_op" where
  "bigIntBytes = st_bind (st_bind stream_Kind (\<lambda>(k, sz) s.
     if k = List then (Inl ErrExpectedString, s)
     else if k = Byte then (Inr [st_byteval s], s\<lparr>st_kind := None\<rparr>)
     else if sz = 0 then (Inr [], s\<lparr>st_kind := None\<rparr>)
     else if sz \<le> 32 then
       st_bind (readFull (unat sz)) (\<lambda>b s. if sz = 1 \<and> b ! 0 < 128 then (Inl ErrCanonSize, s) else (Inr b, s)) s
     else st_bind (make_bytes sz) readFull s))
     (\<lambda>buffer s. if length buffer > 0 \<and> buffer ! 0 = 0 then (Inl ErrCanonInt, s) else (Inr buffer, s))"

definition Uint256Bytes :: "bytes stream_op" where
  "Uint256Bytes = st_bind bigIntBytes (\<lambda>b s. if length b > 32 then (Inl errUintOverflow, s) else (Inr b, s))"

definition stream_Bool :: "bool stream_op" where
  "stream_Bool = st_bind (stream_uint 8) (\<lambda>num s.
     if num = 0 then (Inr False, s)
     else if num = 1 then (Inr True, s)
     else (Inl (Error (''rlp: invalid boolean value: '' @ nat_text 10 (unat num))), s))"

definition NewList :: "u64 \<Rightarrow> stream \<Rightarrow> stream" where
  "NewList sz s = s\<lparr>st_stack := (0, sz) # st_stack s, st_kind := None, st_size := 0\<rparr>"

definition stream_List :: "u64 stream_op" where
  "stream_List = st_bind stream_Kind (\<lambda>(k, sz) s. if k \<noteq> List then (Inl ErrExpectedList, s) else (Inr sz, NewList sz s))"

definition ListEnd :: "unit stream_op" where
  "ListEnd s =
     (case st_stack s of
        [] \<Rightarrow> (Inl errNotInList, s)
      | (pos, sz) # st \<Rightarrow>
          if pos \<noteq> sz then (Inl errNotAtEOL, s)
          else
            (Inr (), s\<lparr>st_stack := (case st of [] \<Rightarrow> [] | (pos', sz') # st' \<Rightarrow> (pos' + sz, sz') # st'),
               st_kind := None, st_size := 0\<rparr>))"

section \<open>Decoders\<close>

text \<open>A decoder fails with an error of the stream or with a \<^verbatim>\<open>decodeError\<close>: a message, the type of the target and
  the path to it, innermost step first.\<close>

datatype decode_err = Stream_error go_error | decodeError string string "string list"

definition decode_err_Error :: "string \<Rightarrow> string \<Rightarrow> string list \<Rightarrow> string" where
  "decode_err_Error msg typ ctx =
     ''rlp: '' @ msg @ '' for '' @ typ @ (if ctx = [] then '''' else '', decoding into '' @ concat (rev ctx))"

definition wrapStreamError :: "go_error \<Rightarrow> string \<Rightarrow> decode_err" where
  "wrapStreamError err typ =
     (if err = ErrCanonInt then decodeError ''non-canonical integer (leading zero bytes)'' typ []
      else if err = ErrCanonSize then decodeError ''non-canonical size information'' typ []
      else if err = ErrExpectedList then decodeError ''expected input list'' typ []
      else if err = ErrExpectedString then decodeError ''expected input string or byte'' typ []
      else if err = errUintOverflow then decodeError ''input string too long'' typ []
      else if err = errNotAtEOL then decodeError ''input list has too many elements'' typ []
      else Stream_error err)"

fun addErrorContext :: "decode_err \<Rightarrow> string \<Rightarrow> decode_err" where
  "addErrorContext (decodeError msg typ ctxt) ctx = decodeError msg typ (ctxt @ [ctx])"
| "addErrorContext (Stream_error e) ctx = Stream_error e"

text \<open>A decoder returns the value it stores. \<^verbatim>\<open>None\<close> stands for not having returned within the given number of rounds.\<close>

type_synonym 'a decoder = "stream \<Rightarrow> ((decode_err + 'a) \<times> stream) option"

definition leaf_decoder :: "(go_error \<Rightarrow> decode_err) \<Rightarrow> 'a stream_op \<Rightarrow> 'a decoder" where
  "leaf_decoder wrap m s = (case m s of (Inl e, s') \<Rightarrow> Some (Inl (wrap e), s') | (Inr x, s') \<Rightarrow> Some (Inr x, s'))"

definition decodeRawValue :: "bytes decoder" where
  "decodeRawValue = leaf_decoder Stream_error stream_Raw"

definition decodeUint :: "nat \<Rightarrow> string \<Rightarrow> u64 decoder" where
  "decodeUint bits typ = leaf_decoder (\<lambda>e. wrapStreamError e typ) (stream_uint bits)"

definition decodeBool :: "string \<Rightarrow> bool decoder" where
  "decodeBool typ = leaf_decoder (\<lambda>e. wrapStreamError e typ) stream_Bool"

definition decodeString :: "string \<Rightarrow> bytes decoder" where
  "decodeString typ = leaf_decoder (\<lambda>e. wrapStreamError e typ) stream_Bytes"

definition decodeByteSlice :: "string \<Rightarrow> bytes decoder" where
  "decodeByteSlice typ = leaf_decoder (\<lambda>e. wrapStreamError e typ) stream_Bytes"

definition decodeBigInt :: "string \<Rightarrow> int decoder" where
  "decodeBigInt typ =
     leaf_decoder (\<lambda>e. wrapStreamError e typ) (st_bind bigIntBytes (\<lambda>b s. (Inr (big_SetBytes b), s)))"

definition decodeUint256 :: "string \<Rightarrow> int decoder" where
  "decodeUint256 typ =
     leaf_decoder (\<lambda>e. wrapStreamError e typ) (st_bind Uint256Bytes (\<lambda>b s. (Inr (big_SetBytes b), s)))"

definition decodeByteArray :: "nat \<Rightarrow> string \<Rightarrow> bytes decoder" where
  "decodeByteArray vlen typ s =
     (case stream_Kind s of
        (Inl e, s) \<Rightarrow> Some (Inl (Stream_error e), s)
      | (Inr (Byte, sz), s) \<Rightarrow>
          if vlen = 0 then Some (Inl (decodeError ''input string too long'' typ []), s)
          else if vlen > 1 then Some (Inl (decodeError ''input string too short'' typ []), s)
          else (case stream_Uint s of (r, s) \<Rightarrow> Some (Inr [case r of Inl _ \<Rightarrow> 0 | Inr bv \<Rightarrow> ucast bv], s))
      | (Inr (String, sz), s) \<Rightarrow>
          if of_nat vlen < sz then Some (Inl (decodeError ''input string too long'' typ []), s)
          else if of_nat vlen > sz then Some (Inl (decodeError ''input string too short'' typ []), s)
          else (case readFull vlen s of
                  (Inl e, s) \<Rightarrow> Some (Inl (Stream_error e), s)
                | (Inr b, s) \<Rightarrow>
                    if sz = 1 \<and> b ! 0 < 128 then Some (Inl (wrapStreamError ErrCanonSize typ), s) else Some (Inr b, s))
      | (Inr (List, sz), s) \<Rightarrow> Some (Inl (wrapStreamError ErrExpectedString typ), s))"

text \<open>Pointers: the decoder of the element, and the one for fields with the tag \<^verbatim>\<open>nil\<close>, which reads empty values as nil.\<close>

fun kind_String :: "kind \<Rightarrow> string" where
  "kind_String Byte = ''Byte''"
| "kind_String String = ''String''"
| "kind_String List = ''List''"

definition makeSimplePtrDecoder :: "'a decoder \<Rightarrow> 'a option decoder" where
  "makeSimplePtrDecoder elemdec s = map_option (map_prod (map_sum id Some) id) (elemdec s)"

definition makeNilPtrDecoder :: "string \<Rightarrow> 'a decoder \<Rightarrow> kind \<Rightarrow> 'a option decoder" where
  "makeNilPtrDecoder typ elemdec nilKind s =
     (case stream_Kind s of
        (Inl e, s) \<Rightarrow> Some (Inl (wrapStreamError e typ), s)
      | (Inr (k, sz), s) \<Rightarrow>
          if k \<noteq> Byte \<and> sz = 0 then
            (if k \<noteq> nilKind then
               Some (Inl (decodeError (''wrong kind of empty value (got '' @ kind_String k @ '', want '' @
                 kind_String nilKind @ '')'') typ []), s)
             else Some (Inr None, s\<lparr>st_kind := None\<rparr>))
          else makeSimplePtrDecoder elemdec s)"

text \<open>The elements of a slice, read into a nil slice until the list ends; \<^verbatim>\<open>rounds\<close> bounds the number of rounds.\<close>

fun decodeSliceElems :: "'a decoder \<Rightarrow> nat \<Rightarrow> 'a list \<Rightarrow> 'a list decoder" where
  "decodeSliceElems elemdec 0 val s = None"
| "decodeSliceElems elemdec (Suc rounds) val s =
     (case elemdec s of
        None \<Rightarrow> None
      | Some (Inl e, s) \<Rightarrow>
          if e = Stream_error EOL then Some (Inr val, s)
          else Some (Inl (addErrorContext e (''['' @ nat_text 10 (length val) @ '']'')), s)
      | Some (Inr v, s) \<Rightarrow> decodeSliceElems elemdec rounds (val @ [v]) s)"

definition decodeListSlice :: "string \<Rightarrow> 'a decoder \<Rightarrow> nat \<Rightarrow> 'a list decoder" where
  "decodeListSlice typ elemdec rounds s =
     (case stream_List s of
        (Inl e, s) \<Rightarrow> Some (Inl (wrapStreamError e typ), s)
      | (Inr sz, s) \<Rightarrow>
          if sz = 0 then leaf_decoder Stream_error (st_bind ListEnd (\<lambda>_ s. (Inr [], s))) s
          else
            (case decodeSliceElems elemdec rounds [] s of
               None \<Rightarrow> None
             | Some (Inl e, s) \<Rightarrow> Some (Inl e, s)
             | Some (Inr vs, s) \<Rightarrow> leaf_decoder Stream_error (st_bind ListEnd (\<lambda>_ s. (Inr vs, s))) s))"

fun list_array_loop :: "'a decoder \<Rightarrow> nat \<Rightarrow> 'a list \<Rightarrow> 'a list decoder" where
  "list_array_loop elemdec 0 val s = Some (Inr val, s)"
| "list_array_loop elemdec (Suc n) val s =
     (case elemdec s of
        None \<Rightarrow> None
      | Some (Inl e, s) \<Rightarrow>
          if e = Stream_error EOL then Some (Inr val, s)
          else Some (Inl (addErrorContext e (''['' @ nat_text 10 (length val) @ '']'')), s)
      | Some (Inr v, s) \<Rightarrow> list_array_loop elemdec n (val @ [v]) s)"

definition decodeListArray :: "nat \<Rightarrow> string \<Rightarrow> 'a decoder \<Rightarrow> 'a list decoder" where
  "decodeListArray vlen typ elemdec s =
     (case stream_List s of
        (Inl e, s) \<Rightarrow> Some (Inl (wrapStreamError e typ), s)
      | (Inr _, s) \<Rightarrow>
          (case list_array_loop elemdec vlen [] s of
             None \<Rightarrow> None
           | Some (Inl e, s) \<Rightarrow> Some (Inl e, s)
           | Some (Inr vs, s) \<Rightarrow>
               if length vs < vlen then Some (Inl (decodeError ''input list has too few elements'' typ []), s)
               else leaf_decoder (\<lambda>e. wrapStreamError e typ) (st_bind ListEnd (\<lambda>_ s. (Inr vs, s))) s))"

text \<open>\<^verbatim>\<open>decodeInterface\<close> into an empty interface: lists become \<^verbatim>\<open>[]interface{}\<close>, strings \<^verbatim>\<open>[]byte\<close>.\<close>

fun decodeInterface :: "nat \<Rightarrow> rlp_item decoder" where
  "decodeInterface 0 s = None"
| "decodeInterface (Suc rounds) s =
     (case stream_Kind s of
        (Inl e, s) \<Rightarrow> Some (Inl (Stream_error e), s)
      | (Inr (k, sz), s) \<Rightarrow>
          if k = List then
            (case decodeListSlice ''[]interface {}'' (decodeInterface rounds) rounds s of
               None \<Rightarrow> None
             | Some (Inl e, s) \<Rightarrow> Some (Inl e, s)
             | Some (Inr vs, s) \<Rightarrow> Some (Inr (Lst vs), s))
          else
            (case stream_Bytes s of
               (Inl e, s) \<Rightarrow> Some (Inl (Stream_error e), s)
             | (Inr b, s) \<Rightarrow> Some (Inr (Str b), s)))"

text \<open>\<^verbatim>\<open>Stream.Decode\<close> into a non-nil pointer to a type with the decoder \<^verbatim>\<open>dcd\<close>, and \<^verbatim>\<open>DecodeBytes\<close>.\<close>

definition stream_Decode :: "string \<Rightarrow> 'a decoder \<Rightarrow> 'a decoder" where
  "stream_Decode typ dcd s =
     (case dcd s of
        Some (Inl (decodeError msg t ctx), s) \<Rightarrow>
          Some (Inl (if ctx = [] then decodeError msg t ctx else decodeError msg t (ctx @ [''('' @ typ @ '')''])), s)
      | r \<Rightarrow> r)"

definition DecodeBytes :: "string \<Rightarrow> 'a decoder \<Rightarrow> bytes \<Rightarrow> (decode_err + 'a) option" where
  "DecodeBytes typ dcd b =
     (case stream_Decode typ dcd (stream_Reset b (of_nat (length b))) of
        None \<Rightarrow> None
      | Some (Inl e, s) \<Rightarrow> Some (Inl e)
      | Some (Inr v, s) \<Rightarrow> Some (if length (st_r s) > 0 then Inl (Stream_error ErrMoreThanOneValue) else Inr v))"

section \<open>Reading forward\<close>

text \<open>A stream that has consumed \<^verbatim>\<open>n\<close> more bytes, and the number of bytes the innermost list has left.\<close>

definition advance :: "nat \<Rightarrow> stream \<Rightarrow> stream" where
  "advance n s = s\<lparr>st_r := drop n (st_r s), st_remaining := st_remaining s - of_nat n,
     st_stack := (case st_stack s of [] \<Rightarrow> [] | (pos, sz) # st \<Rightarrow> (pos + of_nat n, sz) # st)\<rparr>"

definition room :: "stream \<Rightarrow> nat" where
  "room s = (case st_stack s of [] \<Rightarrow> length (st_r s) | (pos, sz) # _ \<Rightarrow> unat sz - unat pos)"

definition stream_ok :: "stream \<Rightarrow> bool" where
  "stream_ok s \<longleftrightarrow> st_limited s \<and> length (st_r s) < 2 ^ 62 \<and> st_remaining s = of_nat (length (st_r s)) \<and>
     (case st_stack s of [] \<Rightarrow> True | (pos, sz) # _ \<Rightarrow> pos \<le> sz \<and> unat sz - unat pos \<le> length (st_r s))"

text \<open>Streams that agree but for what \<^verbatim>\<open>Kind\<close> keeps of the value ahead.\<close>

definition same_place :: "stream \<Rightarrow> stream \<Rightarrow> bool" where
  "same_place s t \<longleftrightarrow> st_r s = st_r t \<and> st_remaining s = st_remaining t \<and> st_limited s = st_limited t \<and>
     st_stack s = st_stack t"

lemma advance_0 [simp]: "advance 0 s = s"
  by (cases s) (auto simp: advance_def split: list.splits)

lemma advance_advance [simp]: "advance m (advance n s) = advance (n + m) s"
  by (cases s) (auto simp: advance_def algebra_simps split: list.splits)

lemma advance_kind [simp]: "st_kind (advance n s) = st_kind s" "st_limited (advance n s) = st_limited s"
  "st_r (advance n s) = drop n (st_r s)"
  by (simp_all add: advance_def)

lemma same_place_refl [simp]: "same_place s s"
  by (simp add: same_place_def)

lemma same_place_sym: "same_place s t \<Longrightarrow> same_place t s"
  by (simp add: same_place_def)

lemma same_place_trans [trans]: "same_place s t \<Longrightarrow> same_place t u \<Longrightarrow> same_place s u"
  by (simp add: same_place_def)

lemma same_place_advance: "same_place s t \<Longrightarrow> same_place (advance n s) (advance n t)"
  by (simp add: same_place_def advance_def)

lemma same_place_ok: "same_place s t \<Longrightarrow> stream_ok s \<longleftrightarrow> stream_ok t" "same_place s t \<Longrightarrow> room s = room t"
  by (auto simp: same_place_def stream_ok_def room_def split: list.splits)

lemma same_place_updates [simp]:
  "same_place (s\<lparr>st_kind := k\<rparr>) t = same_place s t" "same_place s (t\<lparr>st_kind := k\<rparr>) = same_place s t"
  "same_place (s\<lparr>st_size := n\<rparr>) t = same_place s t" "same_place s (t\<lparr>st_size := n\<rparr>) = same_place s t"
  "same_place (s\<lparr>st_byteval := b\<rparr>) t = same_place s t" "same_place s (t\<lparr>st_byteval := b\<rparr>) = same_place s t"
  "same_place (s\<lparr>st_kinderr := e\<rparr>) t = same_place s t" "same_place s (t\<lparr>st_kinderr := e\<rparr>) = same_place s t"
  by (simp_all add: same_place_def)

lemma stream_ok_updates [simp]:
  "stream_ok (s\<lparr>st_kinderr := e\<rparr>) = stream_ok s" "stream_ok (s\<lparr>st_kind := k\<rparr>) = stream_ok s"
  "room (s\<lparr>st_kinderr := e\<rparr>) = room s" "room (s\<lparr>st_kind := k\<rparr>) = room s"
  by (rule same_place_ok; simp)+

lemma word_fits:
  fixes pos sz :: u64
  assumes "pos \<le> sz" "n < 2 ^ 63"
  shows "\<not> of_nat n > sz - pos \<longleftrightarrow> n \<le> unat sz - unat pos"
    and "n \<le> unat sz - unat pos \<Longrightarrow> pos + of_nat n \<le> sz"
    and "n \<le> unat sz - unat pos \<Longrightarrow> unat (pos + of_nat n) = unat pos + n"
proof -
  have n: "unat (of_nat n :: u64) = n"
    using assms(2) by (simp add: unat_size)
  show "\<not> of_nat n > sz - pos \<longleftrightarrow> n \<le> unat sz - unat pos"
    using assms(1) n by (simp add: word_less_nat_alt unat_sub not_less)
  assume le: "n \<le> unat sz - unat pos"
  have "unat sz < 2 ^ 64"
    using unsigned_less [of sz, where ?'a = nat] by simp
  with le n assms(1) show "unat (pos + of_nat n) = unat pos + n"
    by (simp add: unat_word_ariths word_le_nat_alt)
  with le assms(1) show "pos + of_nat n \<le> sz"
    by (simp add: word_le_nat_alt)
qed

lemma advance_ok:
  assumes "stream_ok s" "n \<le> room s" "n \<le> length (st_r s)"
  shows "stream_ok (advance n s)" "room (advance n s) = room s - n"
proof -
  have "(of_nat (length (st_r s)) - of_nat n :: u64) = of_nat (length (st_r s) - n)"
    using assms(3) by simp
  then show "stream_ok (advance n s)" "room (advance n s) = room s - n"
    using assms word_fits [of _ _ n] by (auto simp: stream_ok_def advance_def room_def split: list.splits simp del: of_nat_diff)
qed

lemma willRead_fits:
  assumes "stream_ok s" "n < 2 ^ 63"
  shows "if n \<le> room s \<and> n \<le> length (st_r s)
    then willRead (of_nat n) s = (Inr (), (advance n s)\<lparr>st_kind := None, st_r := st_r s\<rparr>)
    else \<exists>e. fst (willRead (of_nat n) s) = Inl e \<and> e \<in> {ErrElemTooLarge, ErrValueTooLarge}"
proof -
  have "\<not> (of_nat n :: u64) > of_nat (length (st_r s)) \<longleftrightarrow> n \<le> length (st_r s)"
    using assms by (simp add: stream_ok_def word_less_nat_alt unat_size not_less)
  then show ?thesis
    using assms word_fits(1) [of _ _ n]
    by (cases s) (auto simp: willRead_def stream_ok_def room_def advance_def Let_def split: list.splits if_splits)
qed


lemma readFull_fits:
  assumes "stream_ok s" "n < 2 ^ 63"
  shows "if n \<le> room s \<and> n \<le> length (st_r s)
    then readFull n s = (Inr (take n (st_r s)), (advance n s)\<lparr>st_kind := None\<rparr>)
    else \<exists>e. fst (readFull n s) = Inl e \<and> e \<in> {ErrElemTooLarge, ErrValueTooLarge}"
  using willRead_fits [OF assms] by (auto simp: readFull_def st_bind_def advance_def split: prod.splits sum.splits if_splits)

lemma readByte_fits:
  assumes "stream_ok s"
  shows "if 1 \<le> room s \<and> 1 \<le> length (st_r s)
    then readByte s = (Inr (hd (st_r s)), (advance 1 s)\<lparr>st_kind := None\<rparr>)
    else \<exists>e. fst (readByte s) = Inl e \<and> e \<in> {ErrElemTooLarge, ErrValueTooLarge}"
  using willRead_fits [OF assms, of 1] by (cases "st_r s") (auto simp: readByte_def st_bind_def advance_def split: prod.splits sum.splits if_splits)

lemma BE_Uint64_foldl: "BE_Uint64 [a, b, c, d, e, f, g, h] = Inr (be_word [a, b, c, d, e, f, g, h])"
  by (simp add: be_word_def push_bit_or ac_simps)

lemma BE_Uint64_pad:
  assumes "length bs \<le> 8"
  shows "BE_Uint64 (replicate (8 - length bs) 0 @ bs) = Inr (be_word bs)"
proof -
  have "be_word (replicate n 0 @ bs) = be_word bs" for n
    by (induction n) (simp_all add: be_word_def)
  moreover have "BE_Uint64 cs = Inr (be_word cs)" if "length cs = 8" for cs
  proof -
    have "cs = [cs ! 0, cs ! 1, cs ! 2, cs ! 3, cs ! 4, cs ! 5, cs ! 6, cs ! 7]"
      using that by (intro nth_equalityI) (auto simp: less_Suc_eq numeral_eq_Suc)
    then show ?thesis
      by (metis BE_Uint64_foldl)
  qed
  ultimately show ?thesis
    using assms by simp
qed

lemma readUint_fits:
  assumes "stream_ok s" "1 \<le> k" "k \<le> 8"
  shows "if k \<le> room s \<and> k \<le> length (st_r s) \<and> (k = 1 \<or> st_r s ! 0 \<noteq> 0)
    then readUint (of_nat k) s = (Inr (be_word (take k (st_r s))), (advance k s)\<lparr>st_kind := None\<rparr>)
    else \<exists>e. fst (readUint (of_nat k) s) = Inl e \<and> e \<in> {ErrElemTooLarge, ErrValueTooLarge, ErrCanonSize}"
proof (cases "k = 1")
  case True
  have "be_word (take 1 (st_r s)) = ucast (hd (st_r s))" if "1 \<le> length (st_r s)"
    using that by (cases "st_r s") (auto simp: be_word_def)
  then show ?thesis
    using readByte_fits [OF assms(1)] True by (auto simp: readUint_def st_bind_def split: prod.splits sum.splits if_splits)
next
  case False
  have k: "unat (of_nat k :: u8) = k"
    using assms by (simp add: unat_byte)
  then have "(of_nat k :: u8) \<noteq> 0" "(of_nat k :: u8) \<noteq> 1"
    using False assms by (auto simp: word_unat_eq_iff)
  then show ?thesis
    using readFull_fits [OF assms(1), of k] BE_Uint64_pad [of "take k (st_r s)"] assms False
    by (auto simp: readUint_def st_bind_def k min_absorb2 split: prod.splits sum.splits if_splits)
qed


text \<open>Canonical sizes: bytes without a leading zero are the bytes of their number.\<close>

lemma byte_256: "(of_nat n :: u8) * 256 = 0"
proof -
  have "(256 :: u8) = 0"
    by (simp add: word_unat_eq_iff)
  then show ?thesis
    by (simp only: mult_zero_right)
qed

lemma nat_bytes_SetBytes:
  assumes "bs \<noteq> [] \<Longrightarrow> hd bs \<noteq> 0"
  shows "nat_bytes (nat (big_SetBytes bs)) = bs"
  using assms
proof (induction bs rule: rev_induct)
  case (snoc b xs)
  have nonneg: "0 \<le> big_SetBytes xs"
    by (induction xs rule: rev_induct) (simp_all add: big_SetBytes_def)
  have v: "nat (big_SetBytes (xs @ [b])) = nat (big_SetBytes xs) * 256 + unat b"
    using nonneg by (simp add: nat_add_distrib nat_mult_distrib)
  have b: "unat b < 256"
    using unsigned_less [of b, where ?'a = nat] by simp
  have xs: "nat_bytes (nat (big_SetBytes xs)) = xs"
    using snoc by (cases xs) auto
  have "nat (big_SetBytes xs) * 256 + unat b \<noteq> 0"
    using snoc.prems xs b by (cases xs) (auto simp: unat_eq_0)
  then show ?case
    using b xs byte_256 unfolding v by (simp add: nat_bytes_step)
qed (simp add: big_SetBytes_def)

lemma putint_be_word:
  assumes "bs \<noteq> []" "hd bs \<noteq> 0" "length bs \<le> 8"
  shows "putint (be_word bs) = bs"
proof -
  have "0 \<le> big_SetBytes bs \<and> big_SetBytes bs < 256 ^ length bs" for bs
  proof (induction bs rule: rev_induct)
    case (snoc b xs)
    then show ?case
      using unsigned_less [of b, where ?'a = int] by simp
  qed (simp add: big_SetBytes_def)
  from this [of bs] have range: "0 \<le> big_SetBytes bs" "big_SetBytes bs < 2 ^ 64"
    using power_increasing [OF assms(3), of "256 :: int"] by auto
  then have n: "unat (be_word bs) = nat (big_SetBytes bs)"
    by (simp add: be_word_SetBytes unsigned_of_int take_bit_int_eq_self)
  moreover have "nat_bytes (nat (big_SetBytes bs)) = bs"
    using assms(2) by (rule nat_bytes_SetBytes)
  ultimately show ?thesis
    using assms(1) putint_nat_bytes [of "be_word bs"] by (metis nat_bytes_0 unat_0)
qed


text \<open>The header of a value ahead.\<close>

definition head_bytes :: "kind \<Rightarrow> u8 \<Rightarrow> u64 \<Rightarrow> bytes" where
  "head_bytes k b sz = (case k of Byte \<Rightarrow> [b] | String \<Rightarrow> puthead 0x80 0xB7 sz | List \<Rightarrow> puthead 0xC0 0xF7 sz)"

definition head_ok :: "kind \<Rightarrow> u8 \<Rightarrow> u64 \<Rightarrow> bool" where
  "head_ok k b sz \<longleftrightarrow> (k = Byte \<longrightarrow> sz = 0 \<and> b < 128)"

lemma length_head_bytes: "1 \<le> length (head_bytes k b sz) \<and> length (head_bytes k b sz) \<le> 9"
  using headsize_range [of sz] by (simp add: head_bytes_def length_puthead split: kind.splits)

lemma head_take:
  assumes "stream_ok s" "st_r s = b # r"
  shows "st_r (advance 1 s) = r"
  using assms by simp

lemma long_head_sound:
  assumes "stream_ok s" "1 \<le> j" "j \<le> 8" "long_head k (of_nat j) s = ((k', sz, None), s')"
  shows "k' = k \<and> \<not> sz < 56 \<and> length (putint sz) = j \<and> st_r s = putint sz @ st_r s' \<and> j \<le> room s \<and>
    same_place s' (advance j s)"
proof -
  have r: "j \<le> room s \<and> j \<le> length (st_r s) \<and> (j = 1 \<or> st_r s ! 0 \<noteq> 0)"
    and u: "readUint (of_nat j) s = (Inr (be_word (take j (st_r s))), (advance j s)\<lparr>st_kind := None\<rparr>)"
    using readUint_fits [OF assms(1-3)] assms(4) by (auto simp: long_head_def split: prod.splits sum.splits if_splits)
  then have s: "k' = k" "sz = be_word (take j (st_r s))" "\<not> sz < 56" "s' = (advance j s)\<lparr>st_kind := None\<rparr>"
    using assms(4) by (auto simp: long_head_def split: if_splits)
  define bs where "bs = take j (st_r s)"
  have bs: "bs \<noteq> []" "length bs \<le> 8" "hd bs = st_r s ! 0" "length bs = j"
    using r assms(2,3) by (cases "st_r s"; auto simp: bs_def)+
  have "hd bs \<noteq> 0"
  proof (cases "j = 1")
    case True
    then obtain c where "bs = [c]"
      using bs by (cases bs) auto
    then show ?thesis
      using s(2,3) by (auto simp: be_word_def bs_def)
  qed (use r bs in auto)
  then have "putint sz = bs"
    using putint_be_word [of bs] bs s(2) by (simp add: bs_def)
  then show ?thesis
    using r s bs by (auto simp: bs_def)
qed

lemma long_head_complete:
  assumes "stream_ok s" "\<not> sz < 56" "st_r s = putint sz @ rest" "length (putint sz) \<le> room s"
  shows "long_head k (of_nat (length (putint sz))) s = ((k, sz, None), (advance (length (putint sz)) s)\<lparr>st_kind := None\<rparr>)"
proof -
  have sz: "sz \<noteq> 0"
    using assms(2) by auto
  then have len: "1 \<le> length (putint sz)" "length (putint sz) \<le> 8"
    using length_putint by auto
  have "putint sz ! 0 \<noteq> 0" "be_word (putint sz) = sz"
    using sz nat_bytes_nth_0 [of "unat sz"] by (simp_all add: putint_nat_bytes be_word_nat_bytes unat_eq_0)
  moreover from this(1) have "st_r s ! 0 \<noteq> 0"
    using assms(3) len(1) by (cases "putint sz") auto
  ultimately show ?thesis
    using readUint_fits [OF assms(1) len] assms by (simp add: long_head_def)
qed


lemma tag_split:
  assumes "a \<le> (b :: u8)"
  obtains j where "b = of_nat (unat a + j)" "j = unat b - unat a" "b - a = of_nat j"
proof
  show "b = of_nat (unat a + (unat b - unat a))"
    using assms by (simp add: word_le_nat_alt)
  show "b - a = of_nat (unat b - unat a)"
    using assms by (simp add: word_le_nat_alt)
qed simp

lemma readKind_tag_cases:
  assumes "readByte s = (Inr b, s')"
  shows "stream_readKind s = (if b < 0x80 then ((Byte, 0, None), s'\<lparr>st_byteval := 0, st_byteval := b\<rparr>)
    else if b < 0xB8 then ((String, ucast (b - 0x80), None), s'\<lparr>st_byteval := 0\<rparr>)
    else if b < 0xC0 then long_head String (b - 0xB7) (s'\<lparr>st_byteval := 0\<rparr>)
    else if b < 0xF8 then ((List, ucast (b - 0xC0), None), s'\<lparr>st_byteval := 0\<rparr>)
    else long_head List (b - 0xF7) (s'\<lparr>st_byteval := 0\<rparr>))"
  using assms by (simp add: stream_readKind_def Let_def)

lemma stream_readKind_sound:
  assumes "stream_ok s" "stream_readKind s = ((k, sz, None), s')"
  shows "st_r s = head_bytes k (st_byteval s') sz @ st_r s' \<and> head_ok k (st_byteval s') sz \<and>
    length (head_bytes k (st_byteval s') sz) \<le> room s \<and> same_place s' (advance (length (head_bytes k (st_byteval s') sz)) s)"
proof -
  have f: "1 \<le> room s" "1 \<le> length (st_r s)" "readByte s = (Inr (hd (st_r s)), (advance 1 s)\<lparr>st_kind := None\<rparr>)"
    using readByte_fits [OF assms(1)] assms(2) by (auto simp: stream_readKind_def split: prod.splits sum.splits if_splits)
  then obtain b r where r: "st_r s = b # r"
    by (cases "st_r s") auto
  define s1 where "s1 = (advance 1 s)\<lparr>st_kind := None, st_byteval := 0\<rparr>"
  have s1: "stream_ok s1" "room s1 = room s - 1" "st_r s1 = r" "same_place s1 (advance 1 s)"
    using advance_ok [OF assms(1), of 1] f same_place_ok [of s1 "advance 1 s"] by (simp_all add: s1_def r)
  have long: "st_r s = (t + of_nat (length (putint sz))) # putint sz @ st_r s' \<and> \<not> sz < 56 \<and>
      1 + length (putint sz) \<le> room s \<and> same_place s' (advance (1 + length (putint sz)) s) \<and> k = k'"
    if lh: "long_head k' (b - t) s1 = ((k, sz, None), s')" "t < b" "unat b \<le> unat t + 8" for k' t
  proof -
    obtain j where j: "b = of_nat (unat t + j)" "j = unat b - unat t" "b - t = of_nat j"
      using tag_split [of t b] lh(2) by (metis less_imp_le)
    have "1 \<le> j" "j \<le> 8"
      using lh(2,3) unfolding j(2) word_less_nat_alt by simp_all
    then have l: "k = k' \<and> \<not> sz < 56 \<and> length (putint sz) = j \<and> st_r s1 = putint sz @ st_r s' \<and> j \<le> room s1 \<and>
        same_place s' (advance j s1)"
      using long_head_sound [OF s1(1), of j k' k sz s'] lh(1) j(3) by auto
    have "same_place (advance j s1) (advance (1 + j) s)"
      using same_place_advance [OF s1(4), of j] by simp
    then show ?thesis
      using l s1 j(1) f(1) r same_place_trans [of s' "advance j s1"] by auto
  qed
  have short: "sz < 56 \<and> t + ucast sz = b" if "sz = ucast (b - t)" "t \<le> b" "unat b < unat t + 56" for t
  proof -
    have "ucast (ucast (b - t) :: u64) = b - t"
      by (rule bit_word_eqI) (simp add: bit_simps)
    then show ?thesis
      using that unat_tag [of t b] by (auto simp: word_less_nat_alt)
  qed
  have lim: "unat b < 256"
    using unsigned_less [of b, where ?'a = nat] by simp
  note k = readKind_tag_cases [OF f(3), folded s1_def, unfolded r list.sel, symmetric, unfolded assms(2)]
  consider "b < 0x80" | "\<not> b < 0x80" "b < 0xB8" | "\<not> b < 0xB8" "b < 0xC0" | "\<not> b < 0xC0" "b < 0xF8" | "\<not> b < 0xF8"
    by blast
  then show ?thesis
  proof cases
    case 1
    then have "k = Byte" "sz = 0" "s' = s1\<lparr>st_byteval := b\<rparr>"
      using k by auto
    then show ?thesis
      using 1 f s1 r by (simp add: head_bytes_def head_ok_def)
  next
    case 2
    then have "k = String" "sz = ucast (b - 0x80)" "s' = s1"
      using k by auto
    then show ?thesis
      using 2 f s1 r short [of "0x80"] by (simp add: head_bytes_def head_ok_def puthead_def word_less_nat_alt word_le_nat_alt)
  next
    case 3
    then have "long_head String (b - 0xB7) s1 = ((k, sz, None), s')"
      using k by (auto simp: word_less_nat_alt)
    then show ?thesis
      using 3 long [of String "0xB7"] by (auto simp: head_bytes_def head_ok_def puthead_def word_less_nat_alt Let_def)
  next
    case 4
    then have "k = List" "sz = ucast (b - 0xC0)" "s' = s1"
      using k by (auto simp: word_less_nat_alt)
    then show ?thesis
      using 4 f s1 r short [of "0xC0"] by (simp add: head_bytes_def head_ok_def puthead_def word_less_nat_alt word_le_nat_alt)
  next
    case 5
    then have "long_head List (b - 0xF7) s1 = ((k, sz, None), s')"
      using k by (auto simp: word_less_nat_alt)
    then show ?thesis
      using 5 lim long [of List "0xF7"] by (auto simp: head_bytes_def head_ok_def puthead_def word_less_nat_alt Let_def)
  qed
qed

lemma stream_readKind_complete:
  assumes "stream_ok s" "st_r s = head_bytes k b sz @ rest" "head_ok k b sz" "length (head_bytes k b sz) \<le> room s"
  obtains s' where "stream_readKind s = ((k, sz, None), s')" "same_place s' (advance (length (head_bytes k b sz)) s)"
    "k = Byte \<Longrightarrow> st_byteval s' = b"
proof -
  obtain t r where r: "st_r s = t # r" "head_bytes k b sz @ rest = t # r"
    using assms(2) length_head_bytes [of k b sz] by (cases "head_bytes k b sz") auto
  have f: "1 \<le> room s" "1 \<le> length (st_r s)" "readByte s = (Inr t, (advance 1 s)\<lparr>st_kind := None\<rparr>)"
    using readByte_fits [OF assms(1)] assms(4) length_head_bytes [of k b sz] r by auto
  define s1 where "s1 = (advance 1 s)\<lparr>st_kind := None, st_byteval := 0\<rparr>"
  have s1: "stream_ok s1" "room s1 = room s - 1" "st_r s1 = r" "same_place s1 (advance 1 s)"
    using advance_ok [OF assms(1), of 1] f same_place_ok [of s1 "advance 1 s"] by (simp_all add: s1_def r)
  note k = readKind_tag_cases [OF f(3), folded s1_def]
  consider "k = Byte" | g where "k \<noteq> Byte" "sz < 56" "head_bytes k b sz = [g + ucast sz]" "g = (if k = String then 0x80 else 0xC0)"
    | g where "k \<noteq> Byte" "\<not> sz < 56" "head_bytes k b sz = (g + of_nat (length (putint sz))) # putint sz"
        "g = (if k = String then 0xB7 else 0xF7)"
    by (cases k; cases "sz < 56") (auto simp: head_bytes_def puthead_def Let_def)
  then show thesis
  proof cases
    case 1
    then have "t = b" "stream_readKind s = ((k, sz, None), s1\<lparr>st_byteval := b\<rparr>)"
      using r(2) assms(3) k by (auto simp: head_bytes_def head_ok_def)
    then show thesis
      using that [of "s1\<lparr>st_byteval := b\<rparr>"] s1(4) 1 by (simp add: head_bytes_def)
  next
    case 2
    then have t: "t = g + ucast sz" and sz: "unat sz < 56"
      using r(2) by (auto simp: word_less_nat_alt)
    have "(ucast (ucast sz :: u8) :: u64) = sz"
      using sz by (simp add: word_unat_eq_iff unsigned_ucast_eq unsigned_take_bit_eq take_bit_nat_eq_self)
    moreover have "unat t = unat g + unat sz"
      using sz t 2(4) by (auto simp: unat_word_ariths unsigned_ucast_eq take_bit_nat_eq_self split: if_splits)
    ultimately have "stream_readKind s = ((k, sz, None), s1)"
      using sz 2(1,4) t k by (cases k) (auto simp: word_less_nat_alt)
    then show thesis
      using that [of s1] s1(4) 2 by simp
  next
    case 3
    define n where "n = length (putint sz)"
    have n: "1 \<le> n" "n \<le> 8"
      using length_putint [of sz] 3(2) by (cases "sz = 0"; auto simp: n_def)+
    have t: "t = g + of_nat n" "st_r s1 = putint sz @ rest"
      using r s1(3) 3(3) by (auto simp: n_def)
    have "unat t = unat g + n"
      using t n 3(4) by (auto simp: unat_word_ariths unat_byte split: if_splits)
    then have "stream_readKind s = long_head k (of_nat n) s1"
      using t n 3(1,4) k by (cases k) (auto simp: word_less_nat_alt)
    also have "\<dots> = ((k, sz, None), (advance n s1)\<lparr>st_kind := None\<rparr>)"
      using long_head_complete [OF s1(1) 3(2) t(2)] s1(2) assms(4) 3(3) unfolding n_def by simp
    finally show thesis
      using that [of "(advance n s1)\<lparr>st_kind := None\<rparr>"] same_place_advance [OF s1(4), of n] 3 by (simp add: n_def)
  qed
qed


text \<open>\<^verbatim>\<open>Kind\<close>: it finds the header of the value ahead exactly when there is one and the value fits.\<close>

lemma Kind_fresh:
  assumes "st_kind s = None" "stream_Kind s = (Inr (k, sz), s')"
  obtains s1 where "stream_readKind (s\<lparr>st_kinderr := None\<rparr>) = ((k, sz, None), s1)"
    "s' = s1\<lparr>st_kind := Some k, st_size := sz, st_kinderr := None\<rparr>"
    "\<not> (case st_stack s1 of [] \<Rightarrow> st_limited s1 \<and> sz > st_remaining s1 | (pos, size') # _ \<Rightarrow> sz > size' - pos)"
  using assms by (auto simp: stream_Kind_def Let_def split: option.splits if_splits prod.splits list.splits)

lemma Kind_cached: "stream_Kind s = (Inr (k, sz), s') \<Longrightarrow> stream_Kind s' = (Inr (k, sz), s')"
proof (cases "st_kind s")
  case None
  moreover assume "stream_Kind s = (Inr (k, sz), s')"
  ultimately obtain s1 where "s' = s1\<lparr>st_kind := Some k, st_size := sz, st_kinderr := None\<rparr>"
    by (rule Kind_fresh)
  then show ?thesis
    by (simp add: stream_Kind_def)
qed (auto simp: stream_Kind_def split: option.splits)

lemma size_fits:
  assumes "stream_ok s"
  shows "(case st_stack s of [] \<Rightarrow> st_limited s \<and> sz > st_remaining s | (pos, size') # _ \<Rightarrow> sz > size' - pos)
    \<longleftrightarrow> \<not> unat sz \<le> room s"
  using assms by (auto simp: stream_ok_def room_def word_less_nat_alt unat_size unat_sub not_le split: list.splits)

lemma Kind_sound:
  assumes "stream_ok s" "st_kind s = None" "stream_Kind s = (Inr (k, sz), s')"
  defines "h \<equiv> head_bytes k (st_byteval s') sz"
  shows "st_r s = h @ st_r s'" "head_ok k (st_byteval s') sz" "length h \<le> room s" "same_place s' (advance (length h) s)"
    "unat sz \<le> room s'" "stream_ok s'"
proof -
  let ?s = "s\<lparr>st_kinderr := None\<rparr>"
  obtain s1 where k: "stream_readKind ?s = ((k, sz, None), s1)" "s' = s1\<lparr>st_kind := Some k, st_size := sz, st_kinderr := None\<rparr>"
    and fit: "\<not> (case st_stack s1 of [] \<Rightarrow> st_limited s1 \<and> sz > st_remaining s1 | (pos, size') # _ \<Rightarrow> sz > size' - pos)"
    using assms(2,3) by (rule Kind_fresh)
  have "stream_ok ?s" "same_place ?s s"
    using assms(1) by simp_all
  note r = stream_readKind_sound [OF this(1) k(1)]
  have b: "st_byteval s' = st_byteval s1" "st_r s' = st_r s1" "same_place s' s1"
    using k(2) by simp_all
  show h: "st_r s = h @ st_r s'" "head_ok k (st_byteval s') sz" "length h \<le> room s"
    using r same_place_ok [OF \<open>same_place ?s s\<close>] b by (simp_all add: h_def)
  show p: "same_place s' (advance (length h) s)"
    using r b same_place_advance [OF \<open>same_place ?s s\<close>] by (metis h_def same_place_trans)
  have "stream_ok (advance (length h) s)"
    using advance_ok [OF assms(1) h(3)] h(1) by simp
  then show "stream_ok s'"
    using p same_place_ok by blast
  then show "unat sz \<le> room s'"
    using fit size_fits [of s1 sz] b(3) same_place_ok [of s' s1] by simp
qed

lemma Kind_complete:
  assumes "stream_ok s" "st_kind s = None" "st_r s = head_bytes k b sz @ rest" "head_ok k b sz"
    "length (head_bytes k b sz) + unat sz \<le> room s"
  obtains s' where "stream_Kind s = (Inr (k, sz), s')" "same_place s' (advance (length (head_bytes k b sz)) s)"
    "k = Byte \<Longrightarrow> st_byteval s' = b"
proof -
  let ?s = "s\<lparr>st_kinderr := None\<rparr>" and ?n = "length (head_bytes k b sz)"
  have s: "stream_ok ?s" "same_place ?s s" "room ?s = room s"
    using assms(1) by simp_all
  obtain s1 where s1: "stream_readKind ?s = ((k, sz, None), s1)" "same_place s1 (advance ?n ?s)" "k = Byte \<Longrightarrow> st_byteval s1 = b"
    using stream_readKind_complete [OF s(1), of k b sz rest] assms(3-5) s(3) by auto
  have p: "same_place s1 (advance ?n s)"
    using s1(2) same_place_advance [OF s(2)] same_place_trans by blast
  then have ok: "stream_ok s1" "room s1 = room s - ?n"
    using advance_ok [OF assms(1), of ?n] assms(3,5) same_place_ok [OF p] by simp_all
  then have fit: "\<not> (case st_stack s1 of [] \<Rightarrow> st_limited s1 \<and> sz > st_remaining s1 | (pos, size') # _ \<Rightarrow> sz > size' - pos)"
    using size_fits [of s1 sz] assms(5) by simp
  have "1 \<le> room s"
    using assms(5) length_head_bytes [of k b sz] by linarith
  then have "\<not> (case st_stack s of [] \<Rightarrow> False | (pos, sz) # _ \<Rightarrow> pos = sz)"
    by (auto simp: room_def split: list.splits)
  then have "stream_Kind s = (Inr (k, sz), s1\<lparr>st_kind := Some k, st_size := sz, st_kinderr := None\<rparr>)"
    using assms(2) s1(1) fit by (auto simp: stream_Kind_def Let_def split: list.splits if_splits)
  then show thesis
    using that p s1(3) by simp
qed

end
