(* ===== verification/Rlp_Decode.thy ===== *)
theory Rlp_Decode
  imports Rlp_Stream
begin

text \<open>
  What the decoders of \<^verbatim>\<open>src/rlp/decode.go\<close> accept. An element decoder and an encoding that belong together form a codec;
  reading a list of elements is then proved once, and the codecs of byte slices, of integers and of whole trees are
  instances. The decoder of trees accepts exactly the bytes the encoder writes.
\<close>

section \<open>Consuming an encoding\<close>

definition consumes :: "bytes \<Rightarrow> stream \<Rightarrow> stream \<Rightarrow> bool" where
  "consumes bs s s' \<longleftrightarrow> st_r s = bs @ st_r s' \<and> length bs \<le> room s \<and> same_place s' (advance (length bs) s) \<and> st_kind s' = None"

definition at_start :: "stream \<Rightarrow> bool" where
  "at_start s \<longleftrightarrow> stream_ok s \<and> st_kind s = None"

definition at_end :: "stream \<Rightarrow> bool" where
  "at_end s \<longleftrightarrow> st_stack s \<noteq> [] \<and> room s = 0"

lemma consumes_start:
  assumes "at_start s" "consumes bs s s'"
  shows "at_start s'" "room s' = room s - length bs"
  using assms advance_ok [of s "length bs"] same_place_ok [of s' "advance (length bs) s"]
  by (auto simp: at_start_def consumes_def)

lemma consumes_append:
  assumes "at_start s" "consumes a s s'" "consumes b s' s''"
  shows "consumes (a @ b) s s''"
proof -
  have "same_place s'' (advance (length b) (advance (length a) s))"
    using assms same_place_advance same_place_trans unfolding consumes_def by blast
  then show ?thesis
    using assms consumes_start [OF assms(1,2)] by (auto simp: consumes_def)
qed

lemma consumes_Nil: "consumes [] s s' \<longleftrightarrow> same_place s' s \<and> st_kind s' = None"
  by (auto simp: consumes_def same_place_def)

lemma Kind_at_end:
  assumes "at_start s" "at_end s"
  shows "\<exists>s'. stream_Kind s = (Inl EOL, s') \<and> consumes [] s s'"
  using assms by (auto simp: at_start_def at_end_def stream_Kind_def room_def stream_ok_def Let_def consumes_Nil
    word_le_nat_alt word_unat_eq_iff split: list.splits)

lemmas stream_errors = rlp_errors EOL_def io_EOF_def ErrElemTooLarge_def ErrMoreThanOneValue_def errNotInList_def errNotAtEOL_def

lemma long_head_err:
  assumes "stream_ok s" "t < b" "unat b \<le> unat t + 8" "long_head k (b - t) s = ((k', sz, Some e), s')"
  shows "e \<in> {ErrElemTooLarge, ErrValueTooLarge, ErrCanonSize}"
proof -
  obtain j where j: "j = unat b - unat t" "b - t = of_nat j"
    using tag_split [of t b] assms(2) by (metis less_imp_le)
  have "1 \<le> j" "j \<le> 8"
    using assms(2,3) unfolding j(1) word_less_nat_alt by simp_all
  then show ?thesis
    using readUint_fits [OF assms(1), of j] assms(4) unfolding j(2)
    by (auto simp: long_head_def split: prod.splits sum.splits if_splits)
qed

lemma readKind_err:
  assumes "stream_ok s" "stream_readKind s = ((k, sz, Some e), s')"
  shows "e \<in> {ErrElemTooLarge, ErrValueTooLarge, ErrCanonSize, io_EOF}"
proof (cases "1 \<le> room s \<and> 1 \<le> length (st_r s)")
  case True
  then have f: "readByte s = (Inr (hd (st_r s)), (advance 1 s)\<lparr>st_kind := None\<rparr>)"
    using readByte_fits [OF assms(1)] by simp
  define b where "b = hd (st_r s)"
  define s1 where "s1 = (advance 1 s)\<lparr>st_kind := None, st_byteval := 0\<rparr>"
  have ok: "stream_ok s1"
    using advance_ok [OF assms(1), of 1] True same_place_ok [of s1 "advance 1 s"] by (simp add: s1_def)
  have "unat b < 256"
    using unsigned_less [of b, where ?'a = nat] by simp
  moreover have "(\<not> b < 0xB8 \<and> b < 0xC0 \<and> long_head String (b - 0xB7) s1 = ((k, sz, Some e), s')) \<or>
      (\<not> b < 0xF8 \<and> long_head List (b - 0xF7) s1 = ((k, sz, Some e), s'))"
    using readKind_tag_cases [OF f, folded b_def s1_def] assms(2) by (auto split: if_splits)
  ultimately show ?thesis
    using long_head_err [OF ok, of "0xB7" b String k sz e s'] long_head_err [OF ok, of "0xF7" b List k sz e s']
    by (auto simp: word_less_nat_alt)
next
  case False
  then obtain e' s1 where "readByte s = (Inl e', s1)" "e' \<in> {ErrElemTooLarge, ErrValueTooLarge}"
    using readByte_fits [OF assms(1)] by (cases "readByte s") auto
  then show ?thesis
    using assms(2) by (auto simp: stream_readKind_def split: if_splits)
qed

lemma Kind_EOL:
  assumes "at_start s" "stream_Kind s = (Inl EOL, s')"
  shows "consumes [] s s' \<and> at_end s"
proof -
  let ?s = "s\<lparr>st_kinderr := None\<rparr>"
  have ok: "stream_ok ?s" "st_kind s = None"
    using assms(1) by (simp_all add: at_start_def)
  have "(case st_stack s of [] \<Rightarrow> False | (pos, sz) # _ \<Rightarrow> pos = sz)"
  proof (rule ccontr)
    assume not: "\<not> ?thesis"
    obtain k sz err s1 where "stream_readKind ?s = ((k, sz, err), s1)"
      by (metis prod.exhaust)
    moreover from this have "err \<noteq> Some EOL"
      using readKind_err [OF ok(1), of k sz EOL s1] by (auto simp: stream_errors)
    ultimately show False
      using assms(2) not ok(2)
      by (auto simp: stream_Kind_def Let_def stream_errors split: list.splits option.splits if_splits)
  qed
  then show ?thesis
    using assms by (auto simp: stream_Kind_def Let_def at_start_def at_end_def room_def consumes_Nil split: list.splits)
qed

lemma Kind_err:
  assumes "at_start s" "stream_Kind s = (Inl e, s')"
  shows "e \<in> {EOL, ErrElemTooLarge, ErrValueTooLarge, ErrCanonSize, io_EOF}"
proof -
  let ?s = "s\<lparr>st_kinderr := None\<rparr>"
  have ok: "stream_ok ?s" "st_kind s = None"
    using assms(1) by (simp_all add: at_start_def)
  obtain k sz err s1 where "stream_readKind ?s = ((k, sz, err), s1)"
    by (metis prod.exhaust)
  moreover from this have "err = Some e' \<Longrightarrow> e' \<in> {ErrElemTooLarge, ErrValueTooLarge, ErrCanonSize, io_EOF}" for e'
    using readKind_err [OF ok(1)] by auto
  ultimately show ?thesis
    using assms(2) ok(2) by (cases err) (auto simp: stream_Kind_def Let_def split: list.splits if_splits)
qed

lemma room_le: "stream_ok s \<Longrightarrow> room s \<le> length (st_r s)"
  by (auto simp: stream_ok_def room_def split: list.splits)

lemma rlp_enc_nonempty: "rlp_enc x \<noteq> []"
proof (cases x)
  case (Str b)
  then show ?thesis
    using headsize_range [of "of_nat (length b)"] length_puthead [of "0x80" "0xB7" "of_nat (length b)"] by (cases b) auto
next
  case (Lst xs)
  then show ?thesis
    using headsize_range length_puthead [of "0xC0" "0xF7"]
    by (metis append_is_Nil_conv length_0_conv not_one_le_zero rlp_enc.simps(2))
qed

section \<open>Strings\<close>

lemma Bytes_cached: "stream_Kind s = (Inr (k, sz), s') \<Longrightarrow> stream_Bytes s' = stream_Bytes s"
  using Kind_cached [of s k sz s'] by (simp add: stream_Bytes_def st_bind_def)

lemma List_cached: "stream_Kind s = (Inr (k, sz), s') \<Longrightarrow> stream_List s' = stream_List s"
  using Kind_cached [of s k sz s'] by (simp add: stream_List_def st_bind_def)

lemma Bytes_sound:
  assumes "at_start s" "stream_Bytes s = (Inr b, s')"
  shows "consumes (rlp_enc (Str b)) s s'"
proof -
  obtain k sz s1 where K: "stream_Kind s = (Inr (k, sz), s1)"
    using assms(2) by (auto simp: stream_Bytes_def st_bind_def split: prod.splits sum.splits)
  note h = Kind_sound [OF _ _ K] assms(1) [unfolded at_start_def]
  show ?thesis
  proof (cases k)
    case Byte
    then have "b = [st_byteval s1]" "s' = s1\<lparr>st_kind := None\<rparr>"
      using assms(2) K by (simp_all add: stream_Bytes_def st_bind_def)
    then show ?thesis
      using h Byte by (simp add: consumes_def head_bytes_def head_ok_def word_le_nat_alt word_less_nat_alt)
  next
    case String
    then have sz: "sz < 2 ^ 63" and r: "readFull (unat sz) s1 = (Inr b, s')" and c: "\<not> (sz = 1 \<and> b ! 0 < 128)"
      using assms(2) K by (auto simp: stream_Bytes_def st_bind_def make_bytes_def split: if_splits prod.splits sum.splits)
    have f: "b = take (unat sz) (st_r s1)" "s' = (advance (unat sz) s1)\<lparr>st_kind := None\<rparr>" "unat sz \<le> length (st_r s1)"
      using readFull_fits [of s1 "unat sz"] r h sz by (auto simp: word_less_nat_alt split: if_splits)
    then have len: "length b = unat sz"
      by simp
    have "\<not> (length b = 1 \<and> b ! 0 \<le> 0x7F)"
      using c len by (auto simp: word_unat_eq_iff word_less_nat_alt word_le_nat_alt)
    then have e: "rlp_enc (Str b) = head_bytes String (st_byteval s1) sz @ b"
      using len by (auto simp: head_bytes_def)
    have "same_place s' (advance (unat sz) (advance (length (head_bytes k (st_byteval s1) sz)) s))"
      using f(2) same_place_advance [OF h(4)] h by simp
    moreover have "room s1 = room s - length (head_bytes k (st_byteval s1) sz)"
      using h advance_ok [of s "length (head_bytes k (st_byteval s1) sz)"] same_place_ok [OF h(4)] by auto
    ultimately show ?thesis
      using h f e len String by (auto simp: consumes_def)
  next
    case List
    then show ?thesis
      using assms(2) K by (simp add: stream_Bytes_def st_bind_def)
  qed
qed

lemma Bytes_EOL:
  assumes "at_start s" "stream_Bytes s = (Inl EOL, s')"
  shows "consumes [] s s' \<and> at_end s"
proof (cases "stream_Kind s")
  case (Pair r s1)
  show ?thesis
  proof (cases r)
    case (Inl e)
    then show ?thesis
      using Pair assms Kind_EOL [of s s'] by (simp add: stream_Bytes_def st_bind_def)
  next
    case (Inr p)
    then obtain k sz where K: "stream_Kind s = (Inr (k, sz), s1)"
      using Pair by (cases p) auto
    have "stream_ok s1"
      using Kind_sound [OF _ _ K] assms(1) by (simp add: at_start_def)
    then show ?thesis
      using readFull_fits [of s1 "unat sz"] K assms(2)
      by (cases k) (auto simp: stream_Bytes_def st_bind_def make_bytes_def stream_errors word_less_nat_alt
        split: if_splits prod.splits sum.splits)
  qed
qed

lemma Bytes_no_panic:
  assumes "at_start s"
  shows "stream_Bytes s \<noteq> (Inl (Panic m), s')"
proof (cases "stream_Kind s")
  case (Pair r s1)
  show ?thesis
  proof (cases r)
    case (Inl e)
    then show ?thesis
      using Kind_err [OF assms] Pair by (auto simp: stream_Bytes_def st_bind_def stream_errors)
  next
    case (Inr p)
    then obtain k sz where K: "stream_Kind s = (Inr (k, sz), s1)"
      using Pair by (cases p) auto
    have ok: "stream_ok s1" "unat sz \<le> room s1"
      using Kind_sound [OF _ _ K] assms(1) by (simp_all add: at_start_def)
    then have "sz < 2 ^ 63"
      using room_le [OF ok(1)] by (simp add: stream_ok_def word_less_nat_alt)
    then show ?thesis
      using readFull_fits [OF ok(1), of "unat sz"] K
      by (cases k) (auto simp: stream_Bytes_def st_bind_def make_bytes_def stream_errors word_less_nat_alt
        split: if_splits prod.splits sum.splits)
  qed
qed

lemma Bytes_complete:
  assumes "at_start s" "st_r s = rlp_enc (Str b) @ rest" "length (rlp_enc (Str b)) \<le> room s"
  shows "\<exists>s'. stream_Bytes s = (Inr b, s') \<and> consumes (rlp_enc (Str b)) s s'"
proof -
  have "length (st_r s) < 2 ^ 62" "length b \<le> length (rlp_enc (Str b))"
    using assms(1) by (auto simp: at_start_def stream_ok_def)
  then have len: "length b < 2 ^ 62"
    using assms(2) by (metis le_less_trans length_append trans_le_add1)
  have "\<exists>s'. stream_Bytes s = (Inr b, s')"
  proof (cases "length b = 1 \<and> b ! 0 \<le> 0x7F")
    case True
    then obtain v where v: "b = [v]" "v < 128"
      by (cases b) (auto simp: word_le_nat_alt word_less_nat_alt)
    obtain s1 where "stream_Kind s = (Inr (Byte, 0), s1)" "st_byteval s1 = v"
      using Kind_complete [of s Byte v 0 rest] assms v True
      by (auto simp: at_start_def head_bytes_def head_ok_def)
    then show ?thesis
      using v by (simp add: stream_Bytes_def st_bind_def)
  next
    case False
    define h where "h = head_bytes String 0 (of_nat (length b))"
    have r: "st_r s = h @ b @ rest" "length h + length b \<le> room s" and n: "unat (of_nat (length b) :: u64) = length b"
      using assms(2,3) False len by (auto simp: h_def head_bytes_def unat_size)
    then obtain s1 where K: "stream_Kind s = (Inr (String, of_nat (length b)), s1)" "same_place s1 (advance (length h) s)"
      using Kind_complete [of s String 0 "of_nat (length b)" "b @ rest"] assms(1)
      by (auto simp: at_start_def head_ok_def h_def)
    have s1: "st_r s1 = b @ rest" "room s1 = room s - length h" "stream_ok s1"
      using K(2) r advance_ok [of s "length h"] assms(1) same_place_ok [OF K(2)]
      by (auto simp: at_start_def same_place_def)
    then have "readFull (length b) s1 = (Inr b, (advance (length b) s1)\<lparr>st_kind := None\<rparr>)"
      using readFull_fits [of s1 "length b"] r(2) len by simp
    moreover have "(of_nat (length b) = (1 :: u64)) \<longleftrightarrow> length b = 1"
      using n by (simp add: word_unat_eq_iff)
    ultimately show ?thesis
      using K(1) False n len
      by (auto simp: stream_Bytes_def st_bind_def make_bytes_def word_less_nat_alt word_le_nat_alt)
  qed
  then show ?thesis
    using Bytes_sound [OF assms(1)] by blast
qed

section \<open>Lists of elements\<close>

text \<open>
  The contract between the decoder of an element and the encoding of elements: what the decoder accepts is an encoding,
  it fails with \<^verbatim>\<open>EOL\<close> only at the end of a list, and it never panics.
\<close>

locale elem_decoder =
  fixes dec :: "'a decoder"
    and enc :: "'a \<Rightarrow> bytes"
  assumes dec_sound: "at_start s \<Longrightarrow> dec s = Some (Inr v, s') \<Longrightarrow> consumes (enc v) s s'"
    and dec_EOL: "at_start s \<Longrightarrow> dec s = Some (Inl (Stream_error EOL), s') \<Longrightarrow> consumes [] s s' \<and> at_end s"
    and enc_nonempty: "enc v \<noteq> []"
    and dec_no_panic: "at_start s \<Longrightarrow> dec s \<noteq> Some (Inl (Stream_error (Panic m)), s')"
begin

lemma elems_sound:
  "at_start s \<Longrightarrow> decodeSliceElems dec n val s = Some (Inr vs, s') \<Longrightarrow>
    \<exists>ws. vs = val @ ws \<and> consumes (concat (map enc ws)) s s' \<and> at_end s'"
proof (induction n arbitrary: val s)
  case (Suc n)
  obtain r s1 where d: "dec s = Some (r, s1)"
    using Suc.prems(2) by (auto split: option.splits)
  show ?case
  proof (cases r)
    case (Inl e)
    then have "e = Stream_error EOL" "vs = val" "s' = s1"
      using Suc.prems(2) d by (auto split: if_splits)
    moreover from this have "consumes [] s s1" "at_end s"
      using dec_EOL [OF Suc.prems(1)] d Inl by auto
    ultimately show ?thesis
      using same_place_ok(2) [of s1 s] by (auto simp: consumes_Nil at_end_def same_place_def)
  next
    case (Inr v)
    then have c: "consumes (enc v) s s1"
      using dec_sound Suc.prems(1) d by blast
    moreover obtain ws where "vs = (val @ [v]) @ ws" "consumes (concat (map enc ws)) s1 s'" "at_end s'"
      using Suc.IH [OF consumes_start(1) [OF Suc.prems(1) c], of "val @ [v]"] Suc.prems(2) d Inr by auto
    ultimately show ?thesis
      using consumes_append [OF Suc.prems(1)] by (intro exI [of _ "v # ws"]) auto
  qed
qed simp

end

text \<open>A codec also stops at the end of a list and accepts the encodings of the values in \<^verbatim>\<open>good\<close>.\<close>

locale elem_codec = elem_decoder +
  fixes good :: "'a \<Rightarrow> bool"
  assumes dec_at_end: "at_start s \<Longrightarrow> at_end s \<Longrightarrow> \<exists>s'. dec s = Some (Inl (Stream_error EOL), s') \<and> consumes [] s s'"
    and dec_complete: "at_start s \<Longrightarrow> good v \<Longrightarrow> st_r s = enc v @ rest \<Longrightarrow> length (enc v) \<le> room s \<Longrightarrow>
      \<exists>s'. dec s = Some (Inr v, s')"
begin

lemma elems_complete:
  "at_start s \<Longrightarrow> st_stack s \<noteq> [] \<Longrightarrow> list_all good ws \<Longrightarrow> st_r s = concat (map enc ws) @ rest \<Longrightarrow>
    room s = length (concat (map enc ws)) \<Longrightarrow> length ws < n \<Longrightarrow> \<exists>s'. decodeSliceElems dec n val s = Some (Inr (val @ ws), s')"
proof (induction n arbitrary: val s ws)
  case (Suc n)
  show ?case
  proof (cases ws)
    case Nil
    then obtain s' where "dec s = Some (Inl (Stream_error EOL), s')"
      using dec_at_end [OF Suc.prems(1)] Suc.prems(2,5) by (auto simp: at_end_def)
    then show ?thesis
      using Nil by simp
  next
    case (Cons v vs)
    then obtain s1 where d: "dec s = Some (Inr v, s1)"
      using dec_complete [OF Suc.prems(1), of v "concat (map enc vs) @ rest"] Suc.prems(3-5) by auto
    then have c: "consumes (enc v) s s1"
      using dec_sound Suc.prems(1) by blast
    have "st_stack s1 \<noteq> []"
      using c Suc.prems(2) by (auto simp: consumes_def same_place_def advance_def split: list.splits)
    then obtain s' where "decodeSliceElems dec n (val @ [v]) s1 = Some (Inr ((val @ [v]) @ vs), s')"
      using Suc.IH [of s1 vs "val @ [v]"] consumes_start [OF Suc.prems(1) c] Suc.prems Cons c
      by (auto simp: consumes_def)
    then show ?thesis
      using d Cons by simp
  qed
qed simp

end

definition list_enc :: "('a \<Rightarrow> bytes) \<Rightarrow> 'a list \<Rightarrow> bytes" where
  "list_enc enc vs = (let p = concat (map enc vs) in puthead 0xC0 0xF7 (of_nat (length p)) @ p)"

text \<open>Entering and leaving a list.\<close>

lemma List_sound:
  assumes "at_start s" "stream_List s = (Inr sz, s')"
  obtains s1 where "st_r s = puthead 0xC0 0xF7 sz @ st_r s1" "length (puthead 0xC0 0xF7 sz) \<le> room s"
    "same_place s1 (advance (length (puthead 0xC0 0xF7 sz)) s)" "unat sz \<le> room s1" "stream_ok s1" "s' = NewList sz s1"
proof -
  obtain s1 where K: "stream_Kind s = (Inr (List, sz), s1)" "s' = NewList sz s1"
    using assms(2) by (auto simp: stream_List_def st_bind_def split: prod.splits sum.splits if_splits)
  then show thesis
    using that [of s1] Kind_sound [OF _ _ K(1)] assms(1) by (simp add: at_start_def head_bytes_def)
qed

lemma NewList_start:
  assumes "stream_ok s" "unat sz \<le> room s"
  shows "at_start (NewList sz s)" "room (NewList sz s) = unat sz" "st_r (NewList sz s) = st_r s"
  using assms by (auto simp: NewList_def at_start_def stream_ok_def room_def split: list.splits)

lemma ListEnd_consumes:
  assumes "stream_ok s" "unat sz \<le> room s" "consumes p (NewList sz s) s'" "ListEnd s' = (Inr (), s'')"
  shows "sz = of_nat (length p)" "consumes p (s\<lparr>st_kind := None\<rparr>) s''"
proof -
  have st: "st_stack s' = (of_nat (length p), sz) # st_stack s" "st_remaining s' = st_remaining s - of_nat (length p)"
    "st_limited s' = st_limited s" and r: "st_r s = p @ st_r s'"
  proof -
    have "st_stack s' = st_stack (advance (length p) (NewList sz s))"
      "st_remaining s' = st_remaining (advance (length p) (NewList sz s))"
      "st_limited s' = st_limited (advance (length p) (NewList sz s))"
      using assms(3) unfolding consumes_def same_place_def by blast+
    then show "st_stack s' = (of_nat (length p), sz) # st_stack s" "st_remaining s' = st_remaining s - of_nat (length p)"
      "st_limited s' = st_limited s"
      by (simp_all add: NewList_def advance_def)
  qed (use assms(3) in \<open>simp add: consumes_def NewList_def\<close>)
  then show sz: "sz = of_nat (length p)"
    using assms(4) by (auto simp: ListEnd_def split: if_splits)
  have len: "length p \<le> room s"
    using assms(2,3) NewList_start(2) [OF assms(1,2)] by (simp add: consumes_def)
  have "s'' = s'\<lparr>st_stack := (case st_stack s of [] \<Rightarrow> [] | (pos', sz') # st' \<Rightarrow> (pos' + sz, sz') # st'),
      st_kind := None, st_size := 0\<rparr>"
    using assms(4) st(1) sz by (auto simp: ListEnd_def)
  then have "same_place s'' (advance (length p) s)" "st_r s'' = st_r s'" "st_kind s'' = None"
    using st sz r by (simp_all add: same_place_def advance_def split: list.splits)
  moreover have "same_place (advance (length p) s) (advance (length p) (s\<lparr>st_kind := None\<rparr>))"
    by (simp add: same_place_advance)
  ultimately show "consumes p (s\<lparr>st_kind := None\<rparr>) s''"
    using len r by (auto simp: consumes_def intro: same_place_trans)
qed

lemma ListEnd_complete:
  assumes "stream_ok s" "consumes p (NewList sz s) s'" "sz = of_nat (length p)"
  shows "\<exists>s''. ListEnd s' = (Inr (), s'')"
proof -
  have "st_stack s' = st_stack (advance (length p) (NewList sz s))"
    using assms(2) unfolding consumes_def same_place_def by blast
  then show ?thesis
    using assms(3) by (simp add: NewList_def advance_def ListEnd_def)
qed

lemma consumes_kind: "consumes p (s\<lparr>st_kind := k\<rparr>) s' \<longleftrightarrow> consumes p s s'"
  using same_place_advance [of "s\<lparr>st_kind := k\<rparr>" s "length p"] same_place_advance [of s "s\<lparr>st_kind := k\<rparr>" "length p"]
  by (auto simp: consumes_def intro: same_place_trans)

lemma consumes_prefix:
  assumes "at_start s" "st_r s = h @ st_r s1" "length h \<le> room s" "same_place s1 (advance (length h) s)" "consumes p s1 s'"
  shows "consumes (h @ p) s s'"
proof -
  have "consumes h s (s1\<lparr>st_kind := None\<rparr>)" "consumes p (s1\<lparr>st_kind := None\<rparr>) s'"
    using assms by (simp_all add: consumes_def [of h] consumes_kind)
  then show ?thesis
    by (rule consumes_append [OF assms(1)])
qed

lemma wrap_EOL: "wrapStreamError e typ = Stream_error EOL \<longleftrightarrow> e = EOL"
  by (auto simp: wrapStreamError_def stream_errors)

lemma addErrorContext_EOL: "addErrorContext e c = Stream_error EOL \<longleftrightarrow> e = Stream_error EOL"
  by (cases e) auto

lemma elems_not_EOL: "decodeSliceElems dec n val s \<noteq> Some (Inl (Stream_error EOL), s')"
  by (induction n arbitrary: val s) (auto simp: addErrorContext_EOL split: option.splits sum.splits if_splits)

lemma List_EOL:
  assumes "at_start s" "stream_List s = (Inl EOL, s')"
  shows "consumes [] s s' \<and> at_end s"
proof -
  have "stream_Kind s = (Inl EOL, s')"
    using assms(2) by (auto simp: stream_List_def st_bind_def stream_errors split: prod.splits sum.splits if_splits)
  then show ?thesis
    by (rule Kind_EOL [OF assms(1)])
qed

lemma ListEnd_err: "ListEnd s = (Inl e, s') \<Longrightarrow> e \<noteq> EOL"
  by (auto simp: ListEnd_def stream_errors split: list.splits if_splits)

lemma wrap_panic: "wrapStreamError e typ = Stream_error (Panic m) \<longleftrightarrow> e = Panic m"
  by (auto simp: wrapStreamError_def stream_errors)

lemma List_no_panic: "at_start s \<Longrightarrow> stream_List s \<noteq> (Inl (Panic m), s')"
  using Kind_err [of s "Panic m" s']
  by (auto simp: stream_List_def st_bind_def stream_errors split: prod.splits sum.splits if_splits)

lemma ListEnd_no_panic: "ListEnd s \<noteq> (Inl (Panic m), s')"
  by (auto simp: ListEnd_def stream_errors split: list.splits if_splits)

lemma addErrorContext_panic: "addErrorContext e c = Stream_error (Panic m) \<longleftrightarrow> e = Stream_error (Panic m)"
  by (cases e) auto

context elem_decoder
begin

lemma elems_no_panic: "at_start s \<Longrightarrow> decodeSliceElems dec n val s \<noteq> Some (Inl (Stream_error (Panic m)), s')"
proof (induction n arbitrary: val s)
  case (Suc n)
  show ?case
  proof (cases "dec s")
    case (Some p)
    then obtain r s1 where d: "dec s = Some (r, s1)"
      by (cases p) auto
    show ?thesis
    proof (cases r)
      case (Inl e)
      then show ?thesis
        using d dec_no_panic [OF Suc.prems] by (auto simp: addErrorContext_panic)
    next
      case (Inr v)
      then show ?thesis
        using d Suc.IH [OF consumes_start(1) [OF Suc.prems dec_sound [OF Suc.prems]]] by simp
    qed
  qed simp
qed simp

lemma elems_returns:
  assumes "\<And>s. at_start s \<Longrightarrow> length (st_r s) < m \<Longrightarrow> dec s \<noteq> None"
  shows "at_start s \<Longrightarrow> length (st_r s) < n \<Longrightarrow> length (st_r s) < m \<Longrightarrow> decodeSliceElems dec n val s \<noteq> None"
proof (induction n arbitrary: val s)
  case (Suc n)
  obtain r s1 where d: "dec s = Some (r, s1)"
    using assms [OF Suc.prems(1,3)] by auto
  show ?case
  proof (cases r)
    case (Inr v)
    then have c: "consumes (enc v) s s1"
      using dec_sound [OF Suc.prems(1)] d by blast
    then have "length (st_r s1) < length (st_r s)"
      using enc_nonempty by (simp add: consumes_def)
    then show ?thesis
      using Suc.IH [OF consumes_start(1) [OF Suc.prems(1) c]] Suc.prems d Inr by simp
  qed (use d in simp)
qed simp

lemma list_no_panic:
  assumes "at_start s"
  shows "decodeListSlice typ dec n s \<noteq> Some (Inl (Stream_error (Panic m)), s')"
proof (cases "stream_List s")
  case (Pair r s0)
  show ?thesis
  proof (cases r)
    case (Inl e)
    then show ?thesis
      using Pair List_no_panic [OF assms] by (auto simp: decodeListSlice_def wrap_panic)
  next
    case (Inr sz)
    then have "at_start s0"
      using List_sound [OF assms] Pair NewList_start(1) by metis
    then show ?thesis
      using Pair Inr elems_no_panic [of s0 n "[]"] ListEnd_no_panic
      by (auto simp: decodeListSlice_def leaf_decoder_def st_bind_def split: prod.splits sum.splits option.splits if_splits)
  qed
qed

lemma list_returns:
  assumes "\<And>s. at_start s \<Longrightarrow> length (st_r s) < m \<Longrightarrow> dec s \<noteq> None" "at_start s" "length (st_r s) \<le> n" "length (st_r s) \<le> m"
  shows "decodeListSlice typ dec n s \<noteq> None"
proof (cases "stream_List s")
  case (Pair r s0)
  show ?thesis
  proof (cases r)
    case (Inr sz)
    then obtain s1 where s1: "st_r s = puthead 0xC0 0xF7 sz @ st_r s1" "unat sz \<le> room s1" "stream_ok s1" "s0 = NewList sz s1"
      using List_sound [OF assms(2)] Pair by metis
    have "length (puthead 0xC0 0xF7 sz) \<noteq> 0"
      using headsize_range [of sz] by (simp add: length_puthead)
    then have "at_start s0" "length (st_r s0) < length (st_r s)"
      using NewList_start [OF s1(3,2)] s1(1,4) by simp_all
    then show ?thesis
      using elems_returns [OF assms(1), of m s0 n "[]"] assms(3,4) Pair Inr
      by (auto simp: decodeListSlice_def leaf_decoder_def split: option.splits prod.splits sum.splits)
  qed (simp add: Pair decodeListSlice_def)
qed

lemma list_sound:
  assumes "at_start s" "decodeListSlice typ dec n s = Some (Inr vs, s')"
  shows "consumes (list_enc enc vs) s s'"
proof -
  obtain sz s0 where L: "stream_List s = (Inr sz, s0)"
    using assms(2) by (auto simp: decodeListSlice_def split: prod.splits sum.splits)
  obtain s1 where s1: "st_r s = puthead 0xC0 0xF7 sz @ st_r s1" "length (puthead 0xC0 0xF7 sz) \<le> room s"
    "same_place s1 (advance (length (puthead 0xC0 0xF7 sz)) s)" "unat sz \<le> room s1" "stream_ok s1" "s0 = NewList sz s1"
    using List_sound [OF assms(1) L] by metis
  have start: "at_start s0"
    using NewList_start(1) [OF s1(5,4)] s1(6) by simp
  obtain s2 where s2: "consumes (concat (map enc vs)) s0 s2" "ListEnd s2 = (Inr (), s')"
  proof (cases "sz = 0")
    case True
    then have "vs = []" "ListEnd s0 = (Inr (), s')"
      using assms(2) L by (auto simp: decodeListSlice_def leaf_decoder_def st_bind_def split: prod.splits sum.splits)
    then show thesis
      using that [of s0] start by (simp add: consumes_Nil at_start_def)
  next
    case False
    then obtain s2 where "decodeSliceElems dec n [] s0 = Some (Inr vs, s2)" "ListEnd s2 = (Inr (), s')"
      using assms(2) L
      by (auto simp: decodeListSlice_def leaf_decoder_def st_bind_def split: prod.splits sum.splits option.splits)
    then show thesis
      using elems_sound [OF start, of n "[]" vs s2] that by auto
  qed
  then have "consumes (concat (map enc vs)) s1 s'" "sz = of_nat (length (concat (map enc vs)))"
    using ListEnd_consumes [OF s1(5,4), of _ s2 s'] s1(6) consumes_kind by auto
  then show ?thesis
    using consumes_prefix [OF assms(1) s1(1-3)] by (simp add: list_enc_def Let_def)
qed

lemma list_EOL:
  assumes "at_start s" "decodeListSlice typ dec n s = Some (Inl (Stream_error EOL), s')"
  shows "consumes [] s s' \<and> at_end s"
proof -
  have "stream_List s = (Inl EOL, s')"
    using assms(2) elems_not_EOL [of dec n "[]"] ListEnd_err
    by (auto simp: decodeListSlice_def wrap_EOL leaf_decoder_def st_bind_def
      split: prod.splits sum.splits option.splits if_splits)
  then show ?thesis
    by (rule List_EOL [OF assms(1)])
qed

lemma list_at_end:
  assumes "at_start s" "at_end s"
  shows "\<exists>s'. decodeListSlice typ dec n s = Some (Inl (Stream_error EOL), s') \<and> consumes [] s s'"
  using Kind_at_end [OF assms] by (auto simp: decodeListSlice_def stream_List_def st_bind_def wrap_EOL)

end

context elem_codec
begin

lemma list_complete:
  assumes "at_start s" "list_all good vs" "st_r s = list_enc enc vs @ rest" "length (list_enc enc vs) \<le> room s" "length vs < n"
  shows "\<exists>s'. decodeListSlice typ dec n s = Some (Inr vs, s')"
proof -
  define p where "p = concat (map enc vs)"
  define h where "h = head_bytes List 0 (of_nat (length p))"
  have r: "st_r s = h @ p @ rest" "length h + length p \<le> room s"
    using assms(3,4) by (simp_all add: list_enc_def p_def h_def head_bytes_def Let_def)
  have "length (st_r s) < 2 ^ 62"
    using assms(1) by (simp add: at_start_def stream_ok_def)
  then have n: "unat (of_nat (length p) :: u64) = length p"
    using r(1) by (simp add: unat_size)
  obtain s1 where K: "stream_Kind s = (Inr (List, of_nat (length p)), s1)" "same_place s1 (advance (length h) s)"
    using Kind_complete [of s List 0 "of_nat (length p)" "p @ rest"] assms(1) r n
    by (auto simp: at_start_def head_ok_def h_def)
  have s1: "st_r s1 = p @ rest" "stream_ok s1" "length p \<le> room s1"
    using K(2) r advance_ok [of s "length h"] assms(1) same_place_ok [OF K(2)]
    by (auto simp: at_start_def same_place_def)
  define s0 where "s0 = NewList (of_nat (length p)) s1"
  have L: "stream_List s = (Inr (of_nat (length p)), s0)"
    using K(1) by (simp add: stream_List_def st_bind_def s0_def)
  note start = NewList_start [OF s1(2), of "of_nat (length p)", unfolded n s1(1), OF s1(3), folded s0_def]
  show ?thesis
  proof (cases "vs = []")
    case True
    then have "consumes p s0 s0"
      using start(1) by (simp add: p_def consumes_Nil at_start_def)
    then have "\<exists>s'. ListEnd s0 = (Inr (), s')"
      using ListEnd_complete [OF s1(2)] by (simp add: s0_def)
    then show ?thesis
      using L True by (auto simp: decodeListSlice_def leaf_decoder_def st_bind_def p_def)
  next
    case False
    then have "p \<noteq> []"
      using enc_nonempty by (cases vs) (auto simp: p_def)
    then have ne: "(of_nat (length p) :: u64) \<noteq> 0"
      using n by (metis length_0_conv unat_0)
    obtain s2 where s2: "decodeSliceElems dec n [] s0 = Some (Inr vs, s2)"
      using elems_complete [OF start(1) _ assms(2) start(3) [unfolded p_def], of n "[]"] start(2) assms(5)
      by (auto simp: p_def s0_def NewList_def)
    then have "consumes p s0 s2"
      using elems_sound [OF start(1) s2] by (auto simp: p_def)
    then have "\<exists>s'. ListEnd s2 = (Inr (), s')"
      using ListEnd_complete [OF s1(2)] by (simp add: s0_def)
    then show ?thesis
      using L ne s2 by (auto simp: decodeListSlice_def leaf_decoder_def st_bind_def)
  qed
qed

end

section \<open>Byte slices\<close>

interpretation byte_slice: elem_codec "decodeByteSlice t" "\<lambda>b. rlp_enc (Str b)" "\<lambda>_. True"
  for t
proof unfold_locales
  fix s v s'
  show "at_start s \<Longrightarrow> decodeByteSlice t s = Some (Inr v, s') \<Longrightarrow> consumes (rlp_enc (Str v)) s s'"
    using Bytes_sound [of s v s'] by (auto simp: decodeByteSlice_def leaf_decoder_def split: prod.splits sum.splits)
next
  fix s s'
  show "at_start s \<Longrightarrow> decodeByteSlice t s = Some (Inl (Stream_error EOL), s') \<Longrightarrow> consumes [] s s' \<and> at_end s"
    using Bytes_EOL [of s s'] by (auto simp: decodeByteSlice_def leaf_decoder_def wrap_EOL split: prod.splits sum.splits)
next
  fix s m s'
  show "at_start s \<Longrightarrow> decodeByteSlice t s \<noteq> Some (Inl (Stream_error (Panic m)), s')"
    using Bytes_no_panic [of s m s'] by (auto simp: decodeByteSlice_def leaf_decoder_def wrap_panic split: prod.splits sum.splits)
next
  fix s
  show "at_start s \<Longrightarrow> at_end s \<Longrightarrow> \<exists>s'. decodeByteSlice t s = Some (Inl (Stream_error EOL), s') \<and> consumes [] s s'"
    using Kind_at_end [of s] by (auto simp: decodeByteSlice_def leaf_decoder_def stream_Bytes_def st_bind_def wrap_EOL)
next
  fix s v rest
  show "at_start s \<Longrightarrow> True \<Longrightarrow> st_r s = rlp_enc (Str v) @ rest \<Longrightarrow> length (rlp_enc (Str v)) \<le> room s \<Longrightarrow>
      \<exists>s'. decodeByteSlice t s = Some (Inr v, s')"
    using Bytes_complete [of s v rest] by (auto simp: decodeByteSlice_def leaf_decoder_def simp del: rlp_enc.simps)
qed (use rlp_enc_nonempty in blast)

section \<open>Trees\<close>

text \<open>The number of rounds a tree takes.\<close>

fun item_rounds :: "rlp_item \<Rightarrow> nat" where
  "item_rounds (Str b) = 1"
| "item_rounds (Lst xs) = 2 + sum_list (map item_rounds xs)"

lemma item_rounds_pos: "1 \<le> item_rounds x"
  by (cases x) simp_all

lemma item_rounds_le: "item_rounds x \<le> 2 * length (rlp_enc x)"
proof (induction x rule: rlp_enc.induct)
  case (1 b)
  then show ?case
    using rlp_enc_nonempty [of "Str b"] by (cases "rlp_enc (Str b)") (simp_all del: rlp_enc.simps)
next
  case (2 xs)
  have "sum_list (map item_rounds xs) \<le> 2 * length (concat (map rlp_enc xs))"
    using sum_list_mono [of xs item_rounds "\<lambda>x. 2 * length (rlp_enc x)"] 2
    by (simp add: length_concat sum_list_const_mult comp_def)
  moreover have "1 \<le> length (puthead 0xC0 0xF7 (of_nat (length (concat (map rlp_enc xs)))))"
    using headsize_range by (simp add: length_puthead)
  ultimately show ?case
    by (simp add: Let_def)
qed

lemma rlp_enc_Lst: "rlp_enc (Lst xs) = list_enc rlp_enc xs"
  by (simp add: list_enc_def)

lemma interface_unfold:
  "decodeInterface (Suc n) s =
    (case stream_Kind s of
       (Inl e, s) \<Rightarrow> Some (Inl (Stream_error e), s)
     | (Inr (k, sz), _) \<Rightarrow>
         if k = List then map_option (map_prod (map_sum id Lst) id) (decodeListSlice ''[]interface {}'' (decodeInterface n) n s)
         else map_option (map_prod (map_sum id Str) id) (leaf_decoder Stream_error stream_Bytes s))"
proof (cases "stream_Kind s")
  case (Pair r s1)
  show ?thesis
  proof (cases r)
    case (Inr p)
    then have "decodeListSlice t d m s1 = decodeListSlice t d m s" "stream_Bytes s1 = stream_Bytes s"
      for t m and d :: "rlp_item decoder"
      using Pair by (cases p; simp add: decodeListSlice_def List_cached Bytes_cached)+
    then show ?thesis
      using Pair Inr by (auto simp: leaf_decoder_def split: prod.splits option.splits sum.splits)
  qed (simp add: Pair)
qed

declare decodeInterface.simps(2) [simp del]

lemma map_sum_cases [simp]: "map_sum id f r = Inr v \<longleftrightarrow> (\<exists>w. r = Inr w \<and> v = f w)" "map_sum id f r = Inl e \<longleftrightarrow> r = Inl e"
  by (cases r; auto)+

lemma interface_decoder: "elem_decoder (decodeInterface n) rlp_enc"
proof (induction n)
  case 0
  then show ?case
    by unfold_locales (simp_all add: rlp_enc_nonempty)
next
  case (Suc n)
  show ?case
  proof
    fix s v s'
    assume s: "at_start s" "decodeInterface (Suc n) s = Some (Inr v, s')"
    show "consumes (rlp_enc v) s s'"
      using s elem_decoder.list_sound [OF Suc s(1)] Bytes_sound [OF s(1)]
      by (auto simp: interface_unfold rlp_enc_Lst leaf_decoder_def simp del: rlp_enc.simps
        split: prod.splits sum.splits if_splits)
  next
    fix s s'
    assume s: "at_start s" "decodeInterface (Suc n) s = Some (Inl (Stream_error EOL), s')"
    show "consumes [] s s' \<and> at_end s"
      using s elem_decoder.list_EOL [OF Suc s(1)] Bytes_EOL [OF s(1)] Kind_EOL [OF s(1)]
      by (auto simp: interface_unfold leaf_decoder_def split: prod.splits sum.splits if_splits)
  next
    fix s m s'
    assume s: "at_start s"
    show "decodeInterface (Suc n) s \<noteq> Some (Inl (Stream_error (Panic m)), s')"
      using elem_decoder.list_no_panic [OF Suc s] Bytes_no_panic [OF s, of m s'] Kind_err [OF s]
      by (auto simp: interface_unfold leaf_decoder_def stream_errors split: prod.splits sum.splits if_splits)
  qed (simp add: rlp_enc_nonempty)
qed

lemma interface_list_complete:
  assumes "elem_codec (decodeInterface n) rlp_enc (\<lambda>x. item_rounds x \<le> n)" "at_start s" "item_rounds (Lst xs) \<le> Suc n"
    "st_r s = rlp_enc (Lst xs) @ rest" "length (rlp_enc (Lst xs)) \<le> room s"
  shows "\<exists>s'. decodeListSlice t (decodeInterface n) n s = Some (Inr xs, s')"
proof -
  have "length xs \<le> sum_list (map item_rounds xs)"
    using sum_list_mono [of xs "\<lambda>_. 1" item_rounds] item_rounds_pos by (simp add: sum_list_triv)
  then have "length xs < n"
    using assms(3) by simp
  moreover have "item_rounds x \<le> n" if "x \<in> set xs" for x
    using member_le_sum_list [of "item_rounds x" "map item_rounds xs"] that assms(3) by simp
  ultimately show ?thesis
    using elem_codec.list_complete [OF assms(1,2), of xs rest n t] assms(4,5)
    by (auto simp: list_all_iff rlp_enc_Lst simp del: rlp_enc.simps)
qed

lemma interface_codec_step:
  assumes "n = 0 \<or> elem_codec (decodeInterface n) rlp_enc (\<lambda>x. item_rounds x \<le> n)"
  shows "elem_codec (decodeInterface (Suc n)) rlp_enc (\<lambda>x. item_rounds x \<le> Suc n)"
proof (intro elem_codec.intro [OF interface_decoder] elem_codec_axioms.intro)
  fix s
  assume "at_start s" "at_end s"
  then show "\<exists>s'. decodeInterface (Suc n) s = Some (Inl (Stream_error EOL), s') \<and> consumes [] s s'"
    using Kind_at_end [of s] by (auto simp: interface_unfold)
next
  fix s v rest
  assume s: "at_start s" "item_rounds v \<le> Suc n" "st_r s = rlp_enc v @ rest" "length (rlp_enc v) \<le> room s"
  show "\<exists>s'. decodeInterface (Suc n) s = Some (Inr v, s')"
  proof (cases v)
    case (Str b)
    then obtain s' where B: "stream_Bytes s = (Inr b, s')"
      using Bytes_complete [of s b rest] s by auto
    then obtain k sz s1 where "stream_Kind s = (Inr (k, sz), s1)" "k \<noteq> List"
      by (auto simp: stream_Bytes_def st_bind_def split: prod.splits sum.splits kind.splits)
    then show ?thesis
      using B Str by (simp add: interface_unfold leaf_decoder_def)
  next
    case (Lst xs)
    then have "elem_codec (decodeInterface n) rlp_enc (\<lambda>x. item_rounds x \<le> n)"
      using assms s(2) by auto
    then obtain s' where L: "decodeListSlice ''[]interface {}'' (decodeInterface n) n s = Some (Inr xs, s')"
      using interface_list_complete s Lst by blast
    then obtain sz s1 where "stream_Kind s = (Inr (List, sz), s1)"
      by (auto simp: decodeListSlice_def stream_List_def st_bind_def split: prod.splits sum.splits if_splits)
    then show ?thesis
      using L Lst by (simp add: interface_unfold)
  qed
qed

lemma interface_codec: "elem_codec (decodeInterface (Suc n)) rlp_enc (\<lambda>x. item_rounds x \<le> Suc n)"
  by (induction n) (auto intro: interface_codec_step)

lemma interface_returns: "at_start s \<Longrightarrow> length (st_r s) < n \<Longrightarrow> decodeInterface n s \<noteq> None"
proof (induction n arbitrary: s)
  case (Suc n)
  have "decodeListSlice ''[]interface {}'' (decodeInterface n) n s \<noteq> None"
    using Suc by (intro elem_decoder.list_returns [OF interface_decoder, of n n]) auto
  then show ?case
    by (auto simp: interface_unfold leaf_decoder_def split: prod.splits sum.splits)
qed simp

section \<open>Whole inputs\<close>

lemma Reset_start:
  assumes "length b < 2 ^ 62"
  shows "at_start (stream_Reset b (of_nat (length b)))" "room (stream_Reset b (of_nat (length b))) = length b"
  using assms by (auto simp: at_start_def stream_ok_def stream_Reset_def room_def)

text \<open>A decoder that consumes an encoding, on a whole input.\<close>

lemma stream_Decode_Inr: "stream_Decode t dcd s = Some (Inr v, s') \<longleftrightarrow> dcd s = Some (Inr v, s')"
  by (auto simp: stream_Decode_def split: option.splits prod.splits sum.splits decode_err.splits)

lemma DecodeBytes_accepts:
  assumes "length b < 2 ^ 62" "\<And>s v s'. at_start s \<Longrightarrow> dcd s = Some (Inr v, s') \<Longrightarrow> consumes (enc v) s s'"
    and "DecodeBytes t dcd b = Some (Inr v)"
  shows "enc v = b"
proof -
  obtain s' where "dcd (stream_Reset b (of_nat (length b))) = Some (Inr v, s')" "st_r s' = []"
    using assms(3) stream_Decode_Inr [of t dcd]
    by (auto simp: DecodeBytes_def split: option.splits prod.splits sum.splits if_splits)
  then show ?thesis
    using assms(2) [OF Reset_start(1) [OF assms(1)]] by (fastforce simp: consumes_def stream_Reset_def)
qed

lemma DecodeBytes_accepted:
  assumes "length (enc v) < 2 ^ 62" "\<And>s v s'. at_start s \<Longrightarrow> dcd s = Some (Inr v, s') \<Longrightarrow> consumes (enc v) s s'"
    and "\<And>s rest. at_start s \<Longrightarrow> st_r s = enc v @ rest \<Longrightarrow> length (enc v) \<le> room s \<Longrightarrow> \<exists>s'. dcd s = Some (Inr v, s')"
  shows "DecodeBytes t dcd (enc v) = Some (Inr v)"
proof -
  let ?s = "stream_Reset (enc v) (of_nat (length (enc v)))"
  obtain s' where d: "dcd ?s = Some (Inr v, s')"
    using assms(3) [OF Reset_start(1) [OF assms(1)], of "[]"] Reset_start(2) [OF assms(1)] by (auto simp: stream_Reset_def)
  then have "st_r s' = []"
    using assms(2) [OF Reset_start(1) [OF assms(1)] d] by (simp add: consumes_def stream_Reset_def)
  then show ?thesis
    using d by (simp add: DecodeBytes_def stream_Decode_def)
qed

lemma DecodeBytes_interface:
  assumes "length b < 2 ^ 62" "2 * length b < rounds"
  shows "DecodeBytes t (decodeInterface rounds) b = Some (Inr x) \<longleftrightarrow> rlp_enc x = b"
proof
  show "DecodeBytes t (decodeInterface rounds) b = Some (Inr x) \<Longrightarrow> rlp_enc x = b"
    using DecodeBytes_accepts [OF assms(1), of "decodeInterface rounds" rlp_enc]
      elem_decoder.dec_sound [OF interface_decoder] by blast
next
  obtain n where n: "rounds = Suc n"
    using assms(2) by (cases rounds) auto
  assume b: "rlp_enc x = b"
  then have "item_rounds x \<le> Suc n"
    using item_rounds_le [of x] assms(2) n by simp
  then show "DecodeBytes t (decodeInterface rounds) b = Some (Inr x)"
    using DecodeBytes_accepted [of rlp_enc x "decodeInterface rounds" t] elem_decoder.dec_sound [OF interface_decoder]
      elem_codec.dec_complete [OF interface_codec, of _ x] assms(1) b n by blast
qed

lemma length_le_concat: "(\<And>x. f x \<noteq> []) \<Longrightarrow> length xs \<le> length (concat (map f xs))"
  by (induction xs) (auto simp: Suc_le_eq intro: le_less_trans less_add_same_cancel2 [THEN iffD2])

lemma list_enc_Str: "list_enc (\<lambda>b. rlp_enc (Str b)) fs = rlp_enc (Lst (map Str fs))"
  by (simp add: list_enc_def comp_def Let_def)

lemma DecodeBytes_fields:
  assumes "length b < 2 ^ 62" "length b < rounds"
  shows "DecodeBytes t (decodeListSlice t (decodeByteSlice u) rounds) b = Some (Inr fs) \<longleftrightarrow> rlp_enc (Lst (map Str fs)) = b"
proof
  show "DecodeBytes t (decodeListSlice t (decodeByteSlice u) rounds) b = Some (Inr fs) \<Longrightarrow> rlp_enc (Lst (map Str fs)) = b"
    using DecodeBytes_accepts [OF assms(1), of _ "\<lambda>fs. rlp_enc (Lst (map Str fs))"] byte_slice.list_sound
    unfolding list_enc_Str by blast
next
  assume b: "rlp_enc (Lst (map Str fs)) = b"
  have "length fs \<le> length (concat (map rlp_enc (map Str fs)))"
    using length_le_concat [of rlp_enc "map Str fs"] rlp_enc_nonempty by simp
  then have "length fs \<le> length b"
    unfolding b [symmetric] by (simp add: Let_def)
  then have "\<exists>s'. decodeListSlice t (decodeByteSlice u) rounds s = Some (Inr fs, s')"
    if "at_start s" "st_r s = rlp_enc (Lst (map Str fs)) @ rest" "length (rlp_enc (Lst (map Str fs))) \<le> room s" for s rest
    using byte_slice.list_complete [of s fs rest rounds t u] that assms(2) unfolding list_enc_Str by (simp add: list_all_iff)
  then have "DecodeBytes t (decodeListSlice t (decodeByteSlice u) rounds) (rlp_enc (Lst (map Str fs))) = Some (Inr fs)"
    using DecodeBytes_accepted [of "\<lambda>fs. rlp_enc (Lst (map Str fs))" fs "decodeListSlice t (decodeByteSlice u) rounds" t]
      byte_slice.list_sound [unfolded list_enc_Str] assms(1) b by blast
  then show "DecodeBytes t (decodeListSlice t (decodeByteSlice u) rounds) b = Some (Inr fs)"
    unfolding b .
qed

lemma byte_array_stuck:
  assumes "st_kind s = Some Byte" "st_kinderr s = None" "st_byteval s = 0"
  shows "decodeSliceElems (decodeByteArray 1 u) rounds val s = None"
  using assms
  by (induction rounds arbitrary: val)
    (simp_all add: decodeByteArray_def stream_Kind_def stream_Uint_def stream_uint_def st_bind_def)

section \<open>Properties\<close>

text \<open>C19. Decoding is canonical: on an input of fewer than 2^62 bytes \<^verbatim>\<open>DecodeBytes\<close> into an empty interface returns a
  value exactly when the input is the encoding of that value, so every value is read back and no value has a second
  encoding that is accepted. Twice as many rounds as there are bytes are enough.\<close>

theorem DecodeBytes_canonical:
  assumes "length b < 2 ^ 62" "2 * length b < rounds"
  shows "DecodeBytes t (decodeInterface rounds) b = Some (Inr x) \<longleftrightarrow> length (rlp_enc x) < 2 ^ 62 \<and> EncodeToBytes x = b"
  using DecodeBytes_interface [OF assms, of t x] EncodeToBytes_enc [of x] assms(1) by auto

theorem DecodeBytes_canonical_witness:
  "DecodeBytes ''interface {}'' (decodeInterface 20) [0xC3, 0x01, 0x81, 0x80] = Some (Inr (Lst [Str [1], Str [0x80]]))"
  using DecodeBytes_canonical [of "[0xC3, 0x01, 0x81, 0x80]" 20 "''interface {}''" "Lst [Str [1], Str [0x80]]"]
    EncodeToBytes_enc [of "Lst [Str [1], Str [0x80]]"] by (simp add: puthead_def)

text \<open>C20. Decoding an arbitrary input of fewer than 2^62 bytes into an empty interface returns within as many rounds as
  there are bytes plus one, with a value or an error, and never by a panic.\<close>

theorem DecodeBytes_total:
  assumes "length b < 2 ^ 62" "length b < rounds"
  shows "\<exists>r. DecodeBytes t (decodeInterface rounds) b = Some r \<and> (\<forall>m. r \<noteq> Inl (Stream_error (Panic m)))"
proof -
  note start = Reset_start(1) [OF assms(1)]
  obtain r s where "decodeInterface rounds (stream_Reset b (of_nat (length b))) = Some (r, s)"
    using interface_returns [OF start, of rounds] assms(2) by (auto simp: stream_Reset_def)
  moreover from this have "r \<noteq> Inl (Stream_error (Panic m))" for m
    using elem_decoder.dec_no_panic [OF interface_decoder start] by auto
  ultimately show ?thesis
    by (auto simp: DecodeBytes_def stream_Decode_def stream_errors split: sum.splits decode_err.splits)
qed

theorem DecodeBytes_total_witness:
  "\<exists>r. DecodeBytes ''interface {}'' (decodeInterface 4) [0xC3, 0x81, 0x01] = Some r \<and> r \<noteq> Inl (Stream_error (Panic ''''))"
  using DecodeBytes_total [of "[0xC3, 0x81, 0x01]" 4 "''interface {}''"] by auto

text \<open>C21. Reading a list of byte strings into a slice of byte slices succeeds exactly on the encodings of such lists, and
  returns the strings in order.\<close>

theorem DecodeBytes_slices:
  assumes "length b < 2 ^ 62" "length b < rounds"
  shows "DecodeBytes t (decodeListSlice t (decodeByteSlice u) rounds) b = Some (Inr fs) \<longleftrightarrow>
    length (rlp_enc (Lst (map Str fs))) < 2 ^ 62 \<and> EncodeToBytes (Lst (map Str fs)) = b"
  using DecodeBytes_fields [OF assms, of t u fs] EncodeToBytes_enc [of "Lst (map Str fs)"] assms(1) by auto

theorem DecodeBytes_slices_witness:
  "DecodeBytes ''[][]uint8'' (decodeListSlice ''[][]uint8'' (decodeByteSlice ''[]uint8'') 5) [0xC2, 0x01, 0x80] = Some (Inr [[1], []])"
  using DecodeBytes_slices [of "[0xC2, 0x01, 0x80]" 5 "''[][]uint8''" "''[]uint8''" "[[1], []]"]
    EncodeToBytes_enc [of "Lst [Str [1], Str []]"] by (simp add: puthead_def)

text \<open>C22. A zero byte is not consumed by the decoder of one-byte arrays, since it ignores the error of \<^verbatim>\<open>Uint\<close> and
  \<^verbatim>\<open>Uint\<close> leaves the value in place when it fails: decoding the two bytes \<^verbatim>\<open>C1 00\<close>, which encode a list with one zero
  byte, into a slice of one-byte arrays does not return within any number of rounds.\<close>

theorem one_byte_arrays_diverge:
  "DecodeBytes ''[][1]uint8'' (decodeListSlice ''[][1]uint8'' (decodeByteArray 1 ''[1]uint8'') rounds)
    (EncodeToBytes (Lst [Str [0]])) = None"
proof -
  let ?s = "stream_Reset [0xC1, 0] 2" and ?d = "decodeByteArray 1 ''[1]uint8''"
  have b: "EncodeToBytes (Lst [Str [0]]) = [0xC1, 0]"
    using EncodeToBytes_enc [of "Lst [Str [0]]"] by (simp add: puthead_def)
  obtain s0 where l: "stream_List ?s = (Inr 1, s0)"
    and s0: "st_r s0 = [0]" "st_stack s0 = [(0, 1)]" "st_limited s0" "st_remaining s0 = 1" "st_kind s0 = None"
    by (simp add: stream_Reset_def stream_List_def stream_Kind_def stream_readKind_def readByte_def willRead_def st_bind_def
        NewList_def Let_def)
  obtain s1 where "?d s0 = Some (Inr [0], s1)" "st_kind s1 = Some Byte" "st_kinderr s1 = None" "st_byteval s1 = 0"
    using s0
    by (simp add: decodeByteArray_def stream_Uint_def stream_uint_def stream_Kind_def stream_readKind_def readByte_def
        willRead_def st_bind_def Let_def)
  then have "decodeSliceElems ?d n val s0 = None" for n val
    using byte_array_stuck [of s1] by (cases n) simp_all
  then show ?thesis
    using l unfolding b by (simp add: DecodeBytes_def stream_Decode_def decodeListSlice_def)
qed

end
