(* ===== verification/Rlp_Writers.thy ===== *)
theory Rlp_Writers
  imports Rlp
begin

unbundle bit_operations_syntax

text \<open>
  The writers of \<^verbatim>\<open>src/rlp/encode.go\<close> for single values: integers of any size, booleans, byte arrays and strings into the
  encoder's buffer, and the functions that write one value to an \<^verbatim>\<open>io.Writer\<close> through a scratch buffer. The writer is the
  list of the bytes written so far; a write to it does not fail.
\<close>

section \<open>Writers into the buffer\<close>

definition eb_append :: "bytes \<Rightarrow> encbuf \<Rightarrow> encbuf" where
  "eb_append b w = w\<lparr>eb_str := eb_str w @ b\<rparr>"

definition writeRawValue :: "bytes \<Rightarrow> encbuf \<Rightarrow> encbuf" where
  "writeRawValue b w = eb_append b w"

definition writeBool :: "bool \<Rightarrow> encbuf \<Rightarrow> encbuf" where
  "writeBool b w = (if b then eb_append [0x01] w else eb_append [0x80] w)"

text \<open>\<^verbatim>\<open>(*big.Int).Bits\<close>: the words of the absolute value, least significant first.\<close>

function big_Bits :: "nat \<Rightarrow> u64 list" where
  "big_Bits n = (if n = 0 then [] else of_nat n # big_Bits (n div 2 ^ 64))"
  by pat_completeness auto
termination
  by (relation "measure id") auto

declare big_Bits.simps [simp del]

text \<open>The loops of \<^verbatim>\<open>writeBigInt\<close>: the bytes of a word are put before \<^verbatim>\<open>index\<close>, at most \<^verbatim>\<open>left\<close> more of them.\<close>

fun fill_word :: "nat \<Rightarrow> nat \<Rightarrow> u64 \<Rightarrow> bytes \<Rightarrow> nat \<times> bytes" where
  "fill_word 0 index d buf = (index, buf)"
| "fill_word (Suc left) index d buf =
     (if index > 0 then fill_word left (index - 1) (drop_bit 8 d) (buf[index - 1 := ucast d]) else (index, buf))"

fun fill_bits :: "u64 list \<Rightarrow> nat \<Rightarrow> bytes \<Rightarrow> bytes" where
  "fill_bits [] index buf = buf"
| "fill_bits (d # ds) index buf = (let (index, buf) = fill_word 8 index d buf in fill_bits ds index buf)"

definition writeBigInt :: "int \<Rightarrow> encbuf \<Rightarrow> encbuf res" where
  "writeBigInt i w =
     (if i < 0 then Inl (Error ''rlp: cannot encode negative *big.Int'')
      else
        let bitlen = bits_Len64 (nat \<bar>i\<bar>) in
        if bitlen \<le> 64 then Inr (encodeUint (word_of_int i) w)
        else
          let len = (bitlen + 7) div 8;
              w = encodeStringHeader len w
          in Inr (eb_append (fill_bits (big_Bits (nat \<bar>i\<bar>)) len (replicate len 0)) w))"

definition writeBigIntPtr :: "int option \<Rightarrow> encbuf \<Rightarrow> encbuf res" where
  "writeBigIntPtr p w = (case p of None \<Rightarrow> Inr (eb_append [0x80] w) | Some i \<Rightarrow> writeBigInt i w)"

definition writeLengthZeroByteArray :: "encbuf \<Rightarrow> encbuf" where
  "writeLengthZeroByteArray w = eb_append [0x80] w"

definition writeLengthOneByteArray :: "u8 \<Rightarrow> encbuf \<Rightarrow> encbuf" where
  "writeLengthOneByteArray b w = (if b \<le> 0x7F then eb_append [b] w else eb_append [0x81, b] w)"

definition writeByteArrayCopy :: "bytes \<Rightarrow> encbuf \<Rightarrow> encbuf" where
  "writeByteArrayCopy val w = eb_append val (encodeStringHeader (length val) w)"

text \<open>The writer \<^verbatim>\<open>makeByteArrayWriter\<close> chooses by the length of the array.\<close>

definition write_byte_array :: "bytes \<Rightarrow> encbuf \<Rightarrow> encbuf" where
  "write_byte_array val w =
     (if length val = 0 then writeLengthZeroByteArray w
      else if length val = 1 then writeLengthOneByteArray (val ! 0) w
      else writeByteArrayCopy val w)"

definition writeString :: "bytes \<Rightarrow> encbuf \<Rightarrow> encbuf" where
  "writeString s w =
     (if length s = 1 \<and> s ! 0 \<le> 0x7F then eb_append [s ! 0] w
      else eb_append s (encodeStringHeader (length s) w))"

section \<open>Lengths and writers to a stream\<close>

definition BitLenToByteLen :: "nat \<Rightarrow> nat" where
  "BitLenToByteLen bitLen = (bitLen + 7) div 8"

definition IntLenExcludingHead :: "u64 \<Rightarrow> nat" where
  "IntLenExcludingHead i = (if i < 0x80 then 0 else intsize i)"

definition BigIntLenExcludingHead :: "int \<Rightarrow> nat" where
  "BigIntLenExcludingHead i =
     (let bitLen = bits_Len64 (nat \<bar>i\<bar>) in if bitLen < 8 then 0 else BitLenToByteLen bitLen)"

text \<open>Copying into the scratch buffer at an offset, where there must be room.\<close>

definition put_at :: "bytes \<Rightarrow> nat \<Rightarrow> bytes \<Rightarrow> bytes res" where
  "put_at buffer i bs =
     (if i + length bs \<le> length buffer then Inr (take i buffer @ bs @ drop (i + length bs) buffer)
      else Inl (Panic ''index out of range''))"

definition EncodeInt :: "u64 \<Rightarrow> bytes \<Rightarrow> bytes \<Rightarrow> bytes res" where
  "EncodeInt i w buffer =
     (if 0 < i \<and> i < 0x80 then
        res_bind (put_at buffer 0 [ucast i]) (\<lambda>buffer. Inr (w @ take 1 buffer))
      else
        res_bind (put_at buffer 1 (PutUint64 i)) (\<lambda>buffer.
        let sz = intsize i in
        res_bind (put_at buffer (8 - sz) [0x80 + of_nat sz]) (\<lambda>buffer.
        res_bind (slice_res buffer (8 - sz) 9) (\<lambda>out. Inr (w @ out)))))"

text \<open>\<^verbatim>\<open>FillBytes\<close> writes the absolute value, padded with zeros on the left.\<close>

definition EncodeBigInt :: "int option \<Rightarrow> bytes \<Rightarrow> bytes \<Rightarrow> bytes res" where
  "EncodeBigInt i w buffer =
     (let n = (case i of None \<Rightarrow> 0 | Some i \<Rightarrow> nat \<bar>i\<bar>);
          bitLen = bits_Len64 n
      in if bitLen < 8 then
           res_bind (put_at buffer 0 [if bitLen > 0 then of_nat n else 0x80]) (\<lambda>buffer. Inr (w @ take 1 buffer))
         else
           let sz = BitLenToByteLen bitLen in
           res_bind (put_at buffer 0 [0x80 + of_nat sz]) (\<lambda>buffer.
           res_bind (put_at buffer 1 (set_bytes sz (nat_bytes n))) (\<lambda>buffer. Inr (w @ take (1 + sz) buffer))))"

definition EncodeStringSizePrefix :: "nat \<Rightarrow> bytes \<Rightarrow> bytes \<Rightarrow> bytes res" where
  "EncodeStringSizePrefix sz w buffer =
     (if sz \<ge> 56 then
        let beSize = BitLenToByteLen (bits_Len64 sz) in
        res_bind (put_at buffer 1 (PutUint64 (of_nat sz))) (\<lambda>buffer.
        res_bind (put_at buffer (8 - beSize) [of_nat beSize + 183]) (\<lambda>buffer.
        res_bind (slice_res buffer (8 - beSize) 9) (\<lambda>out. Inr (w @ out))))
      else res_bind (put_at buffer 0 [of_nat sz + 128]) (\<lambda>buffer. Inr (w @ take 1 buffer)))"

definition rlp_EncodeString :: "bytes \<Rightarrow> bytes \<Rightarrow> bytes \<Rightarrow> bytes res" where
  "rlp_EncodeString s w buffer =
     (if length s = 0 then res_bind (put_at buffer 0 [128]) (\<lambda>buffer. Inr (w @ take 1 buffer))
      else if length s = 1 then
        (if s ! 0 \<ge> 128 then res_bind (put_at buffer 0 [129]) (\<lambda>buffer. Inr (w @ take 1 buffer @ s))
         else Inr (w @ s))
      else res_bind (EncodeStringSizePrefix (length s) w buffer) (\<lambda>w. Inr (w @ s)))"

section \<open>Digits\<close>

lemma be_digits_append: "be_digits (a + b) n = be_digits a (n div 256 ^ b) @ be_digits b n"
proof (induction b arbitrary: n)
  case (Suc b)
  then show ?case
    by (simp add: be_digits_Suc div_mult2_eq)
qed (simp add: be_digits_def)

lemma be_digits_mod: "be_digits k (n mod 256 ^ k) = be_digits k n"
proof (induction k arbitrary: n)
  case (Suc k)
  have "n mod 256 ^ Suc k div 256 = n div 256 mod 256 ^ k"
    by (simp add: mod_mult2_eq mult.commute)
  moreover have "(of_nat (n mod 256 ^ Suc k) :: u8) = of_nat n"
    using of_nat_mod_256 [of "n mod 256 ^ Suc k"] of_nat_mod_256 [of n] by (simp add: mod_mult2_eq)
  ultimately show ?case
    by (simp add: be_digits_Suc Suc)
qed (simp add: be_digits_def)

lemma be_digits_word: "k \<le> 8 \<Longrightarrow> be_digits k (unat (of_nat n :: u64)) = be_digits k n"
proof -
  assume k: "k \<le> 8"
  have "unat (of_nat n :: u64) = n mod 256 ^ 8"
    by (simp add: unsigned_of_nat take_bit_eq_mod)
  moreover have "n mod 256 ^ 8 mod 256 ^ k = n mod 256 ^ k"
    by (rule mod_mod_cancel [OF le_imp_power_dvd [OF k]])
  ultimately show ?thesis
    using be_digits_mod by metis
qed

lemma fill_word_digits:
  "fill_word m index d (replicate index 0 @ tail) =
    (index - m, replicate (index - m) 0 @ be_digits (min m index) (unat d) @ tail)"
proof (induction m arbitrary: index d tail)
  case (Suc m)
  show ?case
  proof (cases index)
    case (Suc i)
    have "(replicate (Suc i) 0 @ tail)[i := ucast d] = replicate i 0 @ ucast d # tail"
      by (simp add: list_update_append replicate_append_same [symmetric] del: replicate_append_same)
    moreover have "unat (drop_bit 8 d) = unat d div 256"
      using unsigned_less [of d, where ?'a = nat] unfolding unsigned_drop_bit_eq
      by (simp add: drop_bit_eq_div take_bit_nat_eq_self)
    ultimately show ?thesis
      using Suc.IH [of i "drop_bit 8 d" "ucast d # tail"] Suc by (simp add: be_digits_Suc ucast_nat del: of_nat_unat)
  qed (simp add: be_digits_def)
qed (simp add: be_digits_def)

lemma fill_bits_digits: "fill_bits (big_Bits n) index (replicate index 0 @ tail) = be_digits index n @ tail"
proof (induction n arbitrary: index tail rule: big_Bits.induct)
  case (1 n)
  show ?case
  proof (cases "n = 0")
    case True
    then show ?thesis
      by (simp add: big_Bits.simps be_digits_def map_replicate_const)
  next
    case False
    have "be_digits index n = be_digits (index - 8) (n div 2 ^ 64) @ be_digits (min 8 index) n"
    proof (cases "8 \<le> index")
      case True
      then show ?thesis
        using be_digits_append [of "index - 8" 8 n] by (simp add: min_def)
    qed (simp add: be_digits_def min_def)
    then show ?thesis
      using False 1 [OF False, of "index - 8"]
      by (subst big_Bits.simps) (simp add: fill_word_digits be_digits_word)
  qed
qed

section \<open>Agreement with the encoding\<close>

lemma bits_bytes:
  assumes "0 < n"
  shows "nat_bytes n = be_digits ((bits_Len64 n + 7) div 8) n" "length (nat_bytes n) = (bits_Len64 n + 7) div 8"
    "0 < bits_Len64 n"
proof -
  define b where "b = bits_Len64 n"
  define k where "k = (b + 7) div 8"
  have b: "n < 2 ^ b" "\<not> n < 2 ^ (b - 1)" "0 < b"
    using bits_Len64_le [of n b] bits_Len64_le [of n "b - 1"] bits_Len64_le [of n 0] assms by (auto simp: b_def)
  have "b \<le> 8 * k" "8 * (k - 1) \<le> b - 1"
    using b(3) by (auto simp: k_def)
  then have "n < 2 ^ (8 * k)" "2 ^ (8 * (k - 1)) \<le> n"
    using less_le_trans [OF b(1) power_increasing [of b "8 * k" "2 :: nat"]]
      order_trans [OF power_increasing [of "8 * (k - 1)" "b - 1" "2 :: nat"] leI [OF b(2)]] by simp_all
  then have "n < 256 ^ k" "256 ^ (k - 1) \<le> n"
    by (simp_all add: power_mult)
  then show d: "nat_bytes n = be_digits ((bits_Len64 n + 7) div 8) n"
    using nat_bytes_digits [of n k] b(3) by (simp add: k_def b_def)
  show "length (nat_bytes n) = (bits_Len64 n + 7) div 8"
    unfolding d by simp
  show "0 < bits_Len64 n"
    using b(3) by (simp add: b_def)
qed

lemma encodeString_append: "length b < 2 ^ 64 \<Longrightarrow> encodeString b w = eb_append (rlp_enc (Str b)) w"
  by (auto simp: encodeString_def encodeStringHeader_def puthead_def Let_def size_less_56 ucast_size eb_append_def
      singleton_nth)

lemma encodeUint_append: "encodeUint i w = eb_append (rlp_enc (Str (nat_bytes (unat i)))) w"
  using AppendUint64_enc [of "eb_str w" i]
  by (auto simp: encodeUint_def AppendUint64_putint eb_append_def Let_def simp del: rlp_enc.simps)

lemma rlp_enc_uint: "rlp_enc (Str (nat_bytes (unat i))) =
    (if i = 0 then [0x80] else if i < 128 then [ucast i] else (0x80 + of_nat (length (putint i))) # putint i)"
  using AppendUint64_enc [of "[]" i] AppendUint64_putint [of "[]" i] by simp

lemma header_append: "n < 2 ^ 64 \<Longrightarrow> encodeStringHeader n w = eb_append (puthead 0x80 0xB7 (of_nat n)) w"
  by (simp add: encodeStringHeader_def puthead_def eb_append_def Let_def size_less_56 ucast_size)

lemma eb_append_append [simp]: "eb_append b (eb_append a w) = eb_append (a @ b) w"
  by (simp add: eb_append_def)

lemma writeBigInt_append:
  assumes "0 \<le> i" "length (big_Bytes i) < 2 ^ 64"
  shows "writeBigInt i w = Inr (eb_append (rlp_enc (Str (big_Bytes i))) w)"
proof -
  define n where "n = nat i"
  have i: "word_of_int i = (of_nat n :: u64)" "big_Bytes i = nat_bytes n" "nat \<bar>i\<bar> = n" "\<not> i < 0"
    using assms(1) by (simp_all add: n_def big_Bytes_def)
  show ?thesis
  proof (cases "bits_Len64 n \<le> 64")
    case True
    then have "unat (of_nat n :: u64) = n"
      using bits_Len64_le [of n 64] by (simp add: unat_size)
    then show ?thesis
      using True by (simp add: writeBigInt_def i encodeUint_append)
  next
    case False
    then have "0 < n"
      using bits_Len64_le [of n 64] by (cases n) auto
    note b = bits_bytes [OF this]
    have "length (nat_bytes n) \<noteq> 1"
      using False b(2) by simp
    moreover have "fill_bits (big_Bits n) k (replicate k 0) = be_digits k n" for k
      using fill_bits_digits [of n k "[]"] by simp
    ultimately show ?thesis
      using False assms(2) b(1,2) by (simp add: writeBigInt_def i header_append Let_def)
  qed
qed

lemma write_byte_array_append: "length b < 2 ^ 64 \<Longrightarrow> write_byte_array b w = eb_append (rlp_enc (Str b)) w"
  by (auto simp: write_byte_array_def writeLengthZeroByteArray_def writeLengthOneByteArray_def writeByteArrayCopy_def
      header_append puthead_def eb_append_def singleton_nth)

lemma writeString_append: "length b < 2 ^ 64 \<Longrightarrow> writeString b w = eb_append (rlp_enc (Str b)) w"
  by (auto simp: writeString_def header_append singleton_nth)

text \<open>A tag in front of the low bytes of a big-endian word in the scratch buffer.\<close>

lemma PutUint64_digits: "PutUint64 i = be_digits 8 (unat i)"
proof -
  have "[0..<8] = [0, 1, 2, 3, 4, 5, 6, 7]"
    by (simp add: upt_rec)
  then show ?thesis
    using ucast_drop_bit [of 8 i] ucast_drop_bit [of 16 i] ucast_drop_bit [of 24 i] ucast_drop_bit [of 32 i]
      ucast_drop_bit [of 40 i] ucast_drop_bit [of 48 i] ucast_drop_bit [of 56 i] ucast_nat [of i]
    by (simp add: PutUint64_def be_digits_def del: of_nat_unat)
qed

lemma scratch_tail:
  assumes "9 \<le> length buffer" "k \<le> 8"
  shows "res_bind (put_at buffer 1 (PutUint64 i)) (\<lambda>buffer. res_bind (put_at buffer (8 - k) [tag]) (\<lambda>buffer.
      res_bind (slice_res buffer (8 - k) 9) f)) = f (tag # be_digits k (unat i))"
proof -
  define d where "d = PutUint64 i"
  have d: "length d = 8" "drop (8 - k) d = be_digits k (unat i)"
    using be_digits_append [of "8 - k" k "unat i"] assms(2) by (simp_all add: d_def PutUint64_digits)
  have "put_at buffer 1 d = Inr (take 1 buffer @ d @ drop 9 buffer)"
    using assms(1) d(1) by (simp add: put_at_def)
  moreover have "put_at (take 1 buffer @ d @ drop 9 buffer) (8 - k) [tag] =
      Inr (take (8 - k) (take 1 buffer @ d) @ tag # drop (8 - k) d @ drop 9 buffer)"
    using assms d(1) by (simp add: put_at_def min_def Suc_diff_le)
  moreover have "slice_res (take (8 - k) (take 1 buffer @ d) @ tag # drop (8 - k) d @ drop 9 buffer) (8 - k) 9 =
      Inr (tag # drop (8 - k) d)"
    using assms d(1) by (auto simp: slice_res_def min_def Suc_diff_le)
  ultimately show ?thesis
    by (simp add: d(2) flip: d_def)
qed

lemma EncodeInt_enc:
  assumes "9 \<le> length buffer"
  shows "EncodeInt i w buffer = Inr (w @ rlp_enc (Str (nat_bytes (unat i))))"
proof (cases "0 < i \<and> i < 0x80")
  case True
  then show ?thesis
    using assms unfolding rlp_enc_uint by (auto simp: EncodeInt_def put_at_def)
next
  case False
  have zero: "intsize 0 = 0"
    by (subst intsize_def, subst bits_Len64.simps) simp
  have "intsize i \<le> 8"
    using length_putint [of i] zero by (cases "i = 0") simp_all
  note e = scratch_tail [OF assms this, of i _ "\<lambda>out. Inr (w @ out)"]
  show ?thesis
  proof (cases "i = 0")
    case True
    then show ?thesis
      using e zero by (simp add: EncodeInt_def Let_def be_digits_def puthead_def)
  next
    case 0: False
    then have "be_digits (intsize i) (unat i) = putint i"
      using bits_bytes(1) [of "unat i"] by (simp add: putint_nat_bytes intsize_def unat_gt_0)
    moreover have "\<not> i < 128"
      using False 0 by (simp add: word_neq_0_conv)
    ultimately show ?thesis
      using False 0 e length_putint [of i] unfolding rlp_enc_uint by (simp add: EncodeInt_def Let_def)
  qed
qed

lemma EncodeStringSizePrefix_head:
  assumes "9 \<le> length buffer" "n < 2 ^ 64"
  shows "EncodeStringSizePrefix n w buffer = Inr (w @ puthead 0x80 0xB7 (of_nat n))"
proof (cases "56 \<le> n")
  case True
  define i where "i = (of_nat n :: u64)"
  have i: "unat i = n" "i \<noteq> 0" "\<not> i < 56"
    using assms(2) True by (auto simp: i_def unat_size word_less_nat_alt word_unat_eq_iff)
  have k: "BitLenToByteLen (bits_Len64 n) = intsize i" "intsize i \<le> 8" "length (putint i) = intsize i"
    using i(1) length_putint [OF i(2)] by (simp_all add: BitLenToByteLen_def intsize_def)
  have "be_digits (intsize i) n = putint i"
    using bits_bytes(1) [of n] i True by (simp add: putint_nat_bytes intsize_def)
  then show ?thesis
    using scratch_tail [OF assms(1) k(2), of i] True i k
    by (simp add: EncodeStringSizePrefix_def Let_def puthead_def ac_simps flip: i_def)
next
  case False
  then show ?thesis
    using assms by (auto simp: EncodeStringSizePrefix_def put_at_def puthead_def size_less_56 ucast_size ac_simps)
qed

lemma EncodeString_enc:
  assumes "9 \<le> length buffer" "length s < 2 ^ 64"
  shows "rlp_EncodeString s w buffer = Inr (w @ rlp_enc (Str s))"
proof -
  have b: "s ! 0 \<ge> 128 \<longleftrightarrow> \<not> s ! 0 \<le> 0x7F"
    by (auto simp: word_le_nat_alt)
  consider "s = []" | "length s = 1" | "2 \<le> length s"
    by (cases s; cases "tl s") auto
  then show ?thesis
    using assms EncodeStringSizePrefix_head [OF assms]
    by cases (auto simp: rlp_EncodeString_def put_at_def b puthead_def)
qed

section \<open>Properties\<close>

text \<open>C23. Whole numbers of any size are written as the shortest big-endian byte string: the loop of \<^verbatim>\<open>writeBigInt\<close> over
  the machine words, which puts their bytes from the end of the reserved space, leaves in the buffer what \<^verbatim>\<open>encodeString\<close>
  leaves for the bytes of the number, and a negative number is an error.\<close>

theorem writeBigInt_writes_Bytes:
  assumes "length (big_Bytes i) < 2 ^ 64"
  shows "writeBigInt i w =
    (if i < 0 then Inl (Error ''rlp: cannot encode negative *big.Int'') else Inr (encodeString (big_Bytes i) w))"
  using assms writeBigInt_append [of i w] encodeString_append [of "big_Bytes i" w] by (auto simp: writeBigInt_def)

theorem writeBigInt_writes_Bytes_witness:
  "writeBigInt (2 ^ 64) eb_reset = Inr (encodeString (big_Bytes (2 ^ 64)) eb_reset) \<and> length (big_Bytes (2 ^ 64)) = 9 \<and>
    writeBigInt (- 1) eb_reset = Inl (Error ''rlp: cannot encode negative *big.Int'')"
proof -
  have "length (nat_bytes 18446744073709551616) = 9" "length (nat_bytes 1) = 1"
    by (simp_all add: nat_bytes_step)
  then have "length (big_Bytes (2 ^ 64)) = 9" "length (big_Bytes (- 1)) = 1"
    by (simp_all add: big_Bytes_def)
  then show ?thesis
    using writeBigInt_writes_Bytes [of "2 ^ 64" eb_reset] writeBigInt_writes_Bytes [of "- 1" eb_reset] by simp
qed

text \<open>C24. The writers to a stream agree with the encoder: with a scratch buffer of at least nine bytes \<^verbatim>\<open>EncodeInt\<close> writes
  the encoding of the integer's bytes, of one byte more than \<^verbatim>\<open>IntLenExcludingHead\<close> says, and \<^verbatim>\<open>EncodeString\<close> the encoding
  of the string, whatever the buffer held before.\<close>

theorem stream_writers_agree:
  assumes "9 \<le> length buffer" "length s < 2 ^ 63"
  shows "EncodeInt i w buffer = Inr (w @ EncodeToBytes (Str (nat_bytes (unat i)))) \<and>
    length (EncodeToBytes (Str (nat_bytes (unat i)))) = 1 + IntLenExcludingHead i \<and>
    rlp_EncodeString s w buffer = Inr (w @ EncodeToBytes (Str s))"
proof -
  have n: "length (nat_bytes (unat i)) \<le> 8"
    using length_putint [of i] putint_nat_bytes [of i] by (cases "i = 0") auto
  have short: "length (rlp_enc (Str b)) < 2 ^ 64" if "length b < 2 ^ 63" for b
    using that headsize_range [of "of_nat (length b)"] by (auto simp: length_puthead)
  have "length (rlp_enc (Str (nat_bytes (unat i)))) = 1 + IntLenExcludingHead i"
    using length_putint [of i] unfolding rlp_enc_uint by (auto simp: IntLenExcludingHead_def)
  moreover have "EncodeToBytes (Str (nat_bytes (unat i))) = rlp_enc (Str (nat_bytes (unat i)))"
    using n by (intro EncodeToBytes_enc short) simp
  moreover have "EncodeToBytes (Str s) = rlp_enc (Str s)"
    using assms(2) by (intro EncodeToBytes_enc short)
  ultimately show ?thesis
    using EncodeInt_enc [OF assms(1), of i w] EncodeString_enc [OF assms(1), of s w] assms(2) by (simp del: rlp_enc.simps)
qed

theorem stream_writers_agree_witness:
  "EncodeInt 1024 [] (replicate 9 7) = Inr (EncodeToBytes (Str (nat_bytes (unat (1024 :: u64))))) \<and>
    rlp_EncodeString [1, 2] [] (replicate 9 7) = Inr (EncodeToBytes (Str [1, 2]))"
  using stream_writers_agree [of "replicate 9 7" "[1, 2]" 1024 "[]"] by simp

end
