(* ===== verification/Go_Text.thy ===== *)
theory Go_Text
  imports Go_Bytes
begin

text \<open>
  Hexadecimal text: \<^verbatim>\<open>EncodeToString\<close> of \<^verbatim>\<open>encoding/hex\<close> (wrapped in \<^verbatim>\<open>src/zkevm/hex/hex.go\<close>), \<^verbatim>\<open>ParseUint\<close> of \<^verbatim>\<open>strconv\<close>, and
  what the text of bytes is read as.
\<close>

definition hex_EncodeToString :: "bytes \<Rightarrow> string" where
  "hex_EncodeToString bs = concat (map (\<lambda>b. [digit_char (unat b div 16), digit_char (unat b mod 16)]) bs)"

text \<open>\<^verbatim>\<open>strconv.ParseUint\<close> with an explicit base and 64 bits.\<close>

definition ParseUint :: "string \<Rightarrow> nat \<Rightarrow> u64 res" where
  "ParseUint s b =
     (case parse_nat b s of
        None \<Rightarrow> Inl (Error (''strconv.ParseUint: parsing '' @ s @ '': invalid syntax''))
      | Some n \<Rightarrow> if n < 2 ^ 64 then Inr (of_nat n)
                  else Inl (Error (''strconv.ParseUint: parsing '' @ s @ '': value out of range'')))"

lemma SetBytes_less: "big_SetBytes bs < 256 ^ length bs"
proof (induction bs rule: rev_induct)
  case (snoc b bs)
  have "uint b \<le> 255"
    using uint_bounded [of b] by simp
  then show ?case
    using snoc by simp
qed (simp add: big_SetBytes_def)

lemma SetBytes_nonneg [simp]: "0 \<le> big_SetBytes bs"
  by (induction bs rule: rev_induct) (simp_all add: big_SetBytes_def)

lemma SetBytes_append: "big_SetBytes (as @ bs) = big_SetBytes as * 256 ^ length bs + big_SetBytes bs"
  by (induction bs rule: rev_induct) (simp_all add: algebra_simps flip: append_assoc, simp add: big_SetBytes_def)

lemma SetBytes_zeros [simp]: "big_SetBytes (replicate n 0 @ bs) = big_SetBytes bs"
proof -
  have "big_SetBytes (replicate n 0) = 0"
    by (induction n) (simp_all add: big_SetBytes_def)
  then show ?thesis
    by (simp add: SetBytes_append)
qed

lemma hex_snoc: "hex_EncodeToString (bs @ [b]) = hex_EncodeToString bs @ [digit_char (unat b div 16), digit_char (unat b mod 16)]"
  by (simp add: hex_EncodeToString_def)

lemma parse_hex: "parse_digits 16 0 (hex_EncodeToString bs) = Some (nat (big_SetBytes bs))"
proof (induction bs rule: rev_induct)
  case (snoc b bs)
  have "unat b < 256"
    using unsigned_less [of b, where ?'a = nat] by simp
  then have "digit_val (digit_char (unat b div 16)) = Some (unat b div 16)"
    "digit_val (digit_char (unat b mod 16)) = Some (unat b mod 16)"
    by (simp_all add: digit_val_digit_char)
  moreover have "nat (big_SetBytes bs * 256 + uint b) = (nat (big_SetBytes bs) * 16 + unat b div 16) * 16 + unat b mod 16"
    by (simp add: nat_add_distrib nat_mult_distrib algebra_simps)
  ultimately show ?case
    using snoc \<open>unat b < 256\<close> by (simp add: hex_snoc parse_digits_append less_mult_imp_div_less)
qed (simp add: hex_EncodeToString_def big_SetBytes_def)

lemma hex_append: "hex_EncodeToString (as @ bs) = hex_EncodeToString as @ hex_EncodeToString bs"
  by (simp add: hex_EncodeToString_def)

lemma length_hex [simp]: "length (hex_EncodeToString bs) = 2 * length bs"
  by (induction bs) (simp_all add: hex_EncodeToString_def)

lemma hex_Nil [simp]: "hex_EncodeToString bs = [] \<longleftrightarrow> bs = []"
  by (metis length_0_conv length_hex mult_is_0 zero_neq_numeral)

lemma hex_empty [simp]: "hex_EncodeToString [] = []"
  by (simp add: hex_EncodeToString_def)

lemma take_hex: "take (2 * n) (hex_EncodeToString bs) = hex_EncodeToString (take n bs)"
proof -
  have "hex_EncodeToString bs = hex_EncodeToString (take n bs) @ hex_EncodeToString (drop n bs)"
    by (simp flip: hex_append)
  then show ?thesis
    by (cases "n \<le> length bs") simp_all
qed

lemma drop_hex: "drop (2 * n) (hex_EncodeToString bs) = hex_EncodeToString (drop n bs)"
proof -
  have "hex_EncodeToString bs = hex_EncodeToString (take n bs) @ hex_EncodeToString (drop n bs)"
    by (simp flip: hex_append)
  then show ?thesis
    by (cases "n \<le> length bs") simp_all
qed

lemma hex_digits:
  assumes "c \<in> set (hex_EncodeToString bs)"
  shows "\<exists>d < 16. c = digit_char d"
proof -
  obtain b :: u8 where b: "c = digit_char (unat b div 16) \<or> c = digit_char (unat b mod 16)"
    using assms by (auto simp: hex_EncodeToString_def)
  have "unat b div 16 < 16" "unat b mod 16 < 16"
    using unsigned_less [of b, where ?'a = nat] by (simp_all add: less_mult_imp_div_less)
  with b show ?thesis by blast
qed

lemma big_SetString_hex:
  assumes "bs \<noteq> []"
  shows "big_SetString 16 (hex_EncodeToString bs) = Some (big_SetBytes bs)"
proof (cases "hex_EncodeToString bs")
  case (Cons c cs)
  then have "c \<noteq> CHR ''-''" "c \<noteq> CHR ''+''"
    using hex_digits [of c bs] digit_char_not_sign by auto
  then show ?thesis
    using Cons parse_hex [of bs] by (simp add: big_SetString_def parse_nat_def)
qed (use assms in simp)

end
