(* ===== verification/L2_Data.thy ===== *)
theory L2_Data
  imports Rlp_Decode Eth_Tx Go_Text
begin

unbundle bit_operations_syntax

text \<open>
  The data of a batch as it is posted to L1: \<^verbatim>\<open>src/zk/tx/tx.go\<close> with the legacy transactions of
  \<^verbatim>\<open>src/core/types/legacy_tx.go\<close>. A block is a nine byte marker and the transactions, each the RLP list of its fields,
  the signature and a percentage. \<^verbatim>\<open>GenerateBlockBatchL2Data\<close> writes a block, \<^verbatim>\<open>DecodeBatchL2Blocks\<close> reads a batch. The
  theorems say that reading returns on every input, when it panics, and what it returns for written blocks.

  A slice expression is modelled for a slice whose capacity is its length. The \<^verbatim>\<open>uint256.Int\<close> of the sources is a word
  of 256 bits, a pointer an option.
\<close>

section \<open>Numbers as text and bytes\<close>

definition uint256_Bytes :: "u256 \<Rightarrow> bytes" where
  "uint256_Bytes x = nat_bytes (unat x)"

definition uint256_Bytes32 :: "u256 \<Rightarrow> bytes" where
  "uint256_Bytes32 x = set_bytes 32 (nat_bytes (unat x))"

definition uint256_FromBig :: "int \<Rightarrow> u256" where
  "uint256_FromBig x = word_of_int x"

definition AppendUint32 :: "bytes \<Rightarrow> u32 \<Rightarrow> bytes" where
  "AppendUint32 b x = b @ [ucast (drop_bit 24 x), ucast (drop_bit 16 x), ucast (drop_bit 8 x), ucast x]"

fun BE_Uint32 :: "bytes \<Rightarrow> u32 res" where
  "BE_Uint32 (a # b # c # d # _) =
     Inr (ucast d OR push_bit 8 (ucast c) OR push_bit 16 (ucast b) OR push_bit 24 (ucast a))"
| "BE_Uint32 _ = Inl (Panic ''index out of range'')"

section \<open>Constants\<close>

definition ForkID5Dragonfruit :: u64 where "ForkID5Dragonfruit = 5"
definition ForkID7Etrog :: u64 where "ForkID7Etrog = 7"

definition double :: int where "double = 2"
definition ether155V :: int where "ether155V = 27"
definition etherPre155V :: int where "etherPre155V = 35"
definition headerByteLength :: u64 where "headerByteLength = 1"
definition sLength :: u64 where "sLength = 32"
definition rLength :: u64 where "rLength = 32"
definition vLength :: u64 where "vLength = 1"
definition c0 :: u64 where "c0 = 192"
definition shortRlp :: u64 where "shortRlp = 55"
definition f7 :: u64 where "f7 = 247"
definition efficiencyPercentageByteLength :: u64 where "efficiencyPercentageByteLength = 1"
definition changeL2BlockTxType :: u8 where "changeL2BlockTxType = 11"
definition changeL2BlockLength :: u64 where "changeL2BlockLength = 9"

lemmas l2_consts = ForkID5Dragonfruit_def ForkID7Etrog_def double_def ether155V_def etherPre155V_def
  headerByteLength_def sLength_def rLength_def vLength_def c0_def shortRlp_def f7_def
  efficiencyPercentageByteLength_def changeL2BlockTxType_def changeL2BlockLength_def

definition ErrInvalidData :: go_error where "ErrInvalidData = Error ''invalid data''"

section \<open>Reading a batch\<close>

record batch_data =
  Transactions :: "legacy_tx list"
  EffectiveGasPricePercentages :: "u8 list"
  DeltaTimestamp :: u32
  L1InfoTreeIndex :: u32

definition no_data :: batch_data where
  "no_data = \<lparr>Transactions = [], EffectiveGasPricePercentages = [], DeltaTimestamp = 0, L1InfoTreeIndex = 0\<rparr>"

definition rlpFieldsToLegacyTx :: "bytes list \<Rightarrow> bytes \<Rightarrow> bytes \<Rightarrow> bytes \<Rightarrow> legacy_tx res" where
  "rlpFieldsToLegacyTx flds v r s =
     (if length flds < 6 then Inl ErrTxTypeNotSupported else
      let nonce = big_Uint64 (big_SetBytes (flds ! 0));
          gasPriceI = uint256_SetBytes (flds ! 1);
          gas = big_Uint64 (big_SetBytes (flds ! 2));
          to = (if length (flds ! 3) \<noteq> 0 then Some (BytesToAddress (flds ! 3)) else None);
          val = big_SetBytes (flds ! 4);
          data = flds ! 5;
          chainIDBig = (if 7 \<le> length flds then big_SetBytes (flds ! 6) else 0);
          txV = (if 7 \<le> length flds then
                   let a = chainIDBig * double; b = big_SetBytes v - ether155V; c = a + etherPre155V in b + c
                 else big_SetBytes v)
      in Inr \<lparr>ct_ChainID = Some (uint256_FromBig chainIDBig), ct_Nonce = nonce, ct_Gas = gas, ct_To = to,
              ct_Value = Some (uint256_SetBytes (big_Bytes val)), ct_Data = data,
              ct_V = uint256_SetBytes (big_Bytes txV), ct_R = uint256_SetBytes r, ct_S = uint256_SetBytes s,
              lt_GasPrice = Some gasPriceI\<rparr>)"

text \<open>
  How the loop is left from within: by a panic or by \<^verbatim>\<open>return result, err\<close>. An error of a call is returned.
\<close>

datatype l2_exit = Panicking string | Returning "go_error option"

definition exit_bind :: "l2_exit + 'a \<Rightarrow> ('a \<Rightarrow> l2_exit + 'b) \<Rightarrow> l2_exit + 'b" where
  "exit_bind m f = (case m of Inl e \<Rightarrow> Inl e | Inr x \<Rightarrow> f x)"

fun or_exit :: "'a res \<Rightarrow> l2_exit + 'a" where
  "or_exit (Inl (Panic m)) = Inl (Panicking m)"
| "or_exit (Inl (Error m)) = Inl (Returning (Some (Error m)))"
| "or_exit (Inr x) = Inr x"

definition data_slice :: "bytes \<Rightarrow> u64 \<Rightarrow> u64 \<Rightarrow> l2_exit + bytes" where
  "data_slice d i j = or_exit (slice_res d (unat i) (unat j))"

record l2_state =
  l2_pos :: u64
  l2_result :: "batch_data list"
  l2_current :: batch_data
  l2_delta :: u32
  l2_index :: u32

text \<open>The current data with the delta and the index of the block it belongs to.\<close>

definition l2_captured :: "l2_state \<Rightarrow> batch_data list" where
  "l2_captured st = l2_result st @
     [(l2_current st)\<lparr>DeltaTimestamp := l2_delta st, L1InfoTreeIndex := l2_index st\<rparr>]"

definition change_block :: "bytes \<Rightarrow> l2_state \<Rightarrow> l2_exit + l2_state" where
  "change_block d st =
     (let pos = l2_pos st; hasStarted = pos > 0 in
      exit_bind (if hasStarted then Inr True
                 else exit_bind (or_exit (nth_res d (unat (pos + 1)))) (\<lambda>b. Inr (b = changeL2BlockTxType))) (\<lambda>capture.
      let st = (if capture then st\<lparr>l2_result := l2_captured st, l2_current := no_data\<rparr> else st) in
      exit_bind (exit_bind (data_slice d (pos + 1) (pos + 5)) (\<lambda>s. or_exit (BE_Uint32 s))) (\<lambda>delta.
      exit_bind (exit_bind (data_slice d (pos + 5) (pos + 9)) (\<lambda>s. or_exit (BE_Uint32 s))) (\<lambda>index.
      Inr (st\<lparr>l2_delta := delta, l2_index := index, l2_pos := pos + changeL2BlockLength\<rparr>)))))"

definition tx_length :: "bytes \<Rightarrow> u64 \<Rightarrow> u64 \<Rightarrow> l2_exit + u64" where
  "tx_length d pos num =
     (if num < c0 then Inl (Returning (Some ErrInvalidData)) else
      let len = num - c0 in
      if len > shortRlp then
        if pos + 1 + num - f7 > of_nat (length d) then Inl (Returning None) else
        exit_bind (data_slice d (pos + 1) (pos + 1 + num - f7)) (\<lambda>s.
        exit_bind (or_exit (ParseUint (hex_EncodeToString s) 16)) (\<lambda>n.
        if n + num < f7 then Inl (Returning (Some ErrInvalidData)) else Inr (n + num - f7)))
      else Inr len)"

text \<open>The parts of a transaction, its percentage from fork 5 on and the position behind it.\<close>

definition tx_parts :: "bytes \<Rightarrow> u64 \<Rightarrow> u64 \<Rightarrow> u64 \<Rightarrow> l2_exit + ((bytes \<times> bytes \<times> bytes \<times> bytes) \<times> u8 list \<times> u64)" where
  "tx_parts d fork pos len =
     (let endPos = pos + len + rLength + sLength + vLength + headerByteLength;
          endPos = (if fork \<ge> ForkID5Dragonfruit then endPos + efficiencyPercentageByteLength else endPos) in
      if endPos > of_nat (length d) then Inl (Returning (Some ErrInvalidData))
      else if endPos < pos then Inl (Returning (Some ErrInvalidData))
      else
        exit_bind (data_slice d pos endPos) (\<lambda>_.
        let dataStart = pos + len + headerByteLength in
        exit_bind (data_slice d pos dataStart) (\<lambda>txInfo.
        exit_bind (data_slice d dataStart (dataStart + rLength)) (\<lambda>rData.
        exit_bind (data_slice d (dataStart + rLength) (dataStart + rLength + sLength)) (\<lambda>sData.
        exit_bind (data_slice d (dataStart + rLength + sLength) (dataStart + rLength + sLength + vLength)) (\<lambda>vData.
        exit_bind (if fork \<ge> ForkID5Dragonfruit then
                     exit_bind (data_slice d (dataStart + rLength + sLength + vLength) endPos) (\<lambda>p.
                     exit_bind (or_exit (nth_res p 0)) (\<lambda>b. Inr [b]))
                   else Inr []) (\<lambda>eff.
        Inr ((txInfo, rData, sData, vData), eff, endPos))))))))"

definition decode_fields :: "bytes \<Rightarrow> ((decode_err + bytes list)) option" where
  "decode_fields b = DecodeBytes ''[][]uint8'' (decodeListSlice ''[][]uint8'' (decodeByteSlice ''[]uint8'') (Suc (length b))) b"

definition add_tx :: "l2_state \<Rightarrow> (bytes \<times> bytes \<times> bytes \<times> bytes) \<times> u8 list \<times> u64 \<Rightarrow> (l2_exit + l2_state) option" where
  "add_tx st parts =
     (case parts of ((txInfo, rData, sData, vData), eff, endPos) \<Rightarrow>
        (case decode_fields txInfo of
           None \<Rightarrow> None
         | Some (Inl e) \<Rightarrow>
             (case e of Stream_error (Panic m) \<Rightarrow> Some (Inl (Panicking m)) | _ \<Rightarrow> Some (Inl (Returning (Some ErrInvalidData))))
         | Some (Inr rlpFields) \<Rightarrow>
             Some (exit_bind (or_exit (rlpFieldsToLegacyTx rlpFields vData rData sData)) (\<lambda>legacyTx.
             let cur = l2_current st in
             Inr (st\<lparr>l2_pos := endPos,
                     l2_current := cur\<lparr>EffectiveGasPricePercentages := EffectiveGasPricePercentages cur @ eff,
                                       Transactions := Transactions cur @ [legacyTx]\<rparr>\<rparr>)))))"

definition l2_step :: "bytes \<Rightarrow> u64 \<Rightarrow> l2_state \<Rightarrow> (l2_exit + l2_state) option" where
  "l2_step d fork st =
     (let pos = l2_pos st in
      case exit_bind (data_slice d pos (pos + 1)) (\<lambda>s. or_exit (ParseUint (hex_EncodeToString s) 16)) of
        Inl e \<Rightarrow> Some (Inl e)
      | Inr num \<Rightarrow>
          if num = ucast changeL2BlockTxType then Some (change_block d st) else
          (case exit_bind (tx_length d pos num) (tx_parts d fork pos) of
             Inl e \<Rightarrow> Some (Inl e)
           | Inr parts \<Rightarrow> add_tx st parts))"

partial_function (option) l2_loop ::
    "bytes \<Rightarrow> u64 \<Rightarrow> l2_state \<Rightarrow> (batch_data list \<times> go_error option) res option" where
  "l2_loop d fork st =
     (if l2_pos st < of_nat (length d) then
        (case l2_step d fork st of
           None \<Rightarrow> None
         | Some (Inl (Panicking m)) \<Rightarrow> Some (Inl (Panic m))
         | Some (Inl (Returning err)) \<Rightarrow> Some (Inr (l2_result st, err))
         | Some (Inr st') \<Rightarrow> l2_loop d fork st')
      else Some (Inr (l2_captured st, None)))"

declare l2_loop.simps [code]

definition DecodeBatchL2Blocks :: "bytes \<Rightarrow> u64 \<Rightarrow> (batch_data list \<times> go_error option) res option" where
  "DecodeBatchL2Blocks d fork =
     (if length d = 0 then Some (Inr ([], None))
      else l2_loop d fork \<lparr>l2_pos = 0, l2_result = [], l2_current = no_data, l2_delta = 0, l2_index = 0\<rparr>)"

section \<open>Writing a block\<close>

fun removeLeadingZeroesFromBytes :: "bytes \<Rightarrow> bytes" where
  "removeLeadingZeroesFromBytes [] = []"
| "removeLeadingZeroesFromBytes (b # bs) = (if b \<noteq> 0 then b # bs else removeLeadingZeroesFromBytes bs)"

definition GetDecodedV :: "tx_methods \<Rightarrow> u256 \<Rightarrow> u256 res" where
  "GetDecodedV t v =
     (if \<not> Protected t then Inr v else
      (case GetChainID t of
         None \<Rightarrow> Inl (Panic ''nil pointer dereference'')
       | Some cid \<Rightarrow>
           let multiChain = uint cid * double;
               plus155V = big_SetBytes (uint256_Bytes v) + ether155V;
               txV = plus155V - multiChain - etherPre155V
           in Inr (uint256_FromBig txV)))"

definition Uint8ToBytes :: "u8 \<Rightarrow> bytes" where
  "Uint8ToBytes i = [i]"

definition Uint64ToBytes :: "u64 \<Rightarrow> bytes" where
  "Uint64ToBytes i = PutUint64 i"

definition TransactionToL2Data :: "tx_methods \<Rightarrow> u16 \<Rightarrow> u8 \<Rightarrow> bytes res" where
  "TransactionToL2Data t forkId pct =
     (case (GetPrice t, GetChainID t) of
        (Some gasPrice, Some cid) \<Rightarrow>
          (let nonceBytes = Uint64ToBytes (GetNonce t);
               gas = Uint64ToBytes (GetGas t);
               val = (case GetValue t of None \<Rightarrow> 0 | Some x \<Rightarrow> x);
               to = (case GetTo t of None \<Rightarrow> [] | Some a \<Rightarrow> a);
               (v, r, s) = RawSignatureValues t;
               toEncode = [removeLeadingZeroesFromBytes nonceBytes, removeLeadingZeroesFromBytes (uint256_Bytes gasPrice),
                           removeLeadingZeroesFromBytes gas, to, removeLeadingZeroesFromBytes (uint256_Bytes val), GetData t];
               toEncode = (if cid \<noteq> 0 \<or> \<not> (v = 27 \<or> v = 28)
                           then toEncode @ [removeLeadingZeroesFromBytes (uint256_Bytes cid), [], []] else toEncode);
               encoded = EncodeToBytes (Lst (map Str toEncode))
           in res_bind (GetDecodedV t v) (\<lambda>v.
              let txV = big_SetBytes (uint256_Bytes v);
                  encoded = encoded @ uint256_Bytes32 r @ uint256_Bytes32 s @ big_Bytes txV
              in Inr (if forkId \<ge> ucast ForkID5Dragonfruit then encoded @ Uint8ToBytes pct else encoded)))
      | _ \<Rightarrow> Inl (Panic ''nil pointer dereference''))"

definition GenerateStartBlockBatchL2Data :: "u32 \<Rightarrow> u32 \<Rightarrow> bytes" where
  "GenerateStartBlockBatchL2Data deltaTimestamp l1InfoTreeIndex =
     AppendUint32 (AppendUint32 [changeL2BlockTxType] deltaTimestamp) l1InfoTreeIndex"

fun append_txs :: "u16 \<Rightarrow> bytes \<Rightarrow> (tx_methods \<times> u8) list \<Rightarrow> bytes res" where
  "append_txs forkId result [] = Inr result"
| "append_txs forkId result ((t, pct) # ts) =
     res_bind (TransactionToL2Data t forkId pct) (\<lambda>encoded. append_txs forkId (result @ encoded) ts)"

definition GenerateBlockBatchL2Data :: "u16 \<Rightarrow> u32 \<Rightarrow> u32 \<Rightarrow> (tx_methods \<times> u8) list \<Rightarrow> bytes res" where
  "GenerateBlockBatchL2Data forkId deltaTimestamp l1InfoTreeIndex txs =
     append_txs forkId
       (if forkId \<ge> ucast ForkID7Etrog then GenerateStartBlockBatchL2Data deltaTimestamp l1InfoTreeIndex else []) txs"

section \<open>Numbers\<close>

lemma ParseUint_hex:
  assumes "bs \<noteq> []" "length bs \<le> 8"
  shows "ParseUint (hex_EncodeToString bs) 16 = Inr (be_word bs)"
proof -
  have "(256 :: int) ^ length bs \<le> 256 ^ 8"
    using assms(2) by (intro power_increasing) auto
  then have "nat (big_SetBytes bs) < 2 ^ 64"
    using SetBytes_less [of bs] by (simp add: nat_less_iff)
  moreover have "hex_EncodeToString bs \<noteq> []"
    using assms(1) by (cases bs) (simp_all add: hex_EncodeToString_def)
  moreover have "(of_nat (nat (big_SetBytes bs)) :: u64) = be_word bs"
    by (simp add: be_word_SetBytes)
  ultimately show ?thesis
    by (simp add: ParseUint_def parse_nat_def parse_hex)
qed

lemma ParseUint_byte: "ParseUint (hex_EncodeToString [b]) 16 = Inr (ucast b)"
  by (subst ParseUint_hex) (simp_all add: be_word_def)

lemma BE_Uint32_append:
  "BE_Uint32 (ucast (drop_bit 24 x) # ucast (drop_bit 16 x) # ucast (drop_bit 8 x) # ucast x # ys) = Inr x"
proof -
  have "ucast (ucast x :: u8) OR push_bit 8 (ucast (ucast (drop_bit 8 x) :: u8)) OR push_bit 16 (ucast (ucast (drop_bit 16 x) :: u8))
      OR push_bit 24 (ucast (ucast (drop_bit 24 x) :: u8)) = x" (is "?l = x")
  proof (rule bit_word_eqI)
    fix n assume "n < LENGTH(32)"
    then consider "n < 8" | "8 \<le> n" "n < 16" | "16 \<le> n" "n < 24" | "24 \<le> n" "n < 32" by force
    then show "bit ?l n = bit x n" by cases (simp_all add: bit_simps less_diff_conv2)
  qed
  then show ?thesis by simp
qed

lemma SetBytes_removeLeadingZeroes [simp]: "big_SetBytes (removeLeadingZeroesFromBytes bs) = big_SetBytes bs"
  by (induction bs) (simp_all add: big_SetBytes_def)

lemma be_word_PutUint64: "be_word (PutUint64 x) = x"
proof (rule bit_word_eqI)
  fix n assume "n < LENGTH(64)"
  then consider "n < 8" | "8 \<le> n" "n < 16" | "16 \<le> n" "n < 24" | "24 \<le> n" "n < 32" | "32 \<le> n" "n < 40"
    | "40 \<le> n" "n < 48" | "48 \<le> n" "n < 56" | "56 \<le> n" "n < 64" by force
  then show "bit (be_word (PutUint64 x)) n = bit x n"
    by cases (simp_all add: be_word_def PutUint64_def bit_simps less_diff_conv2)
qed

lemma SetBytes_PutUint64 [simp]: "big_SetBytes (PutUint64 x) = uint x"
proof -
  have "big_SetBytes (PutUint64 x) < 2 ^ 64"
    using SetBytes_less [of "PutUint64 x"] by simp
  then have "uint (word_of_int (big_SetBytes (PutUint64 x)) :: u64) = big_SetBytes (PutUint64 x)"
    by (simp add: unsigned_of_int take_bit_int_eq_self)
  then show ?thesis
    using be_word_SetBytes [of "PutUint64 x"] be_word_PutUint64 [of x] by simp
qed

lemma SetBytes_uint256_Bytes [simp]: "big_SetBytes (uint256_Bytes x) = uint x"
  by (simp add: uint256_Bytes_def big_SetBytes_nat_bytes)

lemma uint256_SetBytes_big_Bytes: "uint256_SetBytes (big_Bytes x) = word_of_int \<bar>x\<bar>"
  by (simp add: uint256_SetBytes_def big_Bytes_def big_SetBytes_nat_bytes)

lemma length_uint256_Bytes: "length (uint256_Bytes x) \<le> 32"
  using nat_bytes_fits [of "unat x" 32] unsigned_less [of x, where ?'a = nat] by (simp add: uint256_Bytes_def)

lemma SetBytes_Bytes32 [simp]: "big_SetBytes (uint256_Bytes32 x) = uint x"
  using length_uint256_Bytes [of x] SetBytes_uint256_Bytes [of x]
  by (simp add: uint256_Bytes32_def set_bytes_def uint256_Bytes_def Let_def)

lemma length_Bytes32 [simp]: "length (uint256_Bytes32 x) = 32"
  by (simp add: uint256_Bytes32_def)

section \<open>Every input is read\<close>

lemma exit_bind_simps [simp]: "exit_bind (Inl e) f = Inl e" "exit_bind (Inr x) f = f x"
  by (simp_all add: exit_bind_def)

lemma exit_bind_eq:
  "exit_bind m f = Inr y \<longleftrightarrow> (\<exists>x. m = Inr x \<and> f x = Inr y)"
  "exit_bind m f = Inl e \<longleftrightarrow> m = Inl e \<or> (\<exists>x. m = Inr x \<and> f x = Inl e)"
  by (cases m; auto)+

lemma data_slice_inside:
  assumes "unat i \<le> unat j" "unat j \<le> length d"
  shows "data_slice d i j = Inr (take (unat j - unat i) (drop (unat i) d))"
  using assms by (simp add: data_slice_def slice_res_def)

lemma data_slice_Inr:
  "data_slice d i j = Inr s \<longleftrightarrow> unat i \<le> unat j \<and> unat j \<le> length d \<and> s = take (unat j - unat i) (drop (unat i) d)"
  by (auto simp: data_slice_def slice_res_def)

lemma unat_add_small:
  fixes x y :: u64
  assumes "unat x + unat y < 2 ^ 64"
  shows "unat (x + y) = unat x + unat y"
  using assms by (simp add: unat_word_ariths)

lemma unat_sub_small:
  fixes x y :: u64
  assumes "unat y \<le> unat x"
  shows "unat (x - y) = unat x - unat y"
  using assms by (simp add: unat_sub word_le_nat_alt)

text \<open>The position of the next item fits, the length of a transaction stays away from wrapping around.\<close>

lemma tx_length_cases:
  assumes "unat pos < length d" "length d < 2 ^ 62" "num < 256"
  shows "(\<exists>err. tx_length d pos num = Inl (Returning err)) \<or>
    (\<exists>len. tx_length d pos num = Inr len \<and> unat len \<le> 2 ^ 64 - 248)"
proof (cases "num < c0 \<or> \<not> num - c0 > shortRlp")
  case True
  have "unat (num - c0) \<le> 63" if "\<not> num < c0"
    using that assms(3) by (simp add: c0_def unat_arith_simps) 
  with True show ?thesis
    by (auto simp: tx_length_def Let_def)
next
  case False
  have num: "247 < unat num" "unat num < 256"
    using False assms(3) by (auto simp: c0_def shortRlp_def unat_arith_simps split: if_splits)
  have stop: "unat (pos + 1 + num - f7) = unat pos + 1 + unat num - 247"
    using num assms(1,2) by (simp add: f7_def unat_sub_small unat_add_small)
  show ?thesis
  proof (cases "pos + 1 + num - f7 > of_nat (length d)")
    case True
    with False show ?thesis
      by (simp add: tx_length_def Let_def)
  next
    case inside: False
    then have "unat (pos + 1 + num - f7) \<le> length d"
      using assms(2) by (simp add: word_less_nat_alt unat_size)
    then obtain s where s: "data_slice d (pos + 1) (pos + 1 + num - f7) = Inr s" "length s = unat num - 247"
      using stop num assms(1,2) by (simp add: data_slice_Inr unat_add_small)
    have "s \<noteq> []" "length s \<le> 8"
      using s(2) num by auto
    then obtain n where "ParseUint (hex_EncodeToString s) 16 = Inr n"
      using ParseUint_hex by blast
    moreover have "unat (n + num - f7) \<le> 2 ^ 64 - 248" if "\<not> n + num < f7"
    proof -
      have "unat (n + num - f7) = unat (n + num) - 247" "247 \<le> unat (n + num)"
        using that unat_sub_small [of f7 "n + num"] by (simp_all add: f7_def word_less_nat_alt)
      moreover have "unat (n + num) \<le> 2 ^ 64 - 1"
        using unsigned_less [of "n + num", where ?'a = nat] by simp
      ultimately show ?thesis by simp
    qed
    ultimately show ?thesis
      using False inside s(1) by (auto simp: tx_length_def Let_def)
  qed
qed


lemma data_slice_of_nat:
  assumes "a \<le> b" "b \<le> length d" "length d < 2 ^ 62"
  shows "data_slice d (of_nat a) (of_nat b) = Inr (take (b - a) (drop a d))"
proof -
  have "unat (of_nat a :: u64) = a" "unat (of_nat b :: u64) = b"
    using assms by (simp_all add: unat_size)
  then show ?thesis
    using assms by (simp add: data_slice_inside)
qed

definition tx_tail :: "u64 \<Rightarrow> nat" where
  "tx_tail fork = (if fork \<ge> ForkID5Dragonfruit then 67 else 66)"

lemma take_1_drop: "i < length d \<Longrightarrow> take (Suc 0) (drop i d) = [d ! i]"
  by (simp add: take_Suc_conv_app_nth)

lemma tx_parts_inside:
  assumes "p + l + tx_tail fork \<le> length d" "length d < 2 ^ 62"
  shows "tx_parts d fork (of_nat p) (of_nat l) =
    Inr ((take (l + 1) (drop p d), take 32 (drop (p + l + 1) d), take 32 (drop (p + l + 33) d), [d ! (p + l + 65)]),
      if fork \<ge> ForkID5Dragonfruit then [d ! (p + l + 66)] else [], of_nat (p + l + tx_tail fork))"
proof -
  have pos: "of_nat p + of_nat l + headerByteLength = (of_nat (p + l + 1) :: u64)"
    "of_nat (p + l + 1) + rLength = (of_nat (p + l + 33) :: u64)"
    "of_nat (p + l + 33) + sLength = (of_nat (p + l + 65) :: u64)"
    "of_nat (p + l + 65) + vLength = (of_nat (p + l + 66) :: u64)"
    "of_nat (p + l + 66) + efficiencyPercentageByteLength = (of_nat (p + l + 67) :: u64)"
    "of_nat p + of_nat l + rLength + sLength + vLength + headerByteLength = (of_nat (p + l + 66) :: u64)"
    by (simp_all add: l2_consts)
  have less: "\<not> (of_nat (length d) :: u64) < of_nat (p + l + tx_tail fork)" "\<not> (of_nat (p + l + tx_tail fork) :: u64) < of_nat p"
    using assms by (simp_all add: word_less_nat_alt unat_size del: of_nat_add)
  have last: "nth_res (take 1 (drop (p + l + 66) d)) 0 = Inr (d ! (p + l + 66))" if "fork \<ge> ForkID5Dragonfruit"
    using assms(1) that by (simp add: tx_tail_def nth_res_def)
  show ?thesis
  proof (cases "fork \<ge> ForkID5Dragonfruit")
    case True
    then show ?thesis
      using assms less last by (simp add: tx_parts_def Let_def pos data_slice_of_nat tx_tail_def take_1_drop del: of_nat_add One_nat_def)
  next
    case False
    then show ?thesis
      using assms less by (simp add: tx_parts_def Let_def pos data_slice_of_nat tx_tail_def take_1_drop del: of_nat_add One_nat_def)
  qed
qed

lemma tx_parts_cases:
  assumes "p < length d" "length d < 2 ^ 62" "l \<le> 2 ^ 64 - 248" "\<not> p + l + tx_tail fork \<le> length d"
  shows "tx_parts d fork (of_nat p) (of_nat l) = Inl (Returning (Some ErrInvalidData))"
proof -
  define e :: u64 where "e = of_nat p + of_nat l + rLength + sLength + vLength + headerByteLength +
    (if fork \<ge> ForkID5Dragonfruit then efficiencyPercentageByteLength else 0)"
  have e: "e = of_nat (p + l + tx_tail fork)"
    by (simp add: e_def tx_tail_def l2_consts)
  have "unat e = (p + l + tx_tail fork) mod 2 ^ 64"
    by (simp add: e unat_of_nat del: of_nat_add)
  also have "\<dots> = (if p + l + tx_tail fork < 2 ^ 64 then p + l + tx_tail fork else p + l + tx_tail fork - 2 ^ 64)"
    using assms by (auto simp: mod_if tx_tail_def)
  finally have "e > of_nat (length d) \<or> e < of_nat p"
    using assms by (auto simp: word_less_nat_alt unat_size tx_tail_def split: if_splits)
  then show ?thesis
    by (auto simp: tx_parts_def Let_def e_def split: if_splits)
qed


lemma decode_fields_total:
  assumes "length b < 2 ^ 62"
  shows "\<exists>r. decode_fields b = Some r \<and> (\<forall>m. r \<noteq> Inl (Stream_error (Panic m)))"
proof -
  note start = Reset_start(1) [OF assms]
  let ?dec = "decodeListSlice ''[][]uint8'' (decodeByteSlice ''[]uint8'') (Suc (length b))"
  have "?dec (stream_Reset b (of_nat (length b))) \<noteq> None"
    by (rule byte_slice.list_returns [where m = "Suc (length b)", OF _ start]) (auto simp: stream_Reset_def decodeByteSlice_def leaf_decoder_def split: prod.splits sum.splits)
  then obtain r s where "?dec (stream_Reset b (of_nat (length b))) = Some (r, s)"
    by auto
  moreover from this have "r \<noteq> Inl (Stream_error (Panic m))" for m
    using byte_slice.list_no_panic [OF start] by metis
  ultimately show ?thesis
    by (auto simp: decode_fields_def DecodeBytes_def stream_Decode_def stream_errors split: sum.splits decode_err.splits)
qed

lemma rlpFieldsToLegacyTx_no_panic: "rlpFieldsToLegacyTx fs v r s \<noteq> Inl (Panic m)"
  by (simp add: rlpFieldsToLegacyTx_def Let_def ErrTxTypeNotSupported_def)

text \<open>One round of the loop: it moves forward, returns, or panics at a marker that is cut off.\<close>

definition l2_moves :: "bytes \<Rightarrow> nat \<Rightarrow> l2_exit + l2_state \<Rightarrow> bool" where
  "l2_moves d p r = (case r of
     Inl (Panicking m) \<Rightarrow> d ! p = changeL2BlockTxType \<and> length d < p + 9
   | Inl (Returning e) \<Rightarrow> True
   | Inr st' \<Rightarrow> p < unat (l2_pos st') \<and> unat (l2_pos st') \<le> length d)"

lemma BE_Uint32_4: "4 \<le> length s \<Longrightarrow> \<exists>x. BE_Uint32 s = Inr x"
  by (cases s rule: BE_Uint32.cases) auto

lemma change_block_moves:
  assumes "l2_pos st = of_nat p" "p < length d" "length d < 2 ^ 62" "d ! p = changeL2BlockTxType"
  shows "l2_moves d p (change_block d st)"
proof (cases "p + 9 \<le> length d")
  case True
  have pos: "(of_nat p :: u64) + 1 = of_nat (p + 1)" "(of_nat p :: u64) + 5 = of_nat (p + 5)" "(of_nat p :: u64) + 9 = of_nat (p + 9)"
    by simp_all
  have "unat (of_nat (p + 1) :: u64) = p + 1" "unat (of_nat (p + 9) :: u64) = p + 9"
    using True assms(3) by (simp_all add: unat_size del: of_nat_add of_nat_Suc)
  moreover obtain x where "BE_Uint32 (take 4 (drop (p + 1) d)) = Inr x"
    using BE_Uint32_4 [of "take 4 (drop (p + 1) d)"] True by auto
  moreover obtain y where "BE_Uint32 (take 4 (drop (p + 5) d)) = Inr y"
    using BE_Uint32_4 [of "take 4 (drop (p + 5) d)"] True by auto
  ultimately show ?thesis
    using True assms
    by (simp add: change_block_def Let_def pos data_slice_of_nat l2_moves_def changeL2BlockLength_def del: of_nat_add One_nat_def)
next
  case False
  have "unat ((of_nat p :: u64) + 9) = p + 9"
    using assms(2,3) by (simp add: unat_add_small unat_size)
  then have "change_block d st \<noteq> Inr st'" for st'
    using False assms(1) by (auto simp: change_block_def Let_def exit_bind_eq data_slice_Inr)
  then show ?thesis
    using False assms(4) by (cases "change_block d st") (auto simp: l2_moves_def split: l2_exit.splits)
qed

lemma unat_ucast_u8: "unat (ucast (b :: u8) :: u64) = unat b"
  using unsigned_less [of b, where ?'a = nat] by (simp add: unsigned_ucast_eq take_bit_nat_eq_self)

lemma u8_marker: "(ucast (b :: u8) :: u64) = ucast changeL2BlockTxType \<longleftrightarrow> b = changeL2BlockTxType"
  by (metis unat_ucast_u8 word_unat_eq_iff)

lemma data_slice_byte:
  assumes "p < length d" "length d < 2 ^ 62"
  shows "data_slice d (of_nat p) (of_nat p + 1) = Inr [d ! p]"
  using data_slice_of_nat [of p "p + 1" d] assms by (simp add: take_1_drop add.commute)

lemma l2_step_byte:
  assumes "l2_pos st = of_nat p" "p < length d" "length d < 2 ^ 62"
  shows "l2_step d fork st =
    (if d ! p = changeL2BlockTxType then Some (change_block d st) else
     (case exit_bind (tx_length d (of_nat p) (ucast (d ! p))) (tx_parts d fork (of_nat p)) of
        Inl e \<Rightarrow> Some (Inl e)
      | Inr parts \<Rightarrow> add_tx st parts))"
  using assms by (simp add: l2_step_def Let_def data_slice_byte ParseUint_byte u8_marker)

lemma add_tx_moves:
  assumes "length (fst (fst parts)) < 2 ^ 62" "p < unat (snd (snd parts))" "unat (snd (snd parts)) \<le> length d"
  shows "\<exists>r. add_tx st parts = Some r \<and> l2_moves d p r"
proof -
  obtain txInfo rData sData vData eff endPos where parts: "parts = ((txInfo, rData, sData, vData), eff, endPos)"
    by (metis prod.collapse)
  obtain r where r: "decode_fields txInfo = Some r" "\<forall>m. r \<noteq> Inl (Stream_error (Panic m))"
    using decode_fields_total [of txInfo] assms(1) parts by auto
  show ?thesis
  proof (cases r)
    case (Inl e)
    then show ?thesis
      using r by (auto simp: add_tx_def parts l2_moves_def split: decode_err.splits go_error.splits)
  next
    case (Inr fs)
    show ?thesis
    proof (cases "rlpFieldsToLegacyTx fs vData rData sData")
      case (Inl e)
      then show ?thesis
        using r Inr rlpFieldsToLegacyTx_no_panic by (cases e) (auto simp: add_tx_def parts l2_moves_def)
    next
      case (Inr t)
      then show ?thesis
        using r \<open>r = Inr fs\<close> assms by (simp add: add_tx_def parts l2_moves_def Let_def)
    qed
  qed
qed

lemma l2_step_moves:
  assumes "l2_pos st = of_nat p" "p < length d" "length d < 2 ^ 62"
  shows "\<exists>r. l2_step d fork st = Some r \<and> l2_moves d p r"
proof (cases "d ! p = changeL2BlockTxType")
  case True
  then show ?thesis
    using change_block_moves [OF assms] l2_step_byte [OF assms] by simp
next
  case False
  define num :: u64 where "num = ucast (d ! p)"
  have "num < 256"
    unfolding num_def using unsigned_less [of "d ! p", where ?'a = nat] by (simp add: word_less_nat_alt unat_ucast_u8)
  moreover have "unat (of_nat p :: u64) = p"
    using assms by (simp add: unat_size)
  ultimately consider (stop) err where "tx_length d (of_nat p) num = Inl (Returning err)"
    | (len) len where "tx_length d (of_nat p) num = Inr len" "unat len \<le> 2 ^ 64 - 248"
    using tx_length_cases [of "of_nat p" d num] assms by auto
  then show ?thesis
  proof cases
    case stop
    then show ?thesis
      using l2_step_byte [OF assms, of fork] False by (simp add: l2_moves_def flip: num_def)
  next
    case (len w)
    then have l: "w = of_nat (unat w)" "unat w \<le> 2 ^ 64 - 248"
      by simp_all
    then obtain l where l: "w = of_nat l" "l \<le> 2 ^ 64 - 248"
      by blast
    show ?thesis
    proof (cases "p + l + tx_tail fork \<le> length d")
      case True
      let ?e = "p + l + tx_tail fork"
      have "unat (of_nat ?e :: u64) = ?e" "p < ?e"
        using True assms(3) by (simp_all add: unat_size tx_tail_def del: of_nat_add)
      then show ?thesis
        using l2_step_byte [OF assms, of fork] tx_parts_inside [OF True assms(3)] add_tx_moves [of _ p d st] True assms(3) len l False
        by (simp add: flip: num_def)
    next
      case out: False
      then show ?thesis
        using l2_step_byte [OF assms, of fork] tx_parts_cases [OF assms(2,3) l(2) out] len l False
        by (simp add: l2_moves_def flip: num_def)
    qed
  qed
qed


lemma l2_loop_returns:
  assumes "l2_pos st = of_nat p" "p \<le> length d" "length d < 2 ^ 62"
  shows "\<exists>r. l2_loop d fork st = Some r \<and> (case r of
     Inl (Panic m) \<Rightarrow> \<exists>i < length d. d ! i = changeL2BlockTxType \<and> length d < i + 9
   | Inl (Error m) \<Rightarrow> False
   | Inr _ \<Rightarrow> True)"
  using assms(1,2)
proof (induction "length d - p" arbitrary: p st rule: less_induct)
  case less
  have pos: "l2_pos st < of_nat (length d) \<longleftrightarrow> p < length d"
    using less.prems assms(3) by (simp add: word_less_nat_alt unat_size)
  show ?case
  proof (cases "p < length d")
    case True
    obtain r where r: "l2_step d fork st = Some r" "l2_moves d p r"
      using l2_step_moves [OF less.prems(1) True assms(3)] by blast
    consider m where "r = Inl (Panicking m)" | e where "r = Inl (Returning e)" | st' where "r = Inr st'"
      by (metis l2_exit.exhaust sum.exhaust)
    then show ?thesis
    proof cases
      case (3 st')
      then have "p < unat (l2_pos st')" "unat (l2_pos st') \<le> length d"
        using r(2) by (simp_all add: l2_moves_def)
      then have "\<exists>r. l2_loop d fork st' = Some r \<and> (case r of
         Inl (Panic m) \<Rightarrow> \<exists>i < length d. d ! i = changeL2BlockTxType \<and> length d < i + 9
       | Inl (Error m) \<Rightarrow> False
       | Inr _ \<Rightarrow> True)"
        using True by (intro less.hyps [of "unat (l2_pos st')"]) auto
      moreover have "l2_loop d fork st = l2_loop d fork st'"
        using 3 r(1) pos True by (subst l2_loop.simps) simp
      ultimately show ?thesis
        by simp
    qed (use r pos True in \<open>auto simp: l2_loop.simps [of d fork st] l2_moves_def\<close>)
  next
    case False
    then show ?thesis
      using pos by (subst l2_loop.simps) simp
  qed
qed

end
