(* ===== verification/L2_Blocks.thy ===== *)
theory L2_Blocks
  imports L2_Data
begin
unbundle bit_operations_syntax

text \<open>
  What \<^verbatim>\<open>DecodeBatchL2Blocks\<close> (\<^verbatim>\<open>src/zk/tx/tx.go\<close>) reads from the blocks that \<^verbatim>\<open>GenerateBlockBatchL2Data\<close> writes, and its
  results on every input and on inputs that are cut off.
\<close>

section \<open>Written blocks are read back\<close>

text \<open>
  A legacy transaction as it is signed: the recovery value is 27 or 28 or follows EIP-155. What is read back has the
  chain id of its recovery value, and a value even if none was given.
\<close>

definition signed_tx :: "legacy_tx \<Rightarrow> bool" where
  "signed_tx t \<longleftrightarrow> (ct_V t = 27 \<or> ct_V t = 28 \<or> 35 \<le> ct_V t) \<and> lt_GasPrice t \<noteq> None \<and>
     (case ct_To t of None \<Rightarrow> True | Some a \<Rightarrow> length a = 20) \<and> length (ct_Data t) < 2 ^ 61"

definition as_read :: "legacy_tx \<Rightarrow> legacy_tx" where
  "as_read t = t\<lparr>ct_ChainID := Some (DeriveChainId (ct_V t)),
     ct_Value := Some (case ct_Value t of None \<Rightarrow> 0 | Some x \<Rightarrow> x)\<rparr>"

lemma DeriveChainId_signed:
  assumes "35 \<le> v"
  shows "uint (DeriveChainId v) = (uint v - 35) div 2"
proof -
  have v: "35 \<le> uint v"
    using assms by (simp add: word_le_def)
  show ?thesis
  proof (cases "IsUint64 v")
    case True
    then have less: "uint v < 2 ^ 64"
      by (simp add: IsUint64_def nat_less_iff flip: nat_uint_eq)
    have "uint (ucast v :: u64) = uint v"
      using less by (simp add: unsigned_ucast_eq take_bit_int_eq_self)
    moreover from this have "uint ((ucast v :: u64) - 35) = uint v - 35"
      using v by (subst uint_sub_if') simp
    moreover have "ucast v \<noteq> (27 :: u64)" "ucast v \<noteq> (28 :: u64)"
      using v \<open>uint (ucast v :: u64) = uint v\<close> by auto
    ultimately have d: "DeriveChainId v = ucast (((ucast v :: u64) - 35) div 2)"
      "uint (((ucast v :: u64) - 35) div 2) = (uint v - 35) div 2"
      using True by (simp_all add: DeriveChainId_def Let_def uint_div_distrib)
    have "(uint v - 35) div 2 < 2 ^ 256"
      using less v by simp
    then show ?thesis
      using d v by (simp add: unsigned_ucast_eq take_bit_int_eq_self)
  next
    case False
    then show ?thesis
      using v by (simp add: DeriveChainId_def uint_div_distrib uint_sub_if')
  qed
qed

lemma DeriveChainId_unprotected: "DeriveChainId 27 = 0" "DeriveChainId 28 = 0"
  by (simp_all add: DeriveChainId_def IsUint64_def)

lemma isProtectedV_signed: "35 \<le> v \<Longrightarrow> isProtectedV v"
  by (auto simp: isProtectedV_def Let_def unat_arith_simps unsigned_ucast_eq take_bit_nat_eq_self)

lemma isProtectedV_unprotected: "\<not> isProtectedV 27" "\<not> isProtectedV 28"
  by (simp_all add: isProtectedV_def)


text \<open>The fields of a transaction and its recovery byte.\<close>

definition tx_fields :: "legacy_tx \<Rightarrow> bytes list" where
  "tx_fields t =
     [removeLeadingZeroesFromBytes (PutUint64 (ct_Nonce t)), removeLeadingZeroesFromBytes (uint256_Bytes (the (lt_GasPrice t))),
      removeLeadingZeroesFromBytes (PutUint64 (ct_Gas t)), (case ct_To t of None \<Rightarrow> [] | Some a \<Rightarrow> a),
      removeLeadingZeroesFromBytes (uint256_Bytes (case ct_Value t of None \<Rightarrow> 0 | Some x \<Rightarrow> x)), ct_Data t] @
     (if ct_V t = 27 \<or> ct_V t = 28 then []
      else [removeLeadingZeroesFromBytes (uint256_Bytes (DeriveChainId (ct_V t))), [], []])"

definition tx_v :: "legacy_tx \<Rightarrow> u8" where
  "tx_v t = (if ct_V t = 27 then 27 else if ct_V t = 28 then 28 else if even (uint (ct_V t) - 35) then 27 else 28)"

lemma big_Bytes_byte: "0 < x \<Longrightarrow> x < 256 \<Longrightarrow> big_Bytes x = [word_of_int x]"
  by (simp add: big_Bytes_def nat_bytes_step)

lemma GetDecodedV_signed:
  assumes "signed_tx t"
  shows "\<exists>v. GetDecodedV (LegacyTx_methods t) (ct_V t) = Inr v \<and> big_Bytes (uint v) = [tx_v t]"
proof -
  consider "ct_V t = 27" | "ct_V t = 28" | "35 \<le> ct_V t"
    using assms by (auto simp: signed_tx_def)
  then show ?thesis
  proof cases
    case 3
    have "35 \<le> uint (ct_V t)"
      using 3 by (simp add: word_le_def)
    then have n: "ct_V t \<noteq> 27" "ct_V t \<noteq> 28"
      by auto
    have "GetDecodedV (LegacyTx_methods t) (ct_V t) =
        Inr (uint256_FromBig (uint (ct_V t) + 27 - uint (DeriveChainId (ct_V t)) * 2 - 35))"
      using isProtectedV_signed [OF 3] by (simp add: GetDecodedV_def LegacyTx_methods_def l2_consts)
    also have "uint (ct_V t) + 27 - uint (DeriveChainId (ct_V t)) * 2 - 35 = (if even (uint (ct_V t) - 35) then 27 else 28)"
      unfolding DeriveChainId_signed [OF 3] by presburger
    finally show ?thesis
      using n by (auto simp: uint256_FromBig_def tx_v_def big_Bytes_byte)
  qed (simp_all add: GetDecodedV_def LegacyTx_methods_def isProtectedV_unprotected tx_v_def big_Bytes_byte)
qed

lemma TransactionToL2Data_signed:
  assumes "signed_tx t"
  shows "TransactionToL2Data (LegacyTx_methods t) forkId pct =
    Inr (EncodeToBytes (Lst (map Str (tx_fields t))) @ uint256_Bytes32 (ct_R t) @ uint256_Bytes32 (ct_S t) @ [tx_v t] @
      (if forkId \<ge> 5 then [pct] else []))"
proof -
  obtain v where v: "GetDecodedV (LegacyTx_methods t) (ct_V t) = Inr v" "big_Bytes (uint v) = [tx_v t]"
    using GetDecodedV_signed [OF assms] by blast
  have "DeriveChainId (ct_V t) = 0" if "ct_V t = 27 \<or> ct_V t = 28"
    using that DeriveChainId_unprotected by auto
  then show ?thesis
    using assms v
    by (auto simp: TransactionToL2Data_def LegacyTx_methods_def [of t] tx_fields_def signed_tx_def Let_def l2_consts
        Uint8ToBytes_def Uint64ToBytes_def)
qed

lemmas read_simps = rlpFieldsToLegacyTx_def tx_fields_def as_read_def Let_def l2_consts big_SetBytes_Bytes
  uint256_FromBig_def uint256_SetBytes_def big_SetBytes_def [of "[_]"]

lemma rlpFieldsToLegacyTx_signed:
  assumes "signed_tx t"
  shows "rlpFieldsToLegacyTx (tx_fields t) [tx_v t] (uint256_Bytes32 (ct_R t)) (uint256_Bytes32 (ct_S t)) = Inr (as_read t)"
proof -
  obtain g where g: "lt_GasPrice t = Some g"
    using assms by (auto simp: signed_tx_def)
  have to: "(if length (case ct_To t of None \<Rightarrow> [] | Some a \<Rightarrow> a) \<noteq> 0
      then Some (BytesToAddress (case ct_To t of None \<Rightarrow> [] | Some a \<Rightarrow> a)) else None) = ct_To t"
    using assms by (auto simp: signed_tx_def BytesToAddress_id split: option.splits)
  consider "ct_V t = 27" | "ct_V t = 28" | "35 \<le> ct_V t"
    using assms by (auto simp: signed_tx_def)
  then show ?thesis
  proof cases
    case 3
    have v: "35 \<le> uint (ct_V t)"
      using 3 by (simp add: word_le_def)
    then have n: "ct_V t \<noteq> 27" "ct_V t \<noteq> 28"
      by auto
    have "uint (tx_v t) = (if even (uint (ct_V t) - 35) then 27 else 28)"
      using n by (simp add: tx_v_def)
    then have "uint (tx_v t) - 27 + (uint (DeriveChainId (ct_V t)) * 2 + 35) = uint (ct_V t)"
      unfolding DeriveChainId_signed [OF 3] by presburger
    then show ?thesis
      using n g to by (cases t) (simp add: read_simps split: if_splits)
  qed (use g to in \<open>cases t; simp add: read_simps tx_v_def DeriveChainId_unprotected split: if_splits\<close>)+
qed


lemma ucast_nat_u8:
  assumes "unat (b :: u8) = n"
  shows "(ucast b :: u64) = of_nat n"
proof -
  have "n < 2 ^ 64"
    using assms unsigned_less [of b, where ?'a = nat] by simp
  then show ?thesis
    using assms by (simp add: word_unat_eq_iff unat_ucast_u8 unat_size)
qed

lemma marker_less: "11 < unat b \<Longrightarrow> b \<noteq> changeL2BlockTxType"
  by (auto simp: changeL2BlockTxType_def)

text \<open>The length that is read from the header of a list.\<close>

lemma tx_length_short:
  assumes "d = pre @ puthead 0xC0 0xF7 (of_nat n) @ rest" "n < 56"
  shows "tx_length d (of_nat (length pre)) (ucast (d ! length pre)) = Inr (of_nat n) \<and> d ! length pre \<noteq> changeL2BlockTxType"
proof -
  have "d ! length pre = 0xC0 + of_nat n"
    using assms by (simp add: puthead_def word_less_nat_alt unat_size ucast_size)
  moreover have b: "unat (0xC0 + of_nat n :: u8) = 192 + n"
    using assms(2) by (simp add: unat_word_ariths unat_of_nat)
  moreover have "\<not> (of_nat (192 + n) :: u64) < 192" "\<not> (of_nat (192 + n) :: u64) - 192 > 55"
    using assms(2) by (simp_all add: word_less_nat_alt unat_size unat_sub_small del: of_nat_add)
  moreover have "(0xC0 + of_nat n :: u8) \<noteq> changeL2BlockTxType"
    by (rule marker_less) (simp add: b)
  ultimately show ?thesis
    by (simp add: tx_length_def l2_consts Let_def ucast_nat_u8 [OF b])
qed

lemma tx_length_long:
  assumes "d = pre @ puthead 0xC0 0xF7 (of_nat n) @ rest" "56 \<le> n" "n < 2 ^ 62" "length d < 2 ^ 62"
  shows "tx_length d (of_nat (length pre)) (ucast (d ! length pre)) =
      Inr (of_nat (length (putint (of_nat n)) + n)) \<and> d ! length pre \<noteq> changeL2BlockTxType"
proof -
  define sz :: u64 where "sz = of_nat n"
  define k where "k = length (putint sz)"
  have sz: "unat sz = n"
    using assms(3) by (simp add: sz_def unat_size)
  then have "\<not> sz < 56" "sz \<noteq> 0"
    using assms(2) by (auto simp: word_less_nat_alt)
  then have k: "1 \<le> k" "k \<le> 8" and bytes: "be_word (putint sz) = sz"
    using length_putint [of sz] by (auto simp: k_def putint_nat_bytes be_word_nat_bytes)
  have d: "d = pre @ (0xF7 + of_nat k) # putint sz @ rest"
    using \<open>\<not> sz < 56\<close> by (simp add: assms(1) puthead_def k_def Let_def flip: sz_def)
  have b: "unat (0xF7 + of_nat k :: u8) = 247 + k"
    using k by (simp add: unat_word_ariths unat_of_nat)
  have c: "\<not> (of_nat (247 + k) :: u64) < 192" "(of_nat (247 + k) :: u64) - 192 > 55"
    using k by (simp_all add: word_less_nat_alt unat_size unat_sub_small del: of_nat_add)
  have stop: "of_nat (length pre) + 1 + of_nat (247 + k) - 247 = (of_nat (length pre + 1 + k) :: u64)"
    by simp
  have "length pre + 1 + k \<le> length d"
    by (simp add: d k_def)
  then have inside: "\<not> (of_nat (length d) :: u64) < of_nat (length pre + 1 + k)"
    using assms(4) by (simp add: word_less_nat_alt unat_size del: of_nat_add of_nat_Suc)
  have slice: "data_slice d (of_nat (length pre) + 1) (of_nat (length pre + 1 + k)) = Inr (putint sz)"
    using data_slice_of_nat [OF _ \<open>length pre + 1 + k \<le> length d\<close> assms(4), of "length pre + 1"]
    by (simp add: d k_def add.commute)
  have parse: "ParseUint (hex_EncodeToString (putint sz)) 16 = Inr sz"
    using ParseUint_hex [of "putint sz"] k bytes by (cases "putint sz") (simp_all add: k_def)
  have "\<not> of_nat (n + (247 + k)) < (247 :: u64)"
    using assms(3) k by (simp add: word_less_nat_alt unat_size del: of_nat_add)
  then have "\<not> sz + of_nat (247 + k) < 247"
    by (simp add: sz_def)
  moreover have "(0xF7 + of_nat k :: u8) \<noteq> changeL2BlockTxType"
    by (rule marker_less) (simp add: b)
  ultimately show ?thesis
    using c inside slice parse stop
    by (simp add: tx_length_def l2_consts Let_def d ucast_nat_u8 [OF b] flip: k_def sz_def)
qed

lemma tx_length_enc:
  assumes "d = pre @ rlp_enc (Lst xs) @ rest" "length d < 2 ^ 62"
  shows "tx_length d (of_nat (length pre)) (ucast (d ! length pre)) = Inr (of_nat (length (rlp_enc (Lst xs)) - 1)) \<and>
    d ! length pre \<noteq> changeL2BlockTxType"
proof -
  define payload where "payload = concat (map rlp_enc xs)"
  have enc: "rlp_enc (Lst xs) = puthead 0xC0 0xF7 (of_nat (length payload)) @ payload"
    by (simp add: payload_def Let_def)
  then have d: "d = pre @ puthead 0xC0 0xF7 (of_nat (length payload)) @ payload @ rest"
    using assms(1) by (simp del: rlp_enc.simps)
  then have n: "length payload < 2 ^ 62"
    using assms(2) by simp
  show ?thesis
  proof (cases "length payload < 56")
    case True
    then show ?thesis
      using tx_length_short [OF d True] by (simp add: enc puthead_def word_less_nat_alt unat_size del: rlp_enc.simps)
  next
    case False
    then show ?thesis
      using tx_length_long [OF d _ n assms(2)] n
      by (simp add: enc puthead_def word_less_nat_alt unat_size Let_def del: rlp_enc.simps)
  qed
qed


text \<open>One transaction, the transactions of a block, and the marker of a block.\<close>

definition tx_bytes :: "u64 \<Rightarrow> legacy_tx \<times> u8 \<Rightarrow> bytes" where
  "tx_bytes fork tp = (case tp of (t, pct) \<Rightarrow>
     rlp_enc (Lst (map Str (tx_fields t))) @ uint256_Bytes32 (ct_R t) @ uint256_Bytes32 (ct_S t) @ [tx_v t] @
     (if fork \<ge> ForkID5Dragonfruit then [pct] else []))"

definition read_txs :: "u64 \<Rightarrow> (legacy_tx \<times> u8) list \<Rightarrow> batch_data \<Rightarrow> batch_data" where
  "read_txs fork ts cur = cur\<lparr>
     EffectiveGasPricePercentages := EffectiveGasPricePercentages cur @ (if fork \<ge> ForkID5Dragonfruit then map snd ts else []),
     Transactions := Transactions cur @ map (as_read \<circ> fst) ts\<rparr>"

lemma l2_step_enc:
  assumes "d = pre @ tx_bytes fork (t, pct) @ rest" "length d < 2 ^ 62" "signed_tx t" "l2_pos st = of_nat (length pre)"
  shows "l2_step d fork st = Some (Inr (st\<lparr>l2_pos := of_nat (length pre + length (tx_bytes fork (t, pct))),
     l2_current := read_txs fork [(t, pct)] (l2_current st)\<rparr>))"
proof -
  note rlp_enc.simps [simp del] map_map [simp del]
  let ?xs = "map Str (tx_fields t)"
  define enc where "enc = rlp_enc (Lst ?xs)"
  define p where "p = length pre"
  obtain l where l: "length enc = Suc l"
    using rlp_enc_nonempty [of "Lst ?xs"] by (metis enc_def length_0_conv nat.exhaust)
  have d: "d = pre @ enc @ uint256_Bytes32 (ct_R t) @ uint256_Bytes32 (ct_S t) @ [tx_v t] @
      (if fork \<ge> ForkID5Dragonfruit then [pct] else []) @ rest"
    using assms(1) by (simp add: tx_bytes_def enc_def)
  have len: "length (tx_bytes fork (t, pct)) = l + tx_tail fork"
    using l by (simp add: tx_bytes_def tx_tail_def flip: enc_def)
  have num: "tx_length d (of_nat p) (ucast (d ! p)) = Inr (of_nat l)" "d ! p \<noteq> changeL2BlockTxType"
    using tx_length_enc [of d pre ?xs, OF _ assms(2)] l d by (auto simp: p_def simp flip: enc_def)
  have inside: "p + l + tx_tail fork \<le> length d" "p < length d"
    using assms(1) len by (simp_all add: p_def tx_tail_def)
  have parts: "take (l + 1) (drop p d) = enc" "take 32 (drop (p + l + 1) d) = uint256_Bytes32 (ct_R t)"
    "take 32 (drop (p + l + 33) d) = uint256_Bytes32 (ct_S t)" "d ! (p + l + 65) = tx_v t"
    "fork \<ge> ForkID5Dragonfruit \<Longrightarrow> d ! (p + l + 66) = pct"
    using l by (simp_all add: d p_def nth_append)
  have "decode_fields enc = Some (Inr (tx_fields t))"
    using DecodeBytes_fields [of enc "Suc (length enc)"] assms(2) by (auto simp: decode_fields_def enc_def d)
  then show ?thesis
    using l2_step_byte [of st p d fork] assms(2,4) inside num tx_parts_inside [OF inside(1) assms(2)] parts len
      rlpFieldsToLegacyTx_signed [OF assms(3)]
    by (simp add: add_tx_def p_def Let_def read_txs_def)
qed


lemma l2_loop_step:
  assumes "l2_pos st = of_nat p" "p < length d" "length d < 2 ^ 62" "l2_step d fork st = Some (Inr st')"
  shows "l2_loop d fork st = l2_loop d fork st'"
proof -
  have "l2_pos st < of_nat (length d)"
    using assms(1-3) by (simp add: word_less_nat_alt unat_size)
  then show ?thesis
    using assms(4) by (subst l2_loop.simps) simp
qed

lemma read_txs_append: "read_txs fork ts (read_txs fork [tp] cur) = read_txs fork (tp # ts) cur"
  by (simp add: read_txs_def)

lemma tx_bytes_nonempty: "tx_bytes fork tp \<noteq> []"
  by (simp add: tx_bytes_def split: prod.splits)

lemma l2_loop_txs:
  assumes "d = pre @ concat (map (tx_bytes fork) ts) @ rest" "length d < 2 ^ 62" "\<forall>(t, _) \<in> set ts. signed_tx t"
    "l2_pos st = of_nat (length pre)"
  shows "l2_loop d fork st = l2_loop d fork (st\<lparr>l2_pos := of_nat (length pre + length (concat (map (tx_bytes fork) ts))),
     l2_current := read_txs fork ts (l2_current st)\<rparr>)"
  using assms(1,3,4)
proof (induction ts arbitrary: pre st)
  case Nil
  then show ?case
    by (cases st) (simp add: read_txs_def)
next
  case (Cons tp ts)
  obtain t pct where tp: "tp = (t, pct)" by fastforce
  let ?pre = "pre @ tx_bytes fork tp"
  define st' where "st' = st\<lparr>l2_pos := of_nat (length ?pre), l2_current := read_txs fork [tp] (l2_current st)\<rparr>"
  have "l2_step d fork st = Some (Inr st')"
    using l2_step_enc [of d pre fork t pct "concat (map (tx_bytes fork) ts) @ rest"] Cons.prems assms(2)
    by (simp add: tp st'_def)
  moreover have "length pre < length d"
    using Cons.prems(1) tx_bytes_nonempty [of fork tp] by simp
  ultimately have "l2_loop d fork st = l2_loop d fork st'"
    using Cons.prems(3) assms(2) by (intro l2_loop_step)
  also have "\<dots> = l2_loop d fork (st'\<lparr>l2_pos := of_nat (length ?pre + length (concat (map (tx_bytes fork) ts))),
     l2_current := read_txs fork ts (l2_current st')\<rparr>)"
    using Cons.prems(1,2) by (intro Cons.IH) (auto simp: st'_def)
  finally show ?case
    by (simp add: st'_def read_txs_append add.assoc)
qed

text \<open>A block is the marker and its transactions.\<close>

type_synonym l2_block = "u32 \<times> u32 \<times> (legacy_tx \<times> u8) list"

definition block_bytes :: "u64 \<Rightarrow> l2_block \<Rightarrow> bytes" where
  "block_bytes fork b = (case b of (delta, index, ts) \<Rightarrow>
     GenerateStartBlockBatchL2Data delta index @ concat (map (tx_bytes fork) ts))"

definition read_block :: "u64 \<Rightarrow> l2_block \<Rightarrow> batch_data" where
  "read_block fork b = (case b of (delta, index, ts) \<Rightarrow>
     (read_txs fork ts no_data)\<lparr>DeltaTimestamp := delta, L1InfoTreeIndex := index\<rparr>)"

lemma length_marker [simp]: "length (GenerateStartBlockBatchL2Data delta index) = 9"
  by (simp add: GenerateStartBlockBatchL2Data_def AppendUint32_def)

lemma marker_nonempty [simp]: "GenerateStartBlockBatchL2Data delta index \<noteq> []"
  by (simp add: GenerateStartBlockBatchL2Data_def AppendUint32_def)

lemma change_block_enc:
  assumes "d = pre @ GenerateStartBlockBatchL2Data delta index @ rest" "length d < 2 ^ 62" "l2_pos st = of_nat (length pre)"
  shows "l2_step d fork st = Some (Inr (
     (if pre \<noteq> [] \<or> ucast (drop_bit 24 delta) = changeL2BlockTxType
      then st\<lparr>l2_result := l2_captured st, l2_current := no_data\<rparr> else st)
     \<lparr>l2_delta := delta, l2_index := index, l2_pos := of_nat (length pre + 9)\<rparr>))"
proof -
  define p where "p = length pre"
  have d: "d = pre @ changeL2BlockTxType # ucast (drop_bit 24 delta) # ucast (drop_bit 16 delta) # ucast (drop_bit 8 delta) #
      ucast delta # ucast (drop_bit 24 index) # ucast (drop_bit 16 index) # ucast (drop_bit 8 index) # ucast index # rest"
    by (simp add: assms(1) GenerateStartBlockBatchL2Data_def AppendUint32_def)
  have len: "p + 9 \<le> length d"
    by (simp add: d p_def)
  have pos: "(of_nat p :: u64) + 1 = of_nat (p + 1)" "(of_nat p :: u64) + 5 = of_nat (p + 5)" "(of_nat p :: u64) + 9 = of_nat (p + 9)"
    by simp_all
  have nat: "unat (of_nat (p + 1) :: u64) = p + 1" "(0 < (of_nat p :: u64)) = (pre \<noteq> [])"
    using len assms(2) by (simp_all add: unat_size word_less_nat_alt p_def del: of_nat_add of_nat_Suc)
  have bytes: "d ! p = changeL2BlockTxType" "d ! (p + 1) = ucast (drop_bit 24 delta)"
    "BE_Uint32 (take 4 (drop (p + 1) d)) = Inr delta" "BE_Uint32 (take 4 (drop (p + 5) d)) = Inr index"
    by (simp_all add: d p_def nth_append BE_Uint32_append del: BE_Uint32.simps)
  show ?thesis
    using l2_step_byte [of st p d fork] assms(2,3) len bytes(1) nat bytes
    by (simp add: change_block_def Let_def pos data_slice_of_nat changeL2BlockLength_def flip: p_def
        del: of_nat_add One_nat_def BE_Uint32.simps)
qed


lemma l2_loop_blocks:
  assumes "d = pre @ concat (map (block_bytes fork) bs)" "length d < 2 ^ 62" "\<forall>(_, _, ts) \<in> set bs. \<forall>(t, _) \<in> set ts. signed_tx t"
    "l2_pos st = of_nat (length pre)" "pre \<noteq> []"
  shows "l2_loop d fork st = Some (Inr (l2_captured st @ map (read_block fork) bs, None))"
  using assms(1,3-5)
proof (induction bs arbitrary: pre st)
  case Nil
  then show ?case
    by (subst l2_loop.simps) simp
next
  case (Cons b bs)
  obtain delta index ts where b: "b = (delta, index, ts)" by (cases b)
  let ?marker = "GenerateStartBlockBatchL2Data delta index"
  let ?txs = "concat (map (tx_bytes fork) ts)"
  let ?rest = "concat (map (block_bytes fork) bs)"
  have d: "d = pre @ ?marker @ ?txs @ ?rest"
    using Cons.prems(1) by (simp add: block_bytes_def [of fork "(_, _, _)"] b)
  define st1 where "st1 = st\<lparr>l2_result := l2_captured st, l2_current := no_data, l2_delta := delta, l2_index := index,
    l2_pos := of_nat (length (pre @ ?marker))\<rparr>"
  define st2 where "st2 = st1\<lparr>l2_pos := of_nat (length (pre @ ?marker @ ?txs)), l2_current := read_txs fork ts no_data\<rparr>"
  have "l2_step d fork st = Some (Inr st1)"
    using change_block_enc [OF d assms(2) Cons.prems(3)] Cons.prems(4) by (simp add: st1_def)
  moreover have "length pre < length d"
    by (simp add: d)
  ultimately have "l2_loop d fork st = l2_loop d fork st1"
    using Cons.prems(3) assms(2) by (intro l2_loop_step)
  also have "\<dots> = l2_loop d fork st2"
    using l2_loop_txs [of d "pre @ ?marker" fork ts ?rest st1] d assms(2) Cons.prems(2) by (simp add: b st1_def st2_def add.assoc)
  also have "\<dots> = Some (Inr (l2_captured st2 @ map (read_block fork) bs, None))"
    using Cons.prems(2) by (intro Cons.IH [of "pre @ ?marker @ ?txs"]) (auto simp: d st2_def Cons.prems(4))
  also have "l2_captured st2 = l2_captured st @ [read_block fork b]"
    by (simp add: l2_captured_def st2_def st1_def read_block_def b)
  finally show ?case
    by simp
qed

lemma DecodeBatchL2Blocks_blocks:
  assumes "\<forall>(_, _, ts) \<in> set ((delta, index, ts) # bs). \<forall>(t, _) \<in> set ts. signed_tx t"
    "d = concat (map (block_bytes fork) ((delta, index, ts) # bs))" "length d < 2 ^ 62"
  shows "DecodeBatchL2Blocks d fork = Some (Inr (
     (if ucast (drop_bit 24 delta) = changeL2BlockTxType then [no_data] else []) @
     map (read_block fork) ((delta, index, ts) # bs), None))"
proof -
  let ?marker = "GenerateStartBlockBatchL2Data delta index"
  let ?txs = "concat (map (tx_bytes fork) ts)"
  let ?rest = "concat (map (block_bytes fork) bs)"
  define st where "st = \<lparr>l2_pos = 0, l2_result = [], l2_current = no_data, l2_delta = 0, l2_index = 0\<rparr>"
  define res where "res = (if ucast (drop_bit 24 delta) = changeL2BlockTxType then [no_data] else [])"
  define st1 where "st1 = \<lparr>l2_pos = 9, l2_result = res, l2_current = no_data, l2_delta = delta, l2_index = index\<rparr>"
  have d: "d = ?marker @ ?txs @ ?rest"
    using assms(2) by (simp add: block_bytes_def [of fork "(_, _, _)"])
  define st2 where "st2 = st1\<lparr>l2_pos := of_nat (length (?marker @ ?txs)), l2_current := read_txs fork ts no_data\<rparr>"
  have "l2_step d fork st = Some (Inr st1)"
    using change_block_enc [of d "[]" delta index "?txs @ ?rest" st fork] d assms(3)
    by (simp add: st_def st1_def res_def l2_captured_def no_data_def)
  then have "l2_loop d fork st = l2_loop d fork st1"
    using assms(3) by (intro l2_loop_step [where p = 0]) (auto simp: st_def d)
  also have "\<dots> = l2_loop d fork st2"
    using l2_loop_txs [of d ?marker fork ts ?rest st1] d assms(1,3) by (simp add: st1_def st2_def)
  also have "\<dots> = Some (Inr (l2_captured st2 @ map (read_block fork) bs, None))"
    using assms(1,3) by (intro l2_loop_blocks [of _ "?marker @ ?txs"]) (auto simp: d st2_def)
  also have "l2_captured st2 = res @ [read_block fork (delta, index, ts)]"
    by (simp add: l2_captured_def st2_def st1_def read_block_def)
  finally show ?thesis
    by (simp add: DecodeBatchL2Blocks_def d res_def flip: st_def)
qed

lemma length_removeLeadingZeroes: "length (removeLeadingZeroesFromBytes bs) \<le> length bs"
  by (induction bs) auto

lemma length_enc_Str: "length (rlp_enc (Str b)) \<le> length b + 9"
  using headsize_range [of "of_nat (length b)"] by (simp add: length_puthead)

lemma unat_ucast_u16: "unat (ucast (w :: u16) :: u64) = unat w"
  using unsigned_less [of w, where ?'a = nat] by (simp add: unsigned_ucast_eq take_bit_nat_eq_self)

lemma length_enc_fields: "length (rlp_enc (Lst (map Str fs))) \<le> 9 + (sum_list (map length fs) + 9 * length fs)"
proof -
  have "length (concat (map rlp_enc (map Str fs))) \<le> sum_list (map length fs) + 9 * length fs"
  proof (induction fs)
    case (Cons f fs)
    then show ?case
      using length_enc_Str [of f] by (simp del: rlp_enc.simps)
  qed simp
  then show ?thesis
    using headsize_range [of "of_nat (length (concat (map rlp_enc (map Str fs))))"]
    unfolding rlp_enc.simps Let_def length_append length_puthead by linarith
qed

lemma tx_fields_fit:
  assumes "signed_tx t"
  shows "length (rlp_enc (Lst (map Str (tx_fields t)))) \<le> length (ct_Data t) + 222"
proof -
  have zeroes: "length (removeLeadingZeroesFromBytes (PutUint64 x)) \<le> 8"
    "length (removeLeadingZeroesFromBytes (uint256_Bytes y)) \<le> 32" for x y
    using length_removeLeadingZeroes [of "PutUint64 x"] length_removeLeadingZeroes [of "uint256_Bytes y"]
      length_uint256_Bytes [of y] by simp_all
  have "length (case ct_To t of None \<Rightarrow> [] | Some a \<Rightarrow> a) \<le> 20"
    using assms by (auto simp: signed_tx_def split: option.splits)
  then have "sum_list (map length (tx_fields t)) \<le> length (ct_Data t) + 132" "length (tx_fields t) \<le> 9"
    using zeroes(1) [of "ct_Nonce t"] zeroes(1) [of "ct_Gas t"] zeroes(2) [of "the (lt_GasPrice t)"]
      zeroes(2) [of "case ct_Value t of None \<Rightarrow> 0 | Some x \<Rightarrow> x"] zeroes(2) [of "DeriveChainId (ct_V t)"]
    by (simp_all add: tx_fields_def)
  then show ?thesis
    using length_enc_fields [of "tx_fields t"] by simp
qed

lemma fork_ucast: "(ForkID5Dragonfruit \<le> ucast (forkId :: u16)) = (5 \<le> forkId)"
  by (simp add: ForkID5Dragonfruit_def word_le_nat_alt unat_ucast_u16)

lemma append_txs_enc:
  assumes "\<forall>(t, _) \<in> set ts. signed_tx t"
  shows "append_txs forkId out (map (\<lambda>(t, pct). (LegacyTx_methods t, pct)) ts) = Inr (out @ concat (map (tx_bytes (ucast forkId)) ts))"
  using assms
proof (induction ts arbitrary: out)
  case (Cons tp ts)
  then have "EncodeToBytes (Lst (map Str (tx_fields (fst tp)))) = rlp_enc (Lst (map Str (tx_fields (fst tp))))"
    using tx_fields_fit [of "fst tp"] by (intro EncodeToBytes_enc) (auto simp: signed_tx_def simp del: rlp_enc.simps)
  with Cons show ?case
    by (auto simp: TransactionToL2Data_signed tx_bytes_def fork_ucast simp del: rlp_enc.simps split: prod.splits)
qed simp

lemma GenerateBlockBatchL2Data_enc:
  assumes "\<forall>(t, _) \<in> set ts. signed_tx t" "7 \<le> forkId"
  shows "GenerateBlockBatchL2Data forkId delta index (map (\<lambda>(t, pct). (LegacyTx_methods t, pct)) ts) =
    Inr (block_bytes (ucast forkId) (delta, index, ts))"
  using assms(2) append_txs_enc [OF assms(1), of forkId]
  by (simp add: GenerateBlockBatchL2Data_def block_bytes_def ForkID7Etrog_def)


section \<open>Properties\<close>

text \<open>C25. From fork 7 on, the blocks that \<^verbatim>\<open>GenerateBlockBatchL2Data\<close> writes one after the other are read back by
  \<^verbatim>\<open>DecodeBatchL2Blocks\<close>: the transactions with the chain id of their recovery value, the percentages, the delta of the
  timestamp and the index, block by block and without error. The one exception is in the code: when the first byte of the
  first delta is the marker, an empty block is read in front of the blocks.\<close>

theorem DecodeBatchL2Blocks_generated:
  assumes "7 \<le> forkId" "\<forall>(_, _, ts) \<in> set ((delta, index, ts) # bs). \<forall>(t, _) \<in> set ts. signed_tx t"
  shows "\<exists>ds. map (\<lambda>(delta, index, ts).
        GenerateBlockBatchL2Data forkId delta index (map (\<lambda>(t, pct). (LegacyTx_methods t, pct)) ts)) ((delta, index, ts) # bs)
      = map Inr ds \<and>
    (length (concat ds) < 2 ^ 62 \<longrightarrow> DecodeBatchL2Blocks (concat ds) (ucast forkId) = Some (Inr (
      (if ucast (drop_bit 24 delta) = changeL2BlockTxType then [no_data] else []) @
      map (\<lambda>(delta, index, ts). \<lparr>Transactions = map (as_read \<circ> fst) ts, EffectiveGasPricePercentages = map snd ts,
        DeltaTimestamp = delta, L1InfoTreeIndex = index\<rparr>) ((delta, index, ts) # bs), None)))"
proof (intro exI conjI impI)
  let ?bs = "(delta, index, ts) # bs"
  let ?ds = "map (block_bytes (ucast forkId)) ?bs"
  show "map (\<lambda>(delta, index, ts).
      GenerateBlockBatchL2Data forkId delta index (map (\<lambda>(t, pct). (LegacyTx_methods t, pct)) ts)) ?bs = map Inr ?ds"
    unfolding map_map
  proof (rule map_cong [OF refl])
    fix b assume "b \<in> set ?bs"
    then have "\<forall>(t, _) \<in> set (snd (snd b)). signed_tx t"
      using assms(2) by fastforce
    then show "(\<lambda>(delta, index, ts).
        GenerateBlockBatchL2Data forkId delta index (map (\<lambda>(t, pct). (LegacyTx_methods t, pct)) ts)) b =
      (Inr \<circ> block_bytes (ucast forkId)) b"
      using assms(1) by (cases b) (simp add: GenerateBlockBatchL2Data_enc)
  qed
  assume fits: "length (concat ?ds) < 2 ^ 62"
  have "5 \<le> forkId"
    using assms(1) by (simp add: word_le_nat_alt)
  then have "read_block (ucast forkId) = (\<lambda>(delta, index, ts). \<lparr>Transactions = map (as_read \<circ> fst) ts,
      EffectiveGasPricePercentages = map snd ts, DeltaTimestamp = delta, L1InfoTreeIndex = index\<rparr>)"
    by (auto simp: read_block_def read_txs_def fork_ucast no_data_def)
  then show "DecodeBatchL2Blocks (concat ?ds) (ucast forkId) = Some (Inr (
      (if ucast (drop_bit 24 delta) = changeL2BlockTxType then [no_data] else []) @
      map (\<lambda>(delta, index, ts). \<lparr>Transactions = map (as_read \<circ> fst) ts, EffectiveGasPricePercentages = map snd ts,
        DeltaTimestamp = delta, L1InfoTreeIndex = index\<rparr>) ?bs, None))"
    using DecodeBatchL2Blocks_blocks [OF assms(2) refl fits] by simp
qed

definition example_tx :: legacy_tx where
  "example_tx = \<lparr>ct_ChainID = None, ct_Nonce = 7, ct_Gas = 21000, ct_To = Some (replicate 20 1), ct_Value = Some 1000,
     ct_Data = [1, 2, 3], ct_V = 2709, ct_R = 5, ct_S = 6, lt_GasPrice = Some 300\<rparr>"

theorem DecodeBatchL2Blocks_generated_witness:
  "\<exists>ds. map (\<lambda>(delta, index, ts).
        GenerateBlockBatchL2Data 9 delta index (map (\<lambda>(t, pct). (LegacyTx_methods t, pct)) ts)) [(3, 1, [(example_tx, 255)]), (1, 0, [])]
      = map Inr ds \<and> DecodeBatchL2Blocks (concat ds) 9 = Some (Inr (
      [\<lparr>Transactions = [as_read example_tx], EffectiveGasPricePercentages = [255], DeltaTimestamp = 3, L1InfoTreeIndex = 1\<rparr>,
       \<lparr>Transactions = [], EffectiveGasPricePercentages = [], DeltaTimestamp = 1, L1InfoTreeIndex = 0\<rparr>], None))"
proof -
  have signed: "\<forall>(_, _, ts) \<in> set [(3, 1, [(example_tx, 255)]), (1, 0, [])]. \<forall>(t, _) \<in> set ts. signed_tx t"
    by (simp add: signed_tx_def example_tx_def)
  let ?gen = "\<lambda>(delta, index, ts). GenerateBlockBatchL2Data 9 delta index (map (\<lambda>(t, pct). (LegacyTx_methods t, pct)) ts)"
  have "\<forall>(t, _) \<in> set [(example_tx, 255)]. signed_tx t"
    using signed by simp
  then have bytes: "map ?gen [(3, 1, [(example_tx, 255)]), (1, 0, [])] =
      map Inr [block_bytes 9 (3, 1, [(example_tx, 255)]), block_bytes 9 (1, 0, [])]"
    using GenerateBlockBatchL2Data_enc [of "[(example_tx, 255)]" 9 3 1] GenerateBlockBatchL2Data_enc [of "[]" 9 1 0] by auto
  have "length (tx_bytes 9 (example_tx, 255)) \<le> length (ct_Data example_tx) + 288"
    using tx_fields_fit [of example_tx] signed by (simp add: tx_bytes_def del: rlp_enc.simps)
  then have fits: "length (concat [block_bytes 9 (3, 1, [(example_tx, 255)]), block_bytes 9 (1, 0, [])]) < 2 ^ 62"
    by (simp add: block_bytes_def example_tx_def)
  obtain ds where ds: "map ?gen [(3, 1, [(example_tx, 255)]), (1, 0, [])] = map Inr ds"
    "length (concat ds) < 2 ^ 62 \<longrightarrow> DecodeBatchL2Blocks (concat ds) (ucast (9 :: u16)) = Some (Inr (
      (if ucast (drop_bit 24 (3 :: u32)) = changeL2BlockTxType then [no_data] else []) @
      map (\<lambda>(delta, index, ts). \<lparr>Transactions = map (as_read \<circ> fst) ts, EffectiveGasPricePercentages = map snd ts,
        DeltaTimestamp = delta, L1InfoTreeIndex = index\<rparr>) [(3, 1, [(example_tx, 255)]), (1, 0, [])], None))"
    using DecodeBatchL2Blocks_generated [of 9 3 1 "[(example_tx, 255)]" "[(1, 0, [])]", OF _ signed]
    by (elim meta_impE exE conjE) (simp, rule that)
  have "ds = [block_bytes 9 (3, 1, [(example_tx, 255)]), block_bytes 9 (1, 0, [])]"
    using bytes ds(1) by (auto simp: map_eq_Cons_conv)
  then show ?thesis
    using ds fits by (intro exI [of _ ds]) (simp add: changeL2BlockTxType_def)
qed

text \<open>C26. \<^verbatim>\<open>DecodeBatchL2Blocks\<close> returns for every input. It panics only when the input ends within the nine bytes of
  a marker.\<close>

theorem DecodeBatchL2Blocks_returns:
  assumes "length d < 2 ^ 62"
  shows "\<exists>r. DecodeBatchL2Blocks d fork = Some r \<and> (case r of
     Inl (Panic m) \<Rightarrow> \<exists>i < length d. d ! i = changeL2BlockTxType \<and> length d < i + 9
   | Inl (Error m) \<Rightarrow> False
   | Inr _ \<Rightarrow> True)"
  using l2_loop_returns [of _ 0 d fork] assms by (simp add: DecodeBatchL2Blocks_def)

theorem DecodeBatchL2Blocks_returns_witness:
  "\<exists>r. DecodeBatchL2Blocks [11, 0] 7 = Some r \<and> (case r of
     Inl (Panic m) \<Rightarrow> \<exists>i < length [11, 0 :: u8]. [11, 0] ! i = changeL2BlockTxType \<and> length [11, 0 :: u8] < i + 9
   | Inl (Error m) \<Rightarrow> False
   | Inr _ \<Rightarrow> True)"
  by (rule DecodeBatchL2Blocks_returns) simp

text \<open>C27. A batch that ends within the length of its first transaction is read as a batch without blocks and without
  error: the code returns the error of the previous call, which is nil.\<close>

theorem DecodeBatchL2Blocks_truncated:
  assumes "0xF8 \<le> b" "length rest < unat b - 247"
  shows "DecodeBatchL2Blocks (b # rest) fork = Some (Inr ([], None))"
proof -
  have "unat b < 256"
    using unsigned_less [of b, where ?'a = nat] by simp
  have b: "248 \<le> unat b"
    using assms(1) by (simp add: word_le_nat_alt)
  let ?d = "b # rest"
  let ?st = "\<lparr>l2_pos = 0, l2_result = [], l2_current = no_data, l2_delta = 0, l2_index = 0\<rparr>"
  have "length ?d < 2 ^ 62"
    using assms(2) \<open>unat b < 256\<close> by simp
  moreover have "b \<noteq> changeL2BlockTxType"
    using b by (intro marker_less) simp
  moreover have "tx_length ?d 0 (ucast b) = Inl (Returning None)"
  proof -
    have n: "\<not> (ucast b :: u64) < 192" "(ucast b :: u64) - 192 > 55" "unat (1 + ucast b - 247 :: u64) = unat b - 246"
      using b \<open>unat b < 256\<close> by (simp_all add: word_less_nat_alt unat_ucast_u8 unat_sub_small unat_add_small)
    moreover have "1 + ucast b - 247 > (of_nat (length ?d) :: u64)"
      using n(3) assms(2) b \<open>length ?d < 2 ^ 62\<close> by (simp add: word_less_nat_alt unat_size del: of_nat_Suc)
    ultimately show ?thesis
      by (simp add: tx_length_def l2_consts Let_def)
  qed
  ultimately have "l2_step ?d fork ?st = Some (Inl (Returning None))"
    using l2_step_byte [of ?st 0 ?d fork] by simp
  then show ?thesis
    using \<open>length ?d < 2 ^ 62\<close> by (simp add: DecodeBatchL2Blocks_def l2_loop.simps word_less_nat_alt unat_size del: of_nat_Suc)
qed

theorem DecodeBatchL2Blocks_truncated_witness: "DecodeBatchL2Blocks [0xF8] 7 = Some (Inr ([], None))"
  by (rule DecodeBatchL2Blocks_truncated) simp_all

section \<open>The shape of what is read\<close>

definition wf_batch :: "u64 \<Rightarrow> batch_data \<Rightarrow> bool" where
  "wf_batch fork b \<longleftrightarrow>
     (fork \<ge> ForkID5Dragonfruit \<longrightarrow> length (EffectiveGasPricePercentages b) = length (Transactions b)) \<and>
     (fork < ForkID5Dragonfruit \<longrightarrow> EffectiveGasPricePercentages b = []) \<and>
     (\<forall>t \<in> set (Transactions b). (\<forall>a. ct_To t = Some a \<longrightarrow> length a = 20) \<and> ct_ChainID t \<noteq> None \<and> ct_Value t \<noteq> None \<and>
        lt_GasPrice t \<noteq> None)"

definition wf_state :: "u64 \<Rightarrow> l2_state \<Rightarrow> bool" where
  "wf_state fork st \<longleftrightarrow> list_all (wf_batch fork) (l2_result st) \<and> wf_batch fork (l2_current st)"

lemma wf_no_data: "wf_batch fork no_data"
  by (simp add: wf_batch_def no_data_def)

lemma wf_captured: "wf_state fork st \<Longrightarrow> list_all (wf_batch fork) (l2_captured st)"
  by (simp add: wf_state_def l2_captured_def wf_batch_def)

lemma wf_change_block:
  assumes "wf_state fork st" "change_block d st = Inr st'"
  shows "wf_state fork st'"
  using assms(2) wf_captured [OF assms(1)] assms(1) wf_no_data
  by (auto simp: change_block_def Let_def exit_bind_eq wf_state_def split: if_splits)

lemma rlpFieldsToLegacyTx_wf:
  "rlpFieldsToLegacyTx fs v r s = Inr t \<Longrightarrow>
    (\<forall>a. ct_To t = Some a \<longrightarrow> length a = 20) \<and> ct_ChainID t \<noteq> None \<and> ct_Value t \<noteq> None \<and> lt_GasPrice t \<noteq> None"
  by (auto simp: rlpFieldsToLegacyTx_def Let_def BytesToAddress_def split: if_splits)

lemma tx_parts_eff:
  "tx_parts d fork pos len = Inr (ps, eff, e) \<Longrightarrow> length eff = (if fork \<ge> ForkID5Dragonfruit then 1 else 0)"
  by (auto simp: tx_parts_def Let_def exit_bind_eq split: if_splits)

lemma or_exit_Inr [simp]: "or_exit r = Inr x \<longleftrightarrow> r = Inr x"
  by (cases r rule: or_exit.cases) auto

lemma wf_add_tx:
  assumes "wf_state fork st" "add_tx st (ps, eff, e) = Some (Inr st')" "length eff = (if fork \<ge> ForkID5Dragonfruit then 1 else 0)"
  shows "wf_state fork st'"
proof -
  obtain r s v i where ps: "ps = (i, r, s, v)" by (metis prod.collapse)
  obtain fs t where t: "rlpFieldsToLegacyTx fs v r s = Inr t"
    "st' = st\<lparr>l2_pos := e, l2_current := (l2_current st)\<lparr>EffectiveGasPricePercentages := EffectiveGasPricePercentages (l2_current st) @ eff,
       Transactions := Transactions (l2_current st) @ [t]\<rparr>\<rparr>"
    using assms(2) by (auto simp: add_tx_def ps exit_bind_eq Let_def split: option.splits sum.splits decode_err.splits go_error.splits)
  then show ?thesis
    using assms(1,3) rlpFieldsToLegacyTx_wf [OF t(1)] by (auto simp: wf_state_def wf_batch_def not_le split: if_splits)
qed

lemma wf_step:
  assumes "wf_state fork st" "l2_step d fork st = Some (Inr st')"
  shows "wf_state fork st'"
  using assms(2) wf_change_block [OF assms(1)] wf_add_tx [OF assms(1)] tx_parts_eff
  by (fastforce simp: l2_step_def Let_def exit_bind_eq split: sum.splits if_splits)

lemma wf_loop: "l2_loop d fork st = Some r \<Longrightarrow> wf_state fork st \<Longrightarrow> r = Inr (bs, err) \<Longrightarrow> list_all (wf_batch fork) bs"
proof (induction arbitrary: bs err rule: l2_loop.raw_induct [rotated 1, consumes 1])
  case (1 loop d fork st r)
  show ?case
    using 1 wf_step [of fork st d] wf_captured [of fork st]
    by (fastforce simp: wf_state_def split: if_splits option.splits sum.splits l2_exit.splits)
qed

text \<open>C31. Every block that \<^verbatim>\<open>DecodeBatchL2Blocks\<close> returns is well formed, whatever the input: from fork 5 on there is one
  percentage for every transaction and none before, a recipient that is not nil has twenty bytes, and chain id, value and gas price are
  never nil.\<close>

theorem DecodeBatchL2Blocks_wf:
  assumes "DecodeBatchL2Blocks d fork = Some (Inr (bs, err))"
  shows "list_all (wf_batch fork) bs"
proof (cases "d = []")
  case False
  have "wf_state fork \<lparr>l2_pos = 0, l2_result = [], l2_current = no_data, l2_delta = 0, l2_index = 0\<rparr>"
    by (simp add: wf_state_def wf_no_data)
  then show ?thesis
    using False assms by (auto simp: DecodeBatchL2Blocks_def intro: wf_loop)
qed (use assms in \<open>simp add: DecodeBatchL2Blocks_def\<close>)


theorem DecodeBatchL2Blocks_wf_witness:
  "\<exists>d. DecodeBatchL2Blocks d 9 = Some (Inr ([read_block 9 (3, 1, [(example_tx, 255)])], None)) \<and>
    list_all (wf_batch 9) [read_block 9 (3, 1, [(example_tx, 255)])]"
proof -
  let ?bs = "[(3, 1, [(example_tx, 255)])]"
  have signed: "\<forall>(_, _, ts) \<in> set ?bs. \<forall>(t, _) \<in> set ts. signed_tx t"
    by (simp add: signed_tx_def example_tx_def)
  have "length (tx_bytes 9 (example_tx, 255)) \<le> length (ct_Data example_tx) + 288"
    using tx_fields_fit [of example_tx] signed by (simp add: tx_bytes_def del: rlp_enc.simps)
  then have "length (concat (map (block_bytes 9) ?bs)) < 2 ^ 62"
    by (simp add: block_bytes_def example_tx_def)
  then have d: "DecodeBatchL2Blocks (concat (map (block_bytes 9) ?bs)) 9 = Some (Inr ([read_block 9 (3, 1, [(example_tx, 255)])], None))"
    using DecodeBatchL2Blocks_blocks [OF signed refl, of 9] by (simp add: changeL2BlockTxType_def)
  then show ?thesis
    using DecodeBatchL2Blocks_wf by blast
qed

end
