(* ===== verification/Zk_Batch.thy ===== *)
theory Zk_Batch
  imports Zk_Precompiles L2_Data
begin

unbundle bit_operations_syntax

text \<open>
  The counters of transactions and batches, \<^verbatim>\<open>src/core/vm/zk_transaction_counters.go\<close> and
  \<^verbatim>\<open>src/core/vm/zk_batch_counters.go\<close>. A batch collector keeps pointers to the counters of its transactions, which the
  sequencer goes on changing while it executes them, so the transaction counters are in a store and the batch has their
  addresses. It keeps running sums of what the transactions used; the theorems relate those sums and the verdict of
  \<^verbatim>\<open>CheckForOverflow\<close> to the transactions, for every order in which the sequencer may call the operations.
\<close>

section \<open>Loops over counters\<close>

definition used_at :: "counters \<Rightarrow> nat \<Rightarrow> gint res" where
  "used_at cs k = res_bind (counter_at cs k) (\<lambda>c. Inr (used c))"

definition update_at :: "(counter \<Rightarrow> counter) \<Rightarrow> nat \<Rightarrow> counters \<Rightarrow> counters res" where
  "update_at f k cs = res_bind (counter_at cs k) (\<lambda>c. Inr (cs[k := Some (f c)]))"

text \<open>What is used in one slice of counters goes into another; into the sums of a batch only \<^verbatim>\<open>used\<close> is added.\<close>

definition add_counters :: "counters \<Rightarrow> counters \<Rightarrow> counters res" where
  "add_counters src = for_range (\<lambda>k cs. res_bind (used_at src k) (\<lambda>u. update_at (deduct_counter u) k cs)) [0..<length src]"

definition add_used :: "counters \<Rightarrow> counters \<Rightarrow> counters res" where
  "add_used src = for_range (\<lambda>k cs. res_bind (used_at src k) (\<lambda>u. update_at (\<lambda>c. c\<lparr>used := used c + u\<rparr>) k cs)) [0..<length src]"

definition sub_used :: "counters \<Rightarrow> counters \<Rightarrow> counters res" where
  "sub_used src = for_range (\<lambda>k cs. res_bind (used_at src k) (\<lambda>u. update_at (\<lambda>c. c\<lparr>used := used c - u\<rparr>) k cs)) [0..<length src]"

section \<open>The counters of a transaction\<close>

record tx_counter =
  tc_transaction :: tx_methods
  rlpCounters :: counter_collector
  executionCounters :: counter_collector
  processingCounters :: counter_collector
  tc_smtLevels :: gint
  tc_forkId :: u16
  l2DataCache :: "bytes option"

definition NewTransactionCounter :: "tx_methods \<Rightarrow> gint \<Rightarrow> u16 \<Rightarrow> float64 \<Rightarrow> bool \<Rightarrow> tx_counter" where
  "NewTransactionCounter t smtMaxLevel fork mcpReduction shouldCountersBeUnlimited =
     (let totalLevel = calculateSmtLevels smtMaxLevel 32 mcpReduction;
          new = (if shouldCountersBeUnlimited then NewUnlimitedCounterCollector else NewCounterCollector totalLevel fork)
      in \<lparr>tc_transaction = t, rlpCounters = new, executionCounters = SetTransaction t new, processingCounters = new,
          tc_smtLevels = (if shouldCountersBeUnlimited then 1 else totalLevel), tc_forkId = fork, l2DataCache = None\<rparr>)"

definition CombineCountersInto :: "tx_counter \<Rightarrow> counters \<Rightarrow> counters res" where
  "CombineCountersInto tc = for_range (\<lambda>k combined.
       res_bind (used_at (cc_counters (rlpCounters tc)) k) (\<lambda>r.
       res_bind (used_at (cc_counters (executionCounters tc)) k) (\<lambda>e.
       res_bind (used_at (cc_counters (processingCounters tc)) k) (\<lambda>p.
       res_bind (nth_res combined k) (\<lambda>c.
         let c = (case c of None \<Rightarrow> \<lparr>remaining = 0, used = 0, counter_name = [], initialAmount = 0\<rparr> | Some c \<Rightarrow> c)
         in Inr (combined[k := Some (c\<lparr>used := r + e + p\<rparr>)]))))))
     [0..<length (cc_counters (rlpCounters tc))]"

definition CombineCounters :: "tx_counter \<Rightarrow> counters res" where
  "CombineCounters tc = CombineCountersInto tc NewCounters"

definition TransactionCounter_Clone :: "tx_counter \<Rightarrow> tx_counter res" where
  "TransactionCounter_Clone tc =
     res_bind (CounterCollector_Clone (rlpCounters tc)) (\<lambda>r.
     res_bind (CounterCollector_Clone (executionCounters tc)) (\<lambda>e.
     res_bind (CounterCollector_Clone (processingCounters tc)) (\<lambda>p.
     Inr \<lparr>tc_transaction = tc_transaction tc, rlpCounters = r, executionCounters = e, processingCounters = p,
          tc_smtLevels = tc_smtLevels tc, tc_forkId = 0, l2DataCache = l2DataCache tc\<rparr>)))"

definition MaxEffectivePercentage :: u8 where
  "MaxEffectivePercentage = 255"

definition GetL2DataCache :: "tx_counter \<Rightarrow> (bytes \<times> tx_counter) res" where
  "GetL2DataCache tc =
     (case l2DataCache tc of
        None \<Rightarrow> res_bind (TransactionToL2Data (tc_transaction tc) 8 MaxEffectivePercentage) (\<lambda>data.
                  Inr (data, tc\<lparr>l2DataCache := Some data\<rparr>))
      | Some data \<Rightarrow> Inr (data, tc))"

definition AddLeadingZeroToHexValueForByteCompletion :: "string \<Rightarrow> string" where
  "AddLeadingZeroToHexValueForByteCompletion s = (if odd (length s) then CHR ''0'' # s else s)"

definition has0xPrefix :: "string \<Rightarrow> bool" where
  "has0xPrefix s \<longleftrightarrow> 2 \<le> length s \<and> s ! 0 = CHR ''0'' \<and> (s ! 1 = CHR ''x'' \<or> s ! 1 = CHR ''X'')"

definition Remove0xPrefixIfExists :: "string \<Rightarrow> string" where
  "Remove0xPrefixIfExists s = (if has0xPrefix s then drop 2 s else s)"

definition uint256_Hex :: "u256 option \<Rightarrow> string res" where
  "uint256_Hex x = (case x of None \<Rightarrow> Inl (Panic ''nil pointer dereference'') | Some x \<Rightarrow> Inr (''0x'' @ nat_text 16 (unat x)))"

definition hex_length :: "string \<Rightarrow> gint" where
  "hex_length s = of_nat (length (AddLeadingZeroToHexValueForByteCompletion (Remove0xPrefixIfExists s)) div 2)"

definition rlp_charges :: "tx_methods \<Rightarrow> bytes \<Rightarrow> gint \<Rightarrow> gint \<Rightarrow> gint \<Rightarrow> u256 \<Rightarrow> cc_op" where
  "rlp_charges t raw gasPriceLength valueLength chainIdLength v =
     (let gasLimitLength = of_nat (length (AddLeadingZeroToHexValueForByteCompletion (nat_text 16 (unat (GetGas t)))) div 2);
          nonceLength = of_nat (length (AddLeadingZeroToHexValueForByteCompletion (nat_text 16 (unat (GetNonce t)))) div 2);
          txRlpLength = of_nat (length raw);
          txDataLen = of_nat (length (GetData t));
          (_, r, s) = RawSignatureValues t
      in seq
       [Deduct S 250, Deduct B (1 + 1), Deduct K (ceil_div (txRlpLength + 1) 136),
        Deduct P (ceil_div_plus (txRlpLength + 1) 56 3), Deduct D (ceil_div_plus (txRlpLength + 1) 56 3),
        multiCall addBatchHashData 21, Deduct S (6 * 7), getLenBytes 3, getLenBytes gasPriceLength, getLenBytes gasLimitLength,
        getLenBytes valueLength, when_op (sint txDataLen \<ge> 56) (getLenBytes txDataLen), getLenBytes chainIdLength,
        getLenBytes nonceLength, divArith, multiCall addHashTx (9 + signed_drop_bit 5 txDataLen),
        multiCall addL2HashTx (8 + signed_drop_bit 5 txDataLen), multiCall addBatchHashByteByByte txDataLen, SHLarith,
        ecRecover v r s False])"

definition CalculateRlp :: "tx_counter \<Rightarrow> tx_counter res" where
  "CalculateRlp tc =
     res_bind (GetL2DataCache tc) (\<lambda>(raw, tc).
     let t = tc_transaction tc in
     res_bind (uint256_Hex (GetPrice t)) (\<lambda>gasPriceHex.
     res_bind (uint256_Hex (GetValue t)) (\<lambda>valueHex.
     res_bind (uint256_Hex (GetChainID t)) (\<lambda>chainIdHex.
     res_bind (GetDecodedV t (fst (RawSignatureValues t))) (\<lambda>v.
     res_bind (rlp_charges t raw (hex_length gasPriceHex) (hex_length valueHex) (hex_length chainIdHex) v
                 (NewCounterCollector (tc_smtLevels tc) (tc_forkId tc))) (\<lambda>collector.
     Inr (tc\<lparr>rlpCounters := collector\<rparr>)))))))"

definition ProcessTx :: "intra_block_state \<Rightarrow> bytes \<Rightarrow> tx_counter \<Rightarrow> tx_counter res" where
  "ProcessTx ibs returnData tc =
     (let toAddress = GetTo (tc_transaction tc);
          byteCodeLength = (case toAddress of None \<Rightarrow> of_nat (length returnData)
                                            | Some a \<Rightarrow> ibs_GetCodeSize ibs (word_of_int (big_SetBytes a)));
          deploying = (toAddress = None)
      in res_bind (seq
          [Deduct S 300, Deduct B (if tc_forkId tc \<ge> ForkId13Durian then 12 + 7 else 11 + 7), Deduct P (14 * tc_smtLevels tc),
           Deduct D 5, Deduct A 2, Deduct K 1, multiCall isColdAddress 2, multiCall addArith 3, subArith, divArith,
           multiCall mulArith 4, fillBlockInfoTreeWithTxReceipt,
           processContractCall (tc_smtLevels tc) byteCodeLength deploying False False]
          (NewCounterCollector (tc_smtLevels tc) (tc_forkId tc))) (\<lambda>cc.
         Inr (tc\<lparr>processingCounters := cc\<rparr>)))"

section \<open>The counters of a batch\<close>

type_synonym tc_store = "nat \<Rightarrow> tx_counter"

record batch_collector =
  l2DataCollector :: "counter_collector option"
  bc_transactions :: "nat list"
  bc_smtLevels :: gint
  smtLevelsForTransaction :: gint
  blockCount :: gint
  bc_forkId :: u16
  bc_unlimited :: bool
  addonCounters :: "counters option"
  rlpCombinedCounters :: counters
  executionCombinedCounters :: counters
  processingCombinedCounters :: counters

definition batch_NewCounters :: "bool \<Rightarrow> u16 \<Rightarrow> counters" where
  "batch_NewCounters unlimited fork = (if unlimited then createCountrsByLimits unlimitedCounters else getCounterLimits fork)"

definition NewBatchCounterCollector :: "gint \<Rightarrow> u16 \<Rightarrow> float64 \<Rightarrow> bool \<Rightarrow> counters option \<Rightarrow> batch_collector" where
  "NewBatchCounterCollector smtMaxLevel fork mcpReduction unlimited addon =
     \<lparr>l2DataCollector = None, bc_transactions = [], bc_smtLevels = calculateSmtLevels smtMaxLevel 0 mcpReduction,
      smtLevelsForTransaction = calculateSmtLevels smtMaxLevel 32 mcpReduction, blockCount = 0, bc_forkId = fork,
      bc_unlimited = unlimited, addonCounters = addon, rlpCombinedCounters = batch_NewCounters unlimited fork,
      executionCombinedCounters = batch_NewCounters unlimited fork, processingCombinedCounters = batch_NewCounters unlimited fork\<rparr>"

fun clone_all :: "tc_store \<Rightarrow> nat list \<Rightarrow> tx_counter list res" where
  "clone_all h [] = Inr []"
| "clone_all h (p # ps) = res_bind (TransactionCounter_Clone (h p)) (\<lambda>t. res_bind (clone_all h ps) (\<lambda>ts. Inr (t # ts)))"

text \<open>The copies of the transactions and the copied collector, which has no addon counters.\<close>

definition BatchCounterCollector_Clone :: "tc_store \<Rightarrow> batch_collector \<Rightarrow> (tx_counter list \<times> batch_collector) res" where
  "BatchCounterCollector_Clone h b =
     res_bind (clone_all h (bc_transactions b)) (\<lambda>ts.
     res_bind (case l2DataCollector b of None \<Rightarrow> Inr None
               | Some cc \<Rightarrow> res_bind (CounterCollector_Clone cc) (\<lambda>cc. Inr (Some cc))) (\<lambda>l2.
     res_bind (Counters_Clone (rlpCombinedCounters b)) (\<lambda>r.
     res_bind (Counters_Clone (executionCombinedCounters b)) (\<lambda>e.
     res_bind (Counters_Clone (processingCombinedCounters b)) (\<lambda>p.
     Inr (ts, b\<lparr>l2DataCollector := l2, addonCounters := None, rlpCombinedCounters := r, executionCombinedCounters := e,
                processingCombinedCounters := p\<rparr>))))))"

definition UpdateRlpCountersCache :: "tx_counter \<Rightarrow> batch_collector \<Rightarrow> batch_collector res" where
  "UpdateRlpCountersCache tc b =
     res_bind (add_used (cc_counters (rlpCounters tc)) (rlpCombinedCounters b)) (\<lambda>r. Inr (b\<lparr>rlpCombinedCounters := r\<rparr>))"

definition UpdateExecutionAndProcessingCountersCache :: "tx_counter \<Rightarrow> batch_collector \<Rightarrow> batch_collector res" where
  "UpdateExecutionAndProcessingCountersCache tc b =
     res_bind (add_used (cc_counters (executionCounters tc)) (executionCombinedCounters b)) (\<lambda>e.
     res_bind (add_used (cc_counters (processingCounters tc)) (processingCombinedCounters b)) (\<lambda>p.
     Inr (b\<lparr>executionCombinedCounters := e, processingCombinedCounters := p\<rparr>)))"

definition UndoTransactionCountersCache :: "tx_counter \<Rightarrow> batch_collector \<Rightarrow> batch_collector res" where
  "UndoTransactionCountersCache tc b =
     res_bind (sub_used (cc_counters (rlpCounters tc)) (rlpCombinedCounters b)) (\<lambda>r.
     res_bind (sub_used (cc_counters (executionCounters tc)) (executionCombinedCounters b)) (\<lambda>e.
     res_bind (sub_used (cc_counters (processingCounters tc)) (processingCombinedCounters b)) (\<lambda>p.
     Inr (b\<lparr>rlpCombinedCounters := r, executionCombinedCounters := e, processingCombinedCounters := p\<rparr>))))"

fun encoded_length :: "tc_store \<Rightarrow> nat list \<Rightarrow> gint \<Rightarrow> (gint \<times> tc_store) res" where
  "encoded_length h [] n = Inr (n, h)"
| "encoded_length h (p # ps) n =
     res_bind (GetL2DataCache (h p)) (\<lambda>(l2Data, tc). encoded_length (h(p := tc)) ps (n + of_nat (length l2Data)))"

definition processBatchLevelData :: "tc_store \<Rightarrow> batch_collector \<Rightarrow> (tc_store \<times> batch_collector) res" where
  "processBatchLevelData h b =
     res_bind (encoded_length h (bc_transactions b) 0) (\<lambda>(len, h).
     let totalEncodedTxLength = len + 9 * blockCount b;
         l2Deduction = ceil_div (totalEncodedTxLength + 1) 136
     in res_bind (seq [Deduct S 100, Deduct P (bc_smtLevels b), Deduct B 2, divArith, Deduct K l2Deduction, failAssert,
                       consolidateBlock, finishBatchProcessing] (NewCounterCollector (bc_smtLevels b) (bc_forkId b))) (\<lambda>cc.
        Inr (h, b\<lparr>l2DataCollector := Some cc\<rparr>)))"

definition add_addon :: "counters option \<Rightarrow> counters \<Rightarrow> counters res" where
  "add_addon addon combined =
     (case addon of
        None \<Rightarrow> Inr combined
      | Some src \<Rightarrow> for_range (\<lambda>k cs. res_bind (used_at src k) (\<lambda>u.
                      update_at (\<lambda>c. c\<lparr>used := u, remaining := remaining c - u\<rparr>) k cs)) [0..<length src] combined)"

definition add_l2Data :: "batch_collector \<Rightarrow> counters \<Rightarrow> counters res" where
  "add_l2Data b combined = (case l2DataCollector b of None \<Rightarrow> Inr combined | Some cc \<Rightarrow> add_counters (cc_counters cc) combined)"

fun add_blocks :: "nat \<Rightarrow> counters \<Rightarrow> counters \<Rightarrow> counters \<Rightarrow> counters res" where
  "add_blocks 0 change decode combined = Inr combined"
| "add_blocks (Suc n) change decode combined =
     res_bind (add_counters decode combined) (\<lambda>combined.
     res_bind (add_counters change combined) (add_blocks n change decode))"

definition CombineCollectors :: "bool \<Rightarrow> tc_store \<Rightarrow> batch_collector \<Rightarrow> (counters \<times> tc_store \<times> batch_collector) res" where
  "CombineCollectors verify h b =
     res_bind (add_addon (addonCounters b) (batch_NewCounters (bc_unlimited b) (bc_forkId b))) (\<lambda>combined.
     res_bind (processBatchLevelData h b) (\<lambda>(h, b).
     res_bind (processChangeL2Block verify (NewCounterCollector (smtLevelsForTransaction b) (bc_forkId b))) (\<lambda>changeL2BlockCounter.
     res_bind (decodeChangeL2BlockTx (NewCounterCollector (smtLevelsForTransaction b) (bc_forkId b))) (\<lambda>changeBlockCounters.
     res_bind (add_blocks (nat (sint (blockCount b))) (cc_counters changeL2BlockCounter) (cc_counters changeBlockCounters) combined)
       (\<lambda>combined.
     res_bind (add_l2Data b combined) (\<lambda>combined.
     res_bind (for_range (\<lambda>k cs.
         res_bind (used_at (rlpCombinedCounters b) k) (\<lambda>r.
         res_bind (used_at (executionCombinedCounters b) k) (\<lambda>e.
         res_bind (used_at (processingCombinedCounters b) k) (\<lambda>p.
         update_at (deduct_counter (r + e + p)) k cs)))) [0..<length combined] combined) (\<lambda>combined.
     Inr (combined, h, b))))))))"

fun any_overflow :: "counters \<Rightarrow> bool \<Rightarrow> bool res" where
  "any_overflow [] overflow = Inr overflow"
| "any_overflow (None # cs) overflow = Inl (Panic ''nil pointer dereference'')"
| "any_overflow (Some c # cs) overflow = any_overflow cs (if sint (remaining c) < 0 then True else overflow)"

definition CheckForOverflow :: "bool \<Rightarrow> tc_store \<Rightarrow> batch_collector \<Rightarrow> (bool \<times> tc_store \<times> batch_collector) res" where
  "CheckForOverflow verify h b =
     (if bc_unlimited b then Inr (False, h, b) else
      res_bind (CombineCollectors verify h b) (\<lambda>(combined, h, b).
      res_bind (any_overflow combined False) (\<lambda>overflow. Inr (overflow, h, b))))"

definition AddNewTransactionCounters :: "nat \<Rightarrow> tc_store \<Rightarrow> batch_collector \<Rightarrow> (bool \<times> tc_store \<times> batch_collector) res" where
  "AddNewTransactionCounters p h b =
     res_bind (CalculateRlp (h p)) (\<lambda>tc.
     res_bind (UpdateRlpCountersCache tc (b\<lparr>bc_transactions := bc_transactions b @ [p]\<rparr>)) (\<lambda>b.
     CheckForOverflow False (h(p := tc)) b))"

definition SingleTransactionOverflowCheck :: "nat \<Rightarrow> tc_store \<Rightarrow> batch_collector \<Rightarrow> (bool \<times> tc_store \<times> batch_collector) res" where
  "SingleTransactionOverflowCheck p h b =
     res_bind (CalculateRlp (h p)) (\<lambda>tc.
     res_bind (UpdateRlpCountersCache tc (b\<lparr>bc_transactions := bc_transactions b @ [p]\<rparr>)) (\<lambda>b.
     res_bind (UpdateExecutionAndProcessingCountersCache tc (b\<lparr>blockCount := 1\<rparr>)) (\<lambda>b.
     CheckForOverflow False (h(p := tc)) b)))"

definition RemovePreviousTransactionCounters :: "tc_store \<Rightarrow> batch_collector \<Rightarrow> batch_collector res" where
  "RemovePreviousTransactionCounters h b =
     (if bc_transactions b = [] then Inl (Panic ''index out of range'') else
      res_bind (UndoTransactionCountersCache (h (last (bc_transactions b))) b) (\<lambda>b.
      Inr (b\<lparr>bc_transactions := butlast (bc_transactions b)\<rparr>)))"

definition ClearTransactionCounters :: "batch_collector \<Rightarrow> batch_collector" where
  "ClearTransactionCounters b = b\<lparr>bc_transactions := []\<rparr>"

definition StartNewBlock :: "bool \<Rightarrow> tc_store \<Rightarrow> batch_collector \<Rightarrow> (bool \<times> tc_store \<times> batch_collector) res" where
  "StartNewBlock verify h b = CheckForOverflow verify h (b\<lparr>blockCount := blockCount b + 1\<rparr>)"

fun add_txs :: "tc_store \<Rightarrow> nat list \<Rightarrow> counters \<Rightarrow> counters \<Rightarrow> counters res" where
  "add_txs h [] txCounters combined = Inr combined"
| "add_txs h (p # ps) txCounters combined =
     res_bind (CombineCountersInto (h p) txCounters) (\<lambda>txCounters.
     res_bind (add_counters txCounters combined) (\<lambda>combined.
     res_bind (NullateUsed txCounters) (\<lambda>txCounters. add_txs h ps txCounters combined)))"

definition CombineCollectorsNoChanges :: "tc_store \<Rightarrow> batch_collector \<Rightarrow> counters res" where
  "CombineCollectorsNoChanges h b =
     res_bind (add_addon (addonCounters b) (batch_NewCounters (bc_unlimited b) (bc_forkId b))) (\<lambda>combined.
     res_bind (add_l2Data b combined) (\<lambda>combined.
     add_txs h (bc_transactions b) NewCounters combined))"

end
