(* ===== verification/Zk_Batch_Sums.thy ===== *)
theory Zk_Batch_Sums
  imports Zk_Batch L2_Blocks
begin

text \<open>
  What the counters of a batch (\<^verbatim>\<open>src/core/vm/zk_batch_counters.go\<close>) add up to. The loops over counters are updates of all
  counters at once; the operations of the sequencer are the steps of a relation, and an invariant of that relation says
  that the running sums are the sums over the transactions. The last sections are about the counters that are stored and
  about copies of collectors.
\<close>

section \<open>Loops as updates of all counters\<close>

definition shape :: "counters \<Rightarrow> bool" where
  "shape cs \<longleftrightarrow> length cs = CounterTypesCount \<and> None \<notin> set cs"

definition used_of :: "counters \<Rightarrow> nat \<Rightarrow> gint" where
  "used_of cs k = used (the (cs ! k))"

definition all_counters :: "(nat \<Rightarrow> counter \<Rightarrow> counter) \<Rightarrow> counters \<Rightarrow> counters" where
  "all_counters g cs = map (\<lambda>k. map_option (g k) (cs ! k)) [0..<length cs]"

lemma shape_at: "shape cs \<Longrightarrow> k < 8 \<Longrightarrow> \<exists>c. cs ! k = Some c"
  unfolding shape_def CounterTypesCount_def by (metis not_None_eq nth_mem)

lemma length_shape [simp]: "shape cs \<Longrightarrow> length cs = 8"
  by (simp add: shape_def CounterTypesCount_def)

lemma used_at_shape: "shape cs \<Longrightarrow> k < 8 \<Longrightarrow> used_at cs k = Inr (used_of cs k)"
  using shape_at [of cs k] by (auto simp: used_at_def counter_at_def used_of_def)

lemma length_all_counters [simp]: "length (all_counters g cs) = length cs"
  by (simp add: all_counters_def)

lemma nth_all_counters [simp]: "k < length cs \<Longrightarrow> all_counters g cs ! k = map_option (g k) (cs ! k)"
  by (simp add: all_counters_def)

lemma shape_all_counters [simp]: "shape cs \<Longrightarrow> shape (all_counters g cs)"
  unfolding shape_def all_counters_def by (auto dest!: sym [of None]) (metis nth_mem)

lemma used_of_all_counters [simp]: "shape cs \<Longrightarrow> k < 8 \<Longrightarrow> used_of (all_counters g cs) k = used (g k (the (cs ! k)))"
  using shape_at [of cs k] by (auto simp: used_of_def)

lemma all_counters_charge: "all_counters (\<lambda>k. deduct_counter (v k)) cs = charge_counters v cs"
  by (rule nth_equalityI) simp_all

lemma for_range_append: "for_range f (ks @ js) x = res_bind (for_range f ks x) (for_range f js)"
  by (induction ks arbitrary: x) (auto simp: res_bind_def split: sum.splits)

lemma for_range_update:
  assumes "shape cs" "\<And>k ds. k < 8 \<Longrightarrow> shape ds \<Longrightarrow> f k ds = update_at (g k) k ds"
  shows "for_range f [0..<8] cs = Inr (all_counters g cs)"
proof -
  have "\<exists>ds. for_range f [0..<n] cs = Inr ds \<and> shape ds \<and>
      (\<forall>k < 8. ds ! k = (if k < n then map_option (g k) (cs ! k) else cs ! k))" if "n \<le> 8" for n
    using that
  proof (induction n)
    case (Suc n)
    then obtain ds where ds: "for_range f [0..<n] cs = Inr ds" "shape ds"
      "\<forall>k < 8. ds ! k = (if k < n then map_option (g k) (cs ! k) else cs ! k)" by auto
    obtain c where c: "ds ! n = Some c" "cs ! n = Some c"
      using shape_at [OF ds(2), of n] ds(3) Suc.prems by auto
    then have "f n ds = Inr (ds[n := Some (g n c)])"
      using assms(2) [of n ds] ds(2) Suc.prems by (simp add: update_at_def counter_at_def)
    moreover have "shape (ds[n := Some (g n c)])"
      using ds(2) set_update_subset_insert [of ds n "Some (g n c)"] by (auto simp: shape_def)
    moreover have "\<forall>k < 8. ds[n := Some (g n c)] ! k = (if k < Suc n then map_option (g k) (cs ! k) else cs ! k)"
      using ds c Suc.prems by (auto simp: nth_list_update less_Suc_eq)
    ultimately show ?case
      using ds(1) by (intro exI [of _ "ds[n := Some (g n c)]"]) (simp add: for_range_append)
  qed (use assms(1) in simp)
  from this [of 8] obtain ds where ds: "for_range f [0..<8] cs = Inr ds" "shape ds"
      "\<forall>k < 8. ds ! k = map_option (g k) (cs ! k)" by auto
  then have "ds = all_counters g cs"
    using assms(1) by (intro nth_equalityI) simp_all
  with ds show ?thesis by simp
qed

lemma add_counters_shape:
  assumes "shape src" "shape cs"
  shows "add_counters src cs = Inr (charge_counters (used_of src) cs)"
  unfolding add_counters_def using assms
  by (subst length_shape [OF assms(1)], subst for_range_update) (auto simp: used_at_shape all_counters_charge)

lemma add_used_shape:
  assumes "shape src" "shape cs"
  shows "add_used src cs = Inr (all_counters (\<lambda>k c. c\<lparr>used := used c + used_of src k\<rparr>) cs)"
  unfolding add_used_def using assms
  by (subst length_shape [OF assms(1)], subst for_range_update) (auto simp: used_at_shape)

lemma sub_used_shape:
  assumes "shape src" "shape cs"
  shows "sub_used src cs = Inr (all_counters (\<lambda>k c. c\<lparr>used := used c - used_of src k\<rparr>) cs)"
  unfolding sub_used_def using assms
  by (subst length_shape [OF assms(1)], subst for_range_update) (auto simp: used_at_shape)

lemma shape_charge [simp]: "shape cs \<Longrightarrow> shape (charge_counters v cs)"
  by (simp flip: all_counters_charge)

lemma cc_ok_shape: "cc_ok cc \<Longrightarrow> shape (cc_counters cc)"
  by (auto simp: cc_ok_def shape_def list_all_iff counter_ok_def)

text \<open>New counters have nothing used.\<close>

lemma batch_NewCounters_new:
  assumes "c \<in> set (batch_NewCounters u fork)"
  shows "\<exists>x. c = Some x \<and> used x = 0 \<and> remaining x = initialAmount x"
proof (cases u)
  case True
  then show ?thesis
    using assms by (auto simp: batch_NewCounters_def createCountrsByLimits_def NewCounters_def CounterTypesCount_def
        limit_counter_def numeral_eq_Suc)
next
  case False
  then show ?thesis
    using assms getCounterLimits_member [of c fork] by (metis batch_NewCounters_def)
qed

lemma shape_NewCounters [simp]: "shape (batch_NewCounters u fork)"
proof -
  have "length (batch_NewCounters u fork) = CounterTypesCount"
    by (simp add: batch_NewCounters_def getCounterLimits_def createCountrsByLimits_def NewCounters_def)
  then show ?thesis
    using batch_NewCounters_new by (fastforce simp: shape_def)
qed

definition addon_ok :: "counters option \<Rightarrow> bool" where
  "addon_ok addon = (case addon of None \<Rightarrow> True | Some cs \<Rightarrow> shape cs)"

definition addon_used :: "counters option \<Rightarrow> nat \<Rightarrow> gint" where
  "addon_used addon k = (case addon of None \<Rightarrow> 0 | Some cs \<Rightarrow> used_of cs k)"

lemma add_addon_new:
  assumes "addon_ok addon"
  shows "add_addon addon (batch_NewCounters u fork) = Inr (charge_counters (addon_used addon) (batch_NewCounters u fork))"
proof (cases addon)
  case None
  then have "addon_used addon = (\<lambda>_. 0)"
    by (simp add: fun_eq_iff addon_used_def)
  then show ?thesis
    by (simp add: add_addon_def None charge_counters_0)
next
  case (Some src)
  then have src: "shape src"
    using assms by (simp add: addon_ok_def)
  let ?cs = "batch_NewCounters u fork"
  let ?g = "\<lambda>k c. c\<lparr>used := used_of src k, remaining := remaining c - used_of src k\<rparr>"
  have "add_addon addon ?cs = Inr (all_counters ?g ?cs)"
    unfolding add_addon_def Some option.case length_shape [OF src]
    by (rule for_range_update) (auto simp: src used_at_shape)
  moreover have "all_counters ?g ?cs = charge_counters (addon_used addon) ?cs"
  proof (rule nth_equalityI)
    fix k assume "k < length (all_counters ?g ?cs)"
    then have k: "k < length ?cs" by simp
    then obtain x where "?cs ! k = Some x" "used x = 0"
      using batch_NewCounters_new [OF nth_mem] by blast
    with k show "all_counters ?g ?cs ! k = charge_counters (addon_used addon) ?cs ! k"
      by (simp add: deduct_counter_def addon_used_def Some)
  qed simp
  ultimately show ?thesis by simp
qed


section \<open>Charges of any size\<close>

text \<open>\<open>moves f\<close>: on a well formed collector \<open>f\<close> returns, and all it does is to move amounts from remaining to used.\<close>

definition moves :: "cc_op \<Rightarrow> bool" where
  "moves f \<longleftrightarrow> (\<forall>cc. cc_ok cc \<longrightarrow> (\<exists>v. f cc = Inr (charge v cc)))"

lemma costs_moves: "costs n f \<Longrightarrow> moves f"
  by (auto simp: costs_def moves_def)

lemma movesE:
  assumes "moves f" "cc_ok cc"
  obtains v where "f cc = Inr (charge v cc)"
  using assms by (auto simp: moves_def)

lemma moves_rlp_charges: "moves (rlp_charges t raw gp vl ci v)"
proof -
  have ec: "costs 10000 (ecRecover v r s b)" for v r s b
    unfolding ecRecover_def Let_def by (rule costs_mono, (rule costs)+, simp)
  show ?thesis
    unfolding rlp_charges_def Let_def getLenBytes_def
    by (cases "RawSignatureValues t") (simp, rule costs_moves, (rule costs ec)+)
qed

lemma moves_l2Data:
  "moves (seq [Deduct S 100, Deduct P n, Deduct B 2, divArith, Deduct K k, failAssert, consolidateBlock, finishBatchProcessing])"
  by (rule costs_moves, (rule costs)+)

lemma moves_process:
  "moves (seq [Deduct S 300, Deduct B b, Deduct P n, Deduct D 5, Deduct A 2, Deduct K 1, multiCall isColdAddress 2,
     multiCall addArith 3, subArith, divArith, multiCall mulArith 4, fillBlockInfoTreeWithTxReceipt,
     processContractCall l len d c c2])"
  unfolding processContractCall_def moveBalances_def hashPoseidonLinearFromMemory_def
  by (rule costs_moves, (rule costs)+)


section \<open>What a batch uses\<close>

text \<open>What a charge of a new collector uses.\<close>

definition op_used :: "cc_op \<Rightarrow> gint \<Rightarrow> u16 \<Rightarrow> nat \<Rightarrow> gint" where
  "op_used f levels fork k = used_of (cc_counters (projr (f (NewCounterCollector levels fork)))) k"

definition l2_length :: "tc_store \<Rightarrow> nat list \<Rightarrow> gint" where
  "l2_length h ps = sum_list (map (\<lambda>p. of_nat (length (the (l2DataCache (h p))))) ps)"

definition l2_charges :: "tc_store \<Rightarrow> batch_collector \<Rightarrow> cc_op" where
  "l2_charges h b = seq [Deduct S 100, Deduct P (bc_smtLevels b), Deduct B 2, divArith,
     Deduct K (ceil_div (l2_length h (bc_transactions b) + 9 * blockCount b + 1) 136), failAssert, consolidateBlock,
     finishBatchProcessing]"

definition block_used :: "bool \<Rightarrow> batch_collector \<Rightarrow> nat \<Rightarrow> gint" where
  "block_used verify b k = op_used decodeChangeL2BlockTx (smtLevelsForTransaction b) (bc_forkId b) k +
     op_used (processChangeL2Block verify) (smtLevelsForTransaction b) (bc_forkId b) k"

definition l2_used :: "tc_store \<Rightarrow> batch_collector \<Rightarrow> nat \<Rightarrow> gint" where
  "l2_used h b k = op_used (l2_charges h b) (bc_smtLevels b) (bc_forkId b) k"

definition cached_used :: "batch_collector \<Rightarrow> nat \<Rightarrow> gint" where
  "cached_used b = (\<lambda>k. used_of (rlpCombinedCounters b) k + used_of (executionCombinedCounters b) k +
     used_of (processingCombinedCounters b) k)"

definition batch_used :: "bool \<Rightarrow> tc_store \<Rightarrow> batch_collector \<Rightarrow> nat \<Rightarrow> gint" where
  "batch_used verify h b k = addon_used (addonCounters b) k + of_nat (nat (sint (blockCount b))) * block_used verify b k +
     l2_used h b k + cached_used b k"

definition l2_collected :: "tc_store \<Rightarrow> batch_collector \<Rightarrow> batch_collector" where
  "l2_collected h b =
     b\<lparr>l2DataCollector := Some (projr (l2_charges h b (NewCounterCollector (bc_smtLevels b) (bc_forkId b))))\<rparr>"

definition batch_ok :: "tc_store \<Rightarrow> batch_collector \<Rightarrow> bool" where
  "batch_ok h b \<longleftrightarrow> addon_ok (addonCounters b) \<and> uint (bc_smtLevels b) < 2 ^ 16 \<and> uint (smtLevelsForTransaction b) < 2 ^ 16 \<and>
     shape (rlpCombinedCounters b) \<and> shape (executionCombinedCounters b) \<and> shape (processingCombinedCounters b) \<and>
     (\<forall>p \<in> set (bc_transactions b). l2DataCache (h p) \<noteq> None)"

lemma new_ok: "uint levels < 2 ^ 16 \<Longrightarrow> cc_ok (NewCounterCollector levels fork)"
  using new_collector_fresh [of levels fork] by (simp add: fresh_def)

lemma op_run:
  assumes "moves f" "uint levels < 2 ^ 16"
  shows "\<exists>cc. f (NewCounterCollector levels fork) = Inr cc \<and> shape (cc_counters cc) \<and>
    (\<forall>k < 8. used_of (cc_counters cc) k = op_used f levels fork k)"
  using movesE [OF assms(1) new_ok [OF assms(2)], of fork] new_ok [OF assms(2), of fork]
  by (metis cc_ok_charge cc_ok_shape op_used_def sum.sel(2))

lemma charge_cong: "shape cs \<Longrightarrow> (\<And>k. k < 8 \<Longrightarrow> v k = w k) \<Longrightarrow> charge_counters v cs = charge_counters w cs"
  by (rule nth_equalityI) simp_all

lemma l2_collected_simps [simp]:
  "bc_transactions (l2_collected h b) = bc_transactions b" "bc_smtLevels (l2_collected h b) = bc_smtLevels b"
  "smtLevelsForTransaction (l2_collected h b) = smtLevelsForTransaction b" "blockCount (l2_collected h b) = blockCount b"
  "bc_forkId (l2_collected h b) = bc_forkId b" "bc_unlimited (l2_collected h b) = bc_unlimited b"
  "addonCounters (l2_collected h b) = addonCounters b" "rlpCombinedCounters (l2_collected h b) = rlpCombinedCounters b"
  "executionCombinedCounters (l2_collected h b) = executionCombinedCounters b"
  "processingCombinedCounters (l2_collected h b) = processingCombinedCounters b"
  by (simp_all add: l2_collected_def)

lemma encoded_length_cached:
  "(\<forall>p \<in> set ps. l2DataCache (h p) \<noteq> None) \<Longrightarrow> encoded_length h ps n = Inr (n + l2_length h ps, h)"
proof (induction ps arbitrary: n)
  case (Cons p ps)
  then obtain d where d: "l2DataCache (h p) = Some d" by auto
  then show ?case
    using Cons by (simp add: GetL2DataCache_def l2_length_def algebra_simps)
qed (simp add: l2_length_def)

lemma processBatchLevelData_ok:
  assumes "batch_ok h b"
  shows "processBatchLevelData h b = Inr (h, l2_collected h b)" "shape (cc_counters (the (l2DataCollector (l2_collected h b))))"
    "\<And>k. k < 8 \<Longrightarrow> used_of (cc_counters (the (l2DataCollector (l2_collected h b)))) k = l2_used h b k"
proof -
  have "moves (l2_charges h b)"
    unfolding l2_charges_def by (rule moves_l2Data)
  then obtain cc where cc: "l2_charges h b (NewCounterCollector (bc_smtLevels b) (bc_forkId b)) = Inr cc"
    "shape (cc_counters cc)" "\<forall>k < 8. used_of (cc_counters cc) k = l2_used h b k"
    using op_run [of "l2_charges h b" "bc_smtLevels b" "bc_forkId b"] assms by (auto simp: batch_ok_def l2_used_def)
  then show "processBatchLevelData h b = Inr (h, l2_collected h b)"
    using assms by (simp add: processBatchLevelData_def encoded_length_cached batch_ok_def l2_collected_def l2_charges_def Let_def)
  show "shape (cc_counters (the (l2DataCollector (l2_collected h b))))"
    "\<And>k. k < 8 \<Longrightarrow> used_of (cc_counters (the (l2DataCollector (l2_collected h b)))) k = l2_used h b k"
    using cc by (simp_all add: l2_collected_def)
qed

lemma add_blocks_shape:
  assumes "shape c" "shape d"
  shows "shape cs \<Longrightarrow> add_blocks n c d cs = Inr (charge_counters (\<lambda>k. of_nat n * (used_of d k + used_of c k)) cs)"
proof (induction n arbitrary: cs)
  case (Suc n)
  then show ?case
    using assms by (simp add: add_counters_shape charge_counters_add algebra_simps)
qed (simp add: charge_counters_0)

lemma CombineCollectors_closed:
  assumes "batch_ok h b"
  shows "CombineCollectors verify h b =
    Inr (charge_counters (batch_used verify h b) (batch_NewCounters (bc_unlimited b) (bc_forkId b)), h, l2_collected h b)"
proof -
  let ?fork = "bc_forkId b" and ?levels = "smtLevelsForTransaction b" and ?new = "batch_NewCounters (bc_unlimited b) (bc_forkId b)"
  note ok = assms [unfolded batch_ok_def]
  obtain c where c: "processChangeL2Block verify (NewCounterCollector ?levels ?fork) = Inr c" "shape (cc_counters c)"
    "\<forall>k < 8. used_of (cc_counters c) k = op_used (processChangeL2Block verify) ?levels ?fork k"
    using op_run [OF costs_moves [OF costs_processChangeL2Block]] ok by blast
  obtain d where d: "decodeChangeL2BlockTx (NewCounterCollector ?levels ?fork) = Inr d" "shape (cc_counters d)"
    "\<forall>k < 8. used_of (cc_counters d) k = op_used decodeChangeL2BlockTx ?levels ?fork k"
    using op_run [OF costs_moves [OF costs_layer1(2)]] ok by blast
  note l2 = processBatchLevelData_ok [OF assms]
  have last: "for_range (\<lambda>k cs. res_bind (used_at (rlpCombinedCounters b) k) (\<lambda>r.
       res_bind (used_at (executionCombinedCounters b) k) (\<lambda>e. res_bind (used_at (processingCombinedCounters b) k) (\<lambda>p.
       update_at (deduct_counter (r + e + p)) k cs)))) [0..<8] cs = Inr (charge_counters (cached_used b) cs)" if "shape cs" for cs
    by (subst for_range_update [OF that]) (auto simp: ok used_at_shape cached_used_def all_counters_charge)
  have l2': "add_l2Data (l2_collected h b) cs = Inr (charge_counters (used_of (cc_counters (the (l2DataCollector (l2_collected h b))))) cs)"
    if "shape cs" for cs
    using add_counters_shape [OF l2(2) that] by (simp add: add_l2Data_def l2_collected_def)
  have "CombineCollectors verify h b = Inr (charge_counters (cached_used b)
      (charge_counters (used_of (cc_counters (the (l2DataCollector (l2_collected h b)))))
      (charge_counters (\<lambda>k. of_nat (nat (sint (blockCount b))) * (used_of (cc_counters d) k + used_of (cc_counters c) k))
      (charge_counters (addon_used (addonCounters b)) ?new))), h, l2_collected h b)"
    using ok by (simp add: CombineCollectors_def add_addon_new l2(1) c(1) d(1) add_blocks_shape [OF c(2) d(2)] l2' last)
  also have "\<dots> = Inr (charge_counters (batch_used verify h b) ?new, h, l2_collected h b)"
    using l2(3) c(3) d(3) by (auto simp: charge_counters_add batch_used_def block_used_def algebra_simps intro!: charge_cong)
  finally show ?thesis .
qed


section \<open>The verdict on a batch\<close>

definition limit_of :: "u16 \<Rightarrow> nat \<Rightarrow> gint" where
  "limit_of fork k = initialAmount (the (getCounterLimits fork ! k))"

lemma any_overflow_members:
  "None \<notin> set cs \<Longrightarrow> any_overflow cs w = Inr (w \<or> (\<exists>c. Some c \<in> set cs \<and> sint (remaining c) < 0))"
  by (induction cs w rule: any_overflow.induct) auto

lemma any_overflow_shape:
  assumes "shape cs"
  shows "any_overflow cs False = Inr (\<exists>k < 8. sint (remaining (the (cs ! k))) < 0)"
proof -
  have "(\<exists>c. Some c \<in> set cs \<and> sint (remaining c) < 0) \<longleftrightarrow> (\<exists>k < 8. sint (remaining (the (cs ! k))) < 0)"
    using shape_at [OF assms] length_shape [OF assms] by (metis in_set_conv_nth option.sel)
  then show ?thesis
    using assms any_overflow_members [of cs False] by (simp add: shape_def)
qed

lemma CheckForOverflow_closed:
  assumes "batch_ok h b" "\<not> bc_unlimited b"
  shows "CheckForOverflow verify h b =
    Inr ((\<exists>k < 8. sint (limit_of (bc_forkId b) k - batch_used verify h b k) < 0), h, l2_collected h b)"
proof -
  let ?new = "batch_NewCounters (bc_unlimited b) (bc_forkId b)"
  have left: "remaining (the (charge_counters v ?new ! k)) = limit_of (bc_forkId b) k - v k" if k: "k < 8" for k v
  proof -
    obtain c where "?new ! k = Some c" "remaining c = initialAmount c"
      using batch_NewCounters_new [OF nth_mem, of k "bc_unlimited b" "bc_forkId b"] length_shape [OF shape_NewCounters] k by metis
    then show ?thesis
      using k assms(2) length_shape [OF shape_NewCounters, of False "bc_forkId b"]
      by (simp add: deduct_counter_def limit_of_def batch_NewCounters_def)
  qed
  have "any_overflow (charge_counters v ?new) False = Inr (\<exists>k < 8. sint (limit_of (bc_forkId b) k - v k) < 0)" for v
    by (simp only: any_overflow_shape shape_charge shape_NewCounters left cong: conj_cong)
  then show ?thesis
    using assms by (simp add: CheckForOverflow_def CombineCollectors_closed)
qed

section \<open>The operations in any order\<close>

text \<open>
  The sequencer adds a transaction, executes it, brings the sums up to date and removes it again if it does not fit. A
  state has the transactions whose execution is in the sums, the store and the collector. The counters of a transaction
  may change until its execution is in the sums; what is removed is either in the sums or has not been executed.
\<close>

type_synonym batch_state = "nat set \<times> tc_store \<times> batch_collector"

definition tc_ok :: "tx_counter \<Rightarrow> bool" where
  "tc_ok tc \<longleftrightarrow> uint (tc_smtLevels tc) < 2 ^ 16 \<and> shape (cc_counters (executionCounters tc)) \<and>
     shape (cc_counters (processingCounters tc))"

definition not_run :: "tx_counter \<Rightarrow> bool" where
  "not_run tc \<longleftrightarrow> (\<forall>k < 8. used_of (cc_counters (executionCounters tc)) k = 0 \<and> used_of (cc_counters (processingCounters tc)) k = 0)"

inductive batch_step :: "batch_state \<Rightarrow> batch_state \<Rightarrow> bool" where
  new_block: "StartNewBlock v h b = Inr (ov, h', b') \<Longrightarrow> batch_step (run, h, b) (run, h', b')"
| check: "CheckForOverflow v h b = Inr (ov, h', b') \<Longrightarrow> batch_step (run, h, b) (run, h', b')"
| add: "p \<notin> set (bc_transactions b) \<Longrightarrow> tc_ok (h p) \<Longrightarrow> AddNewTransactionCounters p h b = Inr (ov, h', b') \<Longrightarrow>
    batch_step (run, h, b) (run, h', b')"
| execute: "p \<notin> run \<Longrightarrow> cc_ok cc \<Longrightarrow> batch_step (run, h, b) (run, h(p := (h p)\<lparr>executionCounters := cc\<rparr>), b)"
| process: "p \<notin> run \<Longrightarrow> tc_ok (h p) \<Longrightarrow> ProcessTx ibs ret (h p) = Inr tc \<Longrightarrow> batch_step (run, h, b) (run, h(p := tc), b)"
| update: "p \<in> set (bc_transactions b) \<Longrightarrow> p \<notin> run \<Longrightarrow> UpdateExecutionAndProcessingCountersCache (h p) b = Inr b' \<Longrightarrow>
    batch_step (run, h, b) (insert p run, h, b')"
| remove: "bc_transactions b = ps @ [p] \<Longrightarrow> p \<in> run \<or> not_run (h p) \<Longrightarrow> RemovePreviousTransactionCounters h b = Inr b' \<Longrightarrow>
    batch_step (run, h, b) (run - {p}, h, b')"

definition sum_used :: "(tx_counter \<Rightarrow> counter_collector) \<Rightarrow> tc_store \<Rightarrow> nat list \<Rightarrow> nat \<Rightarrow> gint" where
  "sum_used f h ps k = sum_list (map (\<lambda>p. used_of (cc_counters (f (h p))) k) ps)"

fun batch_inv :: "batch_state \<Rightarrow> bool" where
  "batch_inv (run, h, b) \<longleftrightarrow>
     batch_ok h b \<and> distinct (bc_transactions b) \<and> run \<subseteq> set (bc_transactions b) \<and>
     (\<forall>p \<in> set (bc_transactions b). tc_ok (h p) \<and> shape (cc_counters (rlpCounters (h p)))) \<and>
     (\<forall>k < 8. used_of (rlpCombinedCounters b) k = sum_used rlpCounters h (bc_transactions b) k \<and>
        used_of (executionCombinedCounters b) k = sum_used executionCounters h (filter (\<lambda>p. p \<in> run) (bc_transactions b)) k \<and>
        used_of (processingCombinedCounters b) k = sum_used processingCounters h (filter (\<lambda>p. p \<in> run) (bc_transactions b)) k)"

lemma sum_used_cong: "(\<And>p. p \<in> set ps \<Longrightarrow> f (h p) = f (h' p)) \<Longrightarrow> sum_used f h ps k = sum_used f h' ps k"
  unfolding sum_used_def by (metis (mono_tags, lifting) map_eq_conv)

lemma sum_used_append: "sum_used f h (ps @ qs) k = sum_used f h ps k + sum_used f h qs k"
  by (simp add: sum_used_def)

lemma sum_used_single: "sum_used f h [p] k = used_of (cc_counters (f (h p))) k"
  by (simp add: sum_used_def)

lemma batch_inv_collected: "batch_inv (run, h, b) \<Longrightarrow> batch_inv (run, h, l2_collected h b)"
  by (simp add: batch_ok_def)

lemma check_inv:
  assumes "batch_inv (run, h, b)" "CheckForOverflow v h b = Inr (ov, h', b')"
  shows "batch_inv (run, h', b') \<and> h' = h"
proof (cases "bc_unlimited b")
  case True
  then show ?thesis
    using assms by (simp add: CheckForOverflow_def)
next
  case False
  then have "h' = h" "b' = l2_collected h b"
    using assms CheckForOverflow_closed [of h b v] by auto
  then show ?thesis
    using batch_inv_collected [OF assms(1)] by simp
qed


lemma block_inv:
  assumes "batch_inv (run, h, b)" "StartNewBlock v h b = Inr (ov, h', b')"
  shows "batch_inv (run, h', b')"
proof -
  have "batch_inv (run, h, b\<lparr>blockCount := blockCount b + 1\<rparr>)"
    using assms(1) by (simp add: batch_ok_def)
  then show ?thesis
    using check_inv assms(2) unfolding StartNewBlock_def by blast
qed

lemma CalculateRlp_ok:
  assumes "CalculateRlp tc = Inr tc'" "uint (tc_smtLevels tc) < 2 ^ 16"
  shows "l2DataCache tc' \<noteq> None \<and> shape (cc_counters (rlpCounters tc')) \<and> tc_smtLevels tc' = tc_smtLevels tc \<and>
    executionCounters tc' = executionCounters tc \<and> processingCounters tc' = processingCounters tc"
proof -
  obtain raw tc1 where g: "GetL2DataCache tc = Inr (raw, tc1)"
    using assms(1) by (auto simp: CalculateRlp_def res_bind_eq_Inr)
  then have tc1: "l2DataCache tc1 \<noteq> None" "tc_smtLevels tc1 = tc_smtLevels tc" "executionCounters tc1 = executionCounters tc"
    "processingCounters tc1 = processingCounters tc"
    by (auto simp: GetL2DataCache_def res_bind_eq_Inr split: option.splits)
  obtain t r x y z v cc where cc: "rlp_charges t r x y z v (NewCounterCollector (tc_smtLevels tc1) (tc_forkId tc1)) = Inr cc"
    "tc' = tc1\<lparr>rlpCounters := cc\<rparr>"
    using assms(1) g by (auto simp: CalculateRlp_def Let_def res_bind_eq_Inr)
  then have "shape (cc_counters cc)"
    using op_run [OF moves_rlp_charges, where levels = "tc_smtLevels tc1" and fork = "tc_forkId tc1"] assms(2) tc1(2)
    by (metis sum.inject(2))
  then show ?thesis
    using cc(2) tc1 by simp
qed

text \<open>The collector with a further transaction.\<close>

definition with_tx :: "nat \<Rightarrow> tx_counter \<Rightarrow> batch_collector \<Rightarrow> batch_collector" where
  "with_tx p tc b = b\<lparr>bc_transactions := bc_transactions b @ [p], rlpCombinedCounters :=
     all_counters (\<lambda>k c. c\<lparr>used := used c + used_of (cc_counters (rlpCounters tc)) k\<rparr>) (rlpCombinedCounters b)\<rparr>"

lemma with_tx_inv:
  assumes "batch_inv (run, h, b)" "p \<notin> set (bc_transactions b)" "l2DataCache tc \<noteq> None" "shape (cc_counters (rlpCounters tc))" "tc_ok tc"
  shows "batch_inv (run, h(p := tc), with_tx p tc b)"
proof -
  have p: "p \<notin> run"
    using assms(1,2) by auto
  have sums: "sum_used f (h(p := tc)) (filter P (bc_transactions b)) k = sum_used f h (filter P (bc_transactions b)) k" for f P k
    using assms(2) by (intro sum_used_cong) auto
  have sums': "sum_used f (h(p := tc)) (bc_transactions b) k = sum_used f h (bc_transactions b) k" for f k
    using assms(2) by (intro sum_used_cong) auto
  show ?thesis
    using assms p
    by (auto simp: with_tx_def batch_ok_def sum_used_append sum_used_single sums sums' used_of_def [of "rlpCombinedCounters b"])
qed

lemma AddNew_result:
  assumes "batch_inv (run, h, b)" "p \<notin> set (bc_transactions b)" "tc_ok (h p)" "AddNewTransactionCounters p h b = Inr (ov, h', b')"
  obtains tc where "h' = h(p := tc)" "batch_inv (run, h', b')" "executionCounters tc = executionCounters (h p)"
    "processingCounters tc = processingCounters (h p)" "b' = with_tx p tc b \<or> b' = l2_collected h' (with_tx p tc b)"
proof -
  obtain tc b1 where tc: "CalculateRlp (h p) = Inr tc"
    and b1: "UpdateRlpCountersCache tc (b\<lparr>bc_transactions := bc_transactions b @ [p]\<rparr>) = Inr b1"
    and c: "CheckForOverflow False (h(p := tc)) b1 = Inr (ov, h', b')"
    using assms(4) by (auto simp: AddNewTransactionCounters_def res_bind_eq_Inr)
  have ok: "l2DataCache tc \<noteq> None" "shape (cc_counters (rlpCounters tc))" "tc_ok tc" "executionCounters tc = executionCounters (h p)"
    "processingCounters tc = processingCounters (h p)"
    using CalculateRlp_ok [OF tc] assms(3) by (simp_all add: tc_ok_def)
  have "shape (rlpCombinedCounters b)"
    using assms(1) by (simp add: batch_ok_def)
  then have b1: "b1 = with_tx p tc b"
    using b1 ok(2) by (simp add: UpdateRlpCountersCache_def add_used_shape with_tx_def)
  have inv: "batch_inv (run, h(p := tc), b1)"
    using with_tx_inv [OF assms(1,2) ok(1-3)] b1 by simp
  moreover have "b' = b1 \<or> b' = l2_collected h' b1"
    using c inv CheckForOverflow_closed [of "h(p := tc)" b1 False] by (cases "bc_unlimited b1") (auto simp: CheckForOverflow_def)
  ultimately show thesis
    using that [of tc] check_inv [OF inv c] ok b1 by blast
qed

lemma add_inv:
  assumes "batch_inv (run, h, b)" "p \<notin> set (bc_transactions b)" "tc_ok (h p)" "AddNewTransactionCounters p h b = Inr (ov, h', b')"
  shows "batch_inv (run, h', b')"
  using AddNew_result [OF assms] by blast

text \<open>A transaction that is not in the sums may be charged further.\<close>

lemma charged_inv:
  assumes "batch_inv (run, h, b)" "p \<notin> run" "rlpCounters tc = rlpCounters (h p)" "l2DataCache tc = l2DataCache (h p)"
    "p \<in> set (bc_transactions b) \<Longrightarrow> tc_ok tc"
  shows "batch_inv (run, h(p := tc), b)"
proof -
  have rlp: "sum_used rlpCounters (h(p := tc)) ps k = sum_used rlpCounters h ps k" for ps k
    using assms(3) by (intro sum_used_cong) simp
  have run: "sum_used f (h(p := tc)) (filter (\<lambda>p. p \<in> run) ps) k = sum_used f h (filter (\<lambda>p. p \<in> run) ps) k" for f ps k
    using assms(2) by (intro sum_used_cong) auto
  show ?thesis
    using assms by (auto simp: batch_ok_def rlp run)
qed

lemma ProcessTx_ok:
  assumes "ProcessTx ibs ret tc = Inr tc'" "tc_ok tc"
  shows "rlpCounters tc' = rlpCounters tc \<and> l2DataCache tc' = l2DataCache tc \<and> tc_ok tc'"
proof -
  obtain b len d cc where cc: "seq [Deduct S 300, Deduct B b, Deduct P (14 * tc_smtLevels tc), Deduct D 5, Deduct A 2, Deduct K 1,
     multiCall isColdAddress 2, multiCall addArith 3, subArith, divArith, multiCall mulArith 4, fillBlockInfoTreeWithTxReceipt,
     processContractCall (tc_smtLevels tc) len d False False] (NewCounterCollector (tc_smtLevels tc) (tc_forkId tc)) = Inr cc"
    "tc' = tc\<lparr>processingCounters := cc\<rparr>"
    using assms(1) unfolding ProcessTx_def Let_def res_bind_eq_Inr by blast
  have "shape (cc_counters cc)"
    using op_run [OF moves_process] assms(2) cc(1) unfolding tc_ok_def by (metis sum.inject(2))
  then show ?thesis
    using assms(2) cc(2) by (simp add: tc_ok_def)
qed

lemma update_inv:
  assumes "batch_inv (run, h, b)" "p \<in> set (bc_transactions b)" "p \<notin> run" "UpdateExecutionAndProcessingCountersCache (h p) b = Inr b'"
  shows "batch_inv (insert p run, h, b')"
proof -
  let ?add = "\<lambda>src. all_counters (\<lambda>k c. c\<lparr>used := used c + used_of src k\<rparr>)"
  have shapes: "shape (executionCombinedCounters b)" "shape (processingCombinedCounters b)"
    "shape (cc_counters (executionCounters (h p)))" "shape (cc_counters (processingCounters (h p)))"
    using assms(1,2) by (auto simp: batch_ok_def tc_ok_def)
  then have b': "b' = b\<lparr>executionCombinedCounters := ?add (cc_counters (executionCounters (h p))) (executionCombinedCounters b),
      processingCombinedCounters := ?add (cc_counters (processingCounters (h p))) (processingCombinedCounters b)\<rparr>"
    using assms(4) by (simp add: UpdateExecutionAndProcessingCountersCache_def add_used_shape)
  obtain ps qs where split: "bc_transactions b = ps @ p # qs" "p \<notin> set ps" "p \<notin> set qs"
    using assms(1,2) by (auto dest: split_list)
  have "filter (\<lambda>q. q = p \<or> q \<in> run) xs = filter (\<lambda>q. q \<in> run) xs" if "p \<notin> set xs" for xs
    using that by (intro filter_cong) auto
  then have sums: "sum_used f h (filter (\<lambda>q. q = p \<or> q \<in> run) (bc_transactions b)) k =
      sum_used f h (filter (\<lambda>q. q \<in> run) (bc_transactions b)) k + used_of (cc_counters (f (h p))) k" for f k
    using split assms(3) by (simp add: sum_used_def algebra_simps)
  show ?thesis
    using assms(1,2) shapes
    by (auto simp: b' batch_ok_def sums used_of_def [of "executionCombinedCounters b"] used_of_def [of "processingCombinedCounters b"])
qed

lemma remove_inv:
  assumes "batch_inv (run, h, b)" "bc_transactions b = ps @ [p]" "p \<in> run \<or> not_run (h p)"
    "RemovePreviousTransactionCounters h b = Inr b'"
  shows "batch_inv (run - {p}, h, b')"
proof -
  let ?sub = "\<lambda>src. all_counters (\<lambda>k c. c\<lparr>used := used c - used_of src k\<rparr>)"
  have shapes: "shape (rlpCombinedCounters b)" "shape (executionCombinedCounters b)" "shape (processingCombinedCounters b)"
    "shape (cc_counters (rlpCounters (h p)))" "shape (cc_counters (executionCounters (h p)))"
    "shape (cc_counters (processingCounters (h p)))"
    using assms(1,2) by (auto simp: batch_ok_def tc_ok_def)
  then have b': "b' = b\<lparr>rlpCombinedCounters := ?sub (cc_counters (rlpCounters (h p))) (rlpCombinedCounters b),
      executionCombinedCounters := ?sub (cc_counters (executionCounters (h p))) (executionCombinedCounters b),
      processingCombinedCounters := ?sub (cc_counters (processingCounters (h p))) (processingCombinedCounters b),
      bc_transactions := ps\<rparr>"
    using assms(2,4) by (simp add: RemovePreviousTransactionCounters_def UndoTransactionCountersCache_def sub_used_shape)
  have p: "p \<notin> set ps"
    using assms(1,2) by simp
  have "filter (\<lambda>q. q \<in> run \<and> q \<noteq> p) ps = filter (\<lambda>q. q \<in> run) ps"
    using p by (intro filter_cong) auto
  then have sums: "sum_used f h (filter (\<lambda>q. q \<in> run \<and> q \<noteq> p) ps) k =
      sum_used f h (filter (\<lambda>q. q \<in> run) (bc_transactions b)) k - (if p \<in> run then used_of (cc_counters (f (h p))) k else 0)" for f k
    using assms(2) by (simp add: sum_used_def)
  have rlp: "sum_used rlpCounters h ps k =
      sum_used rlpCounters h (bc_transactions b) k - used_of (cc_counters (rlpCounters (h p))) k" for k
    using assms(2) by (simp add: sum_used_def)
  have "run - {p} \<subseteq> set ps"
    using assms(1,2) by auto
  then show ?thesis
    using assms(1-3) shapes p
    by (auto simp: b' batch_ok_def sums rlp not_run_def used_of_def [of "rlpCombinedCounters b"]
        used_of_def [of "executionCombinedCounters b"] used_of_def [of "processingCombinedCounters b"])
qed

lemma batch_step_inv: "batch_step s s' \<Longrightarrow> batch_inv s \<Longrightarrow> batch_inv s'"
proof (induction rule: batch_step.induct)
  case (execute p run cc h b)
  then show ?case
    by (intro charged_inv) (auto simp: tc_ok_def cc_ok_shape)
next
  case (process p run h ibs ret tc b)
  then show ?case
    using ProcessTx_ok [of ibs ret "h p" tc] by (intro charged_inv) auto
next
  case (new_block v h b ov h' b' run)
  then show ?case
    by (metis block_inv)
next
  case (check v h b ov h' b' run)
  then show ?case
    by (metis check_inv)
next
  case (add p b h ov h' b' run)
  then show ?case
    by (metis add_inv)
next
  case (update p b run h b')
  then show ?case
    by (metis update_inv)
next
  case (remove b ps p run h b')
  then show ?case
    by (metis remove_inv)
qed


lemma batch_run_inv: "batch_step\<^sup>*\<^sup>* s s' \<Longrightarrow> batch_inv s \<Longrightarrow> batch_inv s'"
  by (induction rule: rtranclp_induct) (auto intro: batch_step_inv)

lemma new_batch_inv:
  assumes "addon_ok addon" "uint (calculateSmtLevels m 0 mcp) < 2 ^ 16" "uint (calculateSmtLevels m 32 mcp) < 2 ^ 16"
  shows "batch_inv ({}, h, NewBatchCounterCollector m fork mcp u addon)"
proof -
  have "used_of (batch_NewCounters u fork) k = 0" if "k < 8" for k
    using that batch_NewCounters_new [OF nth_mem, of k u fork] length_shape [OF shape_NewCounters, of u fork]
    by (auto simp: used_of_def)
  then show ?thesis
    using assms by (simp add: NewBatchCounterCollector_def batch_ok_def sum_used_def)
qed

text \<open>What the transactions used, with the execution of those that are in the sums.\<close>

definition txs_used :: "nat set \<Rightarrow> tc_store \<Rightarrow> nat list \<Rightarrow> nat \<Rightarrow> gint" where
  "txs_used run h ps k = (\<Sum>p \<leftarrow> ps. used_of (cc_counters (rlpCounters (h p))) k +
     (if p \<in> run then used_of (cc_counters (executionCounters (h p))) k + used_of (cc_counters (processingCounters (h p))) k else 0))"

lemma cached_used_inv:
  assumes "batch_inv (run, h, b)" "k < 8"
  shows "cached_used b k = txs_used run h (bc_transactions b) k"
proof -
  have "sum_used rlpCounters h ps k + sum_used executionCounters h (filter (\<lambda>p. p \<in> run) ps) k +
      sum_used processingCounters h (filter (\<lambda>p. p \<in> run) ps) k = txs_used run h ps k" for ps
    by (induction ps) (simp_all add: sum_used_def txs_used_def algebra_simps)
  then show ?thesis
    using assms by (simp add: cached_used_def)
qed

text \<open>C28. However a batch came about, the verdict of \<^verbatim>\<open>CheckForOverflow\<close> is that of its transactions: it is positive
  exactly when, for some counter, the limit of the fork is less than what was used before, by the blocks, by the data of
  the batch and by the transactions. The sums kept while transactions come and go never drift from the transactions.\<close>

theorem CheckForOverflow_counts_batch:
  assumes "batch_step\<^sup>*\<^sup>* ({}, h0, NewBatchCounterCollector m fork mcp u addon) (run, h, b)" "addon_ok addon"
    "uint (calculateSmtLevels m 0 mcp) < 2 ^ 16" "uint (calculateSmtLevels m 32 mcp) < 2 ^ 16" "\<not> bc_unlimited b"
  shows "\<exists>b'. CheckForOverflow verify h b = Inr ((\<exists>k < 8. sint (limit_of (bc_forkId b) k -
      (addon_used (addonCounters b) k + of_nat (nat (sint (blockCount b))) * block_used verify b k + l2_used h b k +
       txs_used run h (bc_transactions b) k)) < 0), h, b')"
proof -
  have inv: "batch_inv (run, h, b)"
    using assms(1) new_batch_inv [OF assms(2-4)] by (rule batch_run_inv)
  then show ?thesis
    using CheckForOverflow_closed [of h b verify] assms(5) by (simp add: batch_used_def cached_used_inv [OF inv] cong: conj_cong)
qed


lemma levels_30: "calculateSmtLevels 30 0 1 = 31" "calculateSmtLevels 30 32 1 = 32"
proof -
  have "floorlog 2 1073791824 = 31"
    by (simp add: compute_floorlog)
  then show "calculateSmtLevels 30 0 1 = 31" "calculateSmtLevels 30 32 1 = 32"
    using fl64_int [of 31] fl64_int [of 32]
    by (simp_all add: calculateSmtLevels_def float64_mult_def float64_of_int_def)
qed

theorem CheckForOverflow_counts_batch_witness:
  "\<exists>h0 b b'. batch_step\<^sup>*\<^sup>* ({}, h0, NewBatchCounterCollector 30 12 1 False None) ({}, h0, b) \<and> blockCount b = 1 \<and>
    CheckForOverflow True h0 b = Inr ((\<exists>k < 8. sint (limit_of (bc_forkId b) k -
      (addon_used (addonCounters b) k + of_nat (nat (sint (blockCount b))) * block_used True b k + l2_used h0 b k +
       txs_used {} h0 (bc_transactions b) k)) < 0), h0, b')"
proof -
  define h0 :: tc_store where "h0 = (\<lambda>_. NewTransactionCounter (LegacyTx_methods example_tx) 30 12 1 False)"
  let ?b = "(NewBatchCounterCollector 30 12 1 False None)\<lparr>blockCount := 1\<rparr>"
  have ok: "addon_ok None" "uint (calculateSmtLevels 30 0 1) < 2 ^ 16" "uint (calculateSmtLevels 30 32 1) < 2 ^ 16"
    by (simp_all add: addon_ok_def levels_30)
  have "batch_ok h0 ?b"
    using new_batch_inv [OF ok, of h0 12 False] by (simp add: batch_ok_def)
  then obtain ov where "StartNewBlock True h0 (NewBatchCounterCollector 30 12 1 False None) = Inr (ov, h0, l2_collected h0 ?b)"
    using CheckForOverflow_closed [of h0 ?b True] by (simp add: StartNewBlock_def NewBatchCounterCollector_def)
  then have run: "batch_step\<^sup>*\<^sup>* ({}, h0, NewBatchCounterCollector 30 12 1 False None) ({}, h0, l2_collected h0 ?b)"
    by (intro r_into_rtranclp new_block)
  have "\<not> bc_unlimited (l2_collected h0 ?b)" "blockCount (l2_collected h0 ?b) = 1"
    by (simp_all add: NewBatchCounterCollector_def)
  then show ?thesis
    using run CheckForOverflow_counts_batch [OF run ok, of True] by blast
qed


section \<open>Removing a transaction\<close>

lemma RemovePrevious_ok:
  assumes "batch_inv (run, h, b)" "bc_transactions b = ps @ [p]"
  shows "\<exists>b'. RemovePreviousTransactionCounters h b = Inr b' \<and> bc_transactions b' = ps \<and> blockCount b' = blockCount b \<and>
    bc_forkId b' = bc_forkId b \<and> bc_unlimited b' = bc_unlimited b \<and> addonCounters b' = addonCounters b \<and>
    bc_smtLevels b' = bc_smtLevels b \<and> smtLevelsForTransaction b' = smtLevelsForTransaction b"
proof -
  have "shape (rlpCombinedCounters b)" "shape (executionCombinedCounters b)" "shape (processingCombinedCounters b)"
    "shape (cc_counters (rlpCounters (h p)))" "shape (cc_counters (executionCounters (h p)))"
    "shape (cc_counters (processingCounters (h p)))"
    using assms by (auto simp: batch_ok_def tc_ok_def)
  then show ?thesis
    using assms(2) by (simp add: RemovePreviousTransactionCounters_def UndoTransactionCountersCache_def sub_used_shape)
qed

lemma batch_used_cong:
  assumes "batch_inv (run, h, b)" "batch_inv (run, h', b')" "\<And>p. p \<in> set (bc_transactions b) \<Longrightarrow> h' p = h p"
    "bc_transactions b' = bc_transactions b" "blockCount b' = blockCount b" "bc_forkId b' = bc_forkId b"
    "addonCounters b' = addonCounters b" "bc_smtLevels b' = bc_smtLevels b" "smtLevelsForTransaction b' = smtLevelsForTransaction b" "k < 8"
  shows "batch_used v h' b' k = batch_used v h b k"
proof -
  have l2: "l2_length h' (bc_transactions b) = l2_length h (bc_transactions b)"
    unfolding l2_length_def by (rule arg_cong [where f = sum_list], rule map_cong [OF refl]) (simp add: assms(3))
  have "txs_used run h' (bc_transactions b) k = txs_used run h (bc_transactions b) k"
    unfolding txs_used_def by (rule arg_cong [where f = sum_list], rule map_cong [OF refl]) (simp add: assms(3))
  then have "cached_used b' k = cached_used b k"
    using cached_used_inv [OF assms(1,10)] cached_used_inv [OF assms(2,10)] assms(4) by simp
  moreover have "l2_used h' b' k = l2_used h b k"
    using assms(4-9) l2 by (simp add: l2_used_def l2_charges_def)
  ultimately show ?thesis
    using assms(4-9) by (simp add: batch_used_def block_used_def)
qed

text \<open>C29. A transaction that is tried and removed again before it is executed leaves no trace in the next check: the
  transactions are as before, and a check that follows the removal, with or without the Merkle proof, has the verdict it
  would have had without the transaction.\<close>

theorem RemovePrevious_undoes_AddNew:
  assumes "batch_step\<^sup>*\<^sup>* ({}, h0, NewBatchCounterCollector m fork mcp False addon) (run, h, b)" "addon_ok addon"
    "uint (calculateSmtLevels m 0 mcp) < 2 ^ 16" "uint (calculateSmtLevels m 32 mcp) < 2 ^ 16" "\<not> bc_unlimited b"
    "p \<notin> set (bc_transactions b)" "tc_ok (h p)" "not_run (h p)" "AddNewTransactionCounters p h b = Inr (ov, h', b')"
  shows "\<exists>b''. RemovePreviousTransactionCounters h' b' = Inr b'' \<and> bc_transactions b'' = bc_transactions b \<and>
    (\<exists>w c d. CheckForOverflow verify h b = Inr (w, h, c) \<and> CheckForOverflow verify h' b'' = Inr (w, h', d))"
proof -
  have inv: "batch_inv (run, h, b)"
    using assms(1) new_batch_inv [OF assms(2-4)] by (rule batch_run_inv)
  obtain tc where h': "h' = h(p := tc)" and inv': "batch_inv (run, h', b')" and tc: "executionCounters tc = executionCounters (h p)"
    "processingCounters tc = processingCounters (h p)" and b': "b' = with_tx p tc b \<or> b' = l2_collected h' (with_tx p tc b)"
    using AddNew_result [OF inv assms(6,7,9)] .
  then have new: "bc_transactions b' = bc_transactions b @ [p]" "blockCount b' = blockCount b" "bc_forkId b' = bc_forkId b"
    "bc_unlimited b' = bc_unlimited b" "addonCounters b' = addonCounters b" "bc_smtLevels b' = bc_smtLevels b"
    "smtLevelsForTransaction b' = smtLevelsForTransaction b"
    by (auto simp: with_tx_def)
  obtain b2 where b2: "RemovePreviousTransactionCounters h' b' = Inr b2" "bc_transactions b2 = bc_transactions b"
    "blockCount b2 = blockCount b" "bc_forkId b2 = bc_forkId b" "bc_unlimited b2 = bc_unlimited b" "addonCounters b2 = addonCounters b"
    "bc_smtLevels b2 = bc_smtLevels b" "smtLevelsForTransaction b2 = smtLevelsForTransaction b"
    using RemovePrevious_ok [OF inv' new(1)] new by auto
  have "run - {p} = run"
    using inv assms(6) by auto
  then have inv2: "batch_inv (run, h', b2)"
    using remove_inv [OF inv' new(1) _ b2(1)] tc assms(8) by (simp add: not_run_def h')
  have "batch_used verify h' b2 k = batch_used verify h b k" if "k < 8" for k
    using inv inv2 _ b2(2-4,6-8) that by (rule batch_used_cong) (use assms(6) h' in auto)
  then have "(\<exists>k < 8. sint (limit_of (bc_forkId b2) k - batch_used verify h' b2 k) < 0) =
      (\<exists>k < 8. sint (limit_of (bc_forkId b) k - batch_used verify h b k) < 0)"
    using b2(4) by (simp cong: conj_cong)
  then show ?thesis
    using CheckForOverflow_closed [of h b verify] CheckForOverflow_closed [of h' b2 verify] inv inv2 assms(5) b2 by auto
qed


text \<open>A signed transaction can be added.\<close>

lemma CalculateRlp_signed:
  assumes "tc_transaction tc = LegacyTx_methods t" "signed_tx t" "ct_Value t \<noteq> None" "uint (tc_smtLevels tc) < 2 ^ 16" "l2DataCache tc = None"
  shows "\<exists>tc'. CalculateRlp tc = Inr tc'"
proof -
  obtain raw where raw: "TransactionToL2Data (LegacyTx_methods t) 8 MaxEffectivePercentage = Inr raw"
    using TransactionToL2Data_signed [OF assms(2)] by blast
  obtain v where v: "GetDecodedV (LegacyTx_methods t) (ct_V t) = Inr v"
    using GetDecodedV_signed [OF assms(2)] by blast
  have price: "uint256_Hex (GetPrice (LegacyTx_methods t)) = Inr (''0x'' @ nat_text 16 (unat (the (lt_GasPrice t))))"
    "uint256_Hex (GetValue (LegacyTx_methods t)) = Inr (''0x'' @ nat_text 16 (unat (the (ct_Value t))))"
    "uint256_Hex (GetChainID (LegacyTx_methods t)) = Inr (''0x'' @ nat_text 16 (unat (DeriveChainId (ct_V t))))"
    using assms(2,3) by (auto simp: uint256_Hex_def LegacyTx_methods_def signed_tx_def)
  have "\<exists>cc. rlp_charges (LegacyTx_methods t) raw x y z v (NewCounterCollector (tc_smtLevels tc) (tc_forkId tc)) = Inr cc" for x y z
    using op_run [OF moves_rlp_charges assms(4)] by blast
  then show ?thesis
    using assms(1,5) raw v price
    by (auto simp: CalculateRlp_def GetL2DataCache_def Let_def LegacyTx_methods_def [of t] res_bind_eq_Inr)
qed

lemma AddNew_signed:
  assumes "batch_inv (run, h, b)" "p \<notin> set (bc_transactions b)" "tc_ok (h p)" "tc_transaction (h p) = LegacyTx_methods t" "signed_tx t"
    "ct_Value t \<noteq> None" "l2DataCache (h p) = None"
  shows "\<exists>ov h' b'. AddNewTransactionCounters p h b = Inr (ov, h', b')"
proof -
  obtain tc where tc: "CalculateRlp (h p) = Inr tc"
    using CalculateRlp_signed [OF assms(4-6) _ assms(7)] assms(3) by (auto simp: tc_ok_def)
  have ok: "l2DataCache tc \<noteq> None" "shape (cc_counters (rlpCounters tc))" "tc_ok tc"
    using CalculateRlp_ok [OF tc] assms(3) by (simp_all add: tc_ok_def)
  have "UpdateRlpCountersCache tc (b\<lparr>bc_transactions := bc_transactions b @ [p]\<rparr>) = Inr (with_tx p tc b)"
    using assms(1) ok(2) by (simp add: UpdateRlpCountersCache_def add_used_shape with_tx_def batch_ok_def)
  moreover have "\<exists>ov b'. CheckForOverflow False (h(p := tc)) (with_tx p tc b) = Inr (ov, h(p := tc), b')"
    using with_tx_inv [OF assms(1,2) ok] CheckForOverflow_closed [of "h(p := tc)" "with_tx p tc b" False]
    by (cases "bc_unlimited (with_tx p tc b)") (auto simp: CheckForOverflow_def)
  ultimately show ?thesis
    using tc by (auto simp: AddNewTransactionCounters_def)
qed

definition example_store :: tc_store where
  "example_store = (\<lambda>_. NewTransactionCounter (LegacyTx_methods example_tx) 30 12 1 False)"

lemma example_store_ok:
  "tc_ok (example_store p)" "not_run (example_store p)" "tc_transaction (example_store p) = LegacyTx_methods example_tx"
  "l2DataCache (example_store p) = None" "signed_tx example_tx" "ct_Value example_tx \<noteq> None"
proof -
  have new: "shape (cc_counters (NewCounterCollector 32 12))" "k < 8 \<Longrightarrow> used_of (cc_counters (NewCounterCollector 32 12)) k = 0" for k
    using shape_NewCounters [of False 12] batch_NewCounters_new [OF nth_mem, of k False 12] length_shape [OF shape_NewCounters, of False 12]
    by (auto simp: NewCounterCollector_def batch_NewCounters_def used_of_def)
  then show "tc_ok (example_store p)" "not_run (example_store p)"
    by (simp_all add: example_store_def NewTransactionCounter_def Let_def levels_30 tc_ok_def not_run_def SetTransaction_def)
  show "tc_transaction (example_store p) = LegacyTx_methods example_tx" "l2DataCache (example_store p) = None" "signed_tx example_tx"
    "ct_Value example_tx \<noteq> None"
    by (simp_all add: example_store_def NewTransactionCounter_def Let_def signed_tx_def example_tx_def)
qed

theorem RemovePrevious_undoes_AddNew_witness:
  "\<exists>ov h' b' b'' w c d. AddNewTransactionCounters 0 example_store (NewBatchCounterCollector 30 12 1 False None) = Inr (ov, h', b') \<and>
    RemovePreviousTransactionCounters h' b' = Inr b'' \<and> bc_transactions b'' = [] \<and>
    CheckForOverflow True example_store (NewBatchCounterCollector 30 12 1 False None) = Inr (w, example_store, c) \<and>
    CheckForOverflow True h' b'' = Inr (w, h', d)"
proof -
  let ?b = "NewBatchCounterCollector 30 12 1 False None"
  have ok: "addon_ok None" "uint (calculateSmtLevels 30 0 1) < 2 ^ 16" "uint (calculateSmtLevels 30 32 1) < 2 ^ 16"
    by (simp_all add: addon_ok_def levels_30)
  have b: "bc_transactions ?b = []" "\<not> bc_unlimited ?b"
    by (simp_all add: NewBatchCounterCollector_def)
  obtain ov h' b' where add: "AddNewTransactionCounters 0 example_store ?b = Inr (ov, h', b')"
    using AddNew_signed [OF new_batch_inv [OF ok]] example_store_ok b(1) by fastforce
  show ?thesis
    using RemovePrevious_undoes_AddNew [OF rtranclp.rtrancl_refl ok b(2) _ example_store_ok(1,2) add, of True] add b(1) by auto
qed


section \<open>The counters that are stored\<close>

definition tx_used :: "tx_counter \<Rightarrow> nat \<Rightarrow> gint" where
  "tx_used tc = (\<lambda>k. used_of (cc_counters (rlpCounters tc)) k + used_of (cc_counters (executionCounters tc)) k +
     used_of (cc_counters (processingCounters tc)) k)"

lemma CombineCountersInto_shape:
  assumes "shape (cc_counters (rlpCounters tc))" "shape (cc_counters (executionCounters tc))" "shape (cc_counters (processingCounters tc))"
    "length cs = 8"
  shows "\<exists>ds. CombineCountersInto tc cs = Inr ds \<and> shape ds \<and> (\<forall>k < 8. used_of ds k = tx_used tc k)"
proof -
  define f where "f = (\<lambda>k combined.
       res_bind (used_at (cc_counters (rlpCounters tc)) k) (\<lambda>r.
       res_bind (used_at (cc_counters (executionCounters tc)) k) (\<lambda>e.
       res_bind (used_at (cc_counters (processingCounters tc)) k) (\<lambda>p.
       res_bind (nth_res combined k) (\<lambda>c.
         let c = (case c of None \<Rightarrow> \<lparr>remaining = 0, used = 0, counter_name = [], initialAmount = 0\<rparr> | Some c \<Rightarrow> c)
         in Inr (combined[k := Some (c\<lparr>used := r + e + p\<rparr>)]))))))"
  have "\<exists>ds. for_range f [0..<n] cs = Inr ds \<and> length ds = 8 \<and> (\<forall>k < n. \<exists>c. ds ! k = Some c \<and> used c = tx_used tc k)" if "n \<le> 8" for n
    using that
  proof (induction n)
    case (Suc n)
    then obtain ds where ds: "for_range f [0..<n] cs = Inr ds" "length ds = 8" "\<forall>k < n. \<exists>c. ds ! k = Some c \<and> used c = tx_used tc k"
      by auto
    obtain c where c: "f n ds = Inr (ds[n := Some c])" "used c = tx_used tc n"
      using Suc.prems ds(2) assms(1-3) by (simp add: f_def used_at_shape Let_def tx_used_def)
    then show ?case
      using ds Suc.prems by (intro exI [of _ "ds[n := Some c]"]) (auto simp: for_range_append nth_list_update less_Suc_eq)
  qed (use assms(4) in simp)
  from this [of 8] obtain ds where ds: "for_range f [0..<8] cs = Inr ds" "length ds = 8" "\<forall>k < 8. \<exists>c. ds ! k = Some c \<and> used c = tx_used tc k"
    by auto
  have "None \<notin> set ds"
    using ds(2,3) by (metis in_set_conv_nth option.distinct(1))
  moreover have "\<forall>k < 8. used_of ds k = tx_used tc k"
    using ds(3) by (metis used_of_def option.sel)
  ultimately have "shape ds" "\<forall>k < 8. used_of ds k = tx_used tc k"
    using ds(2) by (simp_all add: shape_def CounterTypesCount_def)
  with ds(1) show ?thesis
    using length_shape [OF assms(1)] by (simp add: CombineCountersInto_def f_def)
qed

lemma NullateUsed_shape: "None \<notin> set cs \<Longrightarrow> \<exists>ds. NullateUsed cs = Inr ds \<and> length ds = length cs"
  by (induction cs rule: NullateUsed.induct) auto

lemma add_txs_shape:
  assumes "\<forall>p \<in> set ps. tc_ok (h p) \<and> shape (cc_counters (rlpCounters (h p)))" "length txc = 8" "shape cs"
  shows "add_txs h ps txc cs = Inr (charge_counters (\<lambda>k. \<Sum>p \<leftarrow> ps. tx_used (h p) k) cs)"
  using assms
proof (induction ps arbitrary: txc cs)
  case (Cons p ps)
  obtain ds where ds: "CombineCountersInto (h p) txc = Inr ds" "shape ds" "\<forall>k < 8. used_of ds k = tx_used (h p) k"
    using CombineCountersInto_shape [of "h p" txc] Cons.prems by (auto simp: tc_ok_def)
  obtain es where es: "NullateUsed ds = Inr es" "length es = 8"
    using NullateUsed_shape [of ds] ds(2) by (auto simp: shape_def CounterTypesCount_def)
  have "charge_counters (used_of ds) cs = charge_counters (tx_used (h p)) cs"
    using Cons.prems(3) ds(3) by (intro charge_cong) auto
  then show ?case
    using Cons.IH [of es "charge_counters (tx_used (h p)) cs"] Cons.prems ds es
    by (simp add: add_counters_shape charge_counters_add)
qed (simp add: charge_counters_0)

lemma UsedAsArray_shape:
  assumes "shape cs"
  shows "UsedAsArray cs = Inr (map (used_of cs) [0..<8])"
proof -
  have "None \<notin> set cs \<Longrightarrow> UsedAsArray cs = Inr (map (used \<circ> the) cs)"
    by (induction cs rule: UsedAsArray.induct) auto
  moreover have "map (used \<circ> the) cs = map (used_of cs) [0..<8]"
    using length_shape [OF assms] by (intro nth_equalityI) (simp_all add: used_of_def)
  ultimately show ?thesis
    using assms by (simp add: shape_def)
qed

text \<open>The data of a batch, once collected, has its eight counters.\<close>

definition l2_ok :: "batch_collector \<Rightarrow> bool" where
  "l2_ok b \<longleftrightarrow> (\<forall>cc. l2DataCollector b = Some cc \<longrightarrow> shape (cc_counters cc))"

lemma l2_ok_collected: "batch_ok h b \<Longrightarrow> l2_ok (l2_collected h b)"
  using processBatchLevelData_ok(2) [of h b] by (auto simp: l2_ok_def)

lemma check_l2_ok:
  assumes "CheckForOverflow v h b = Inr (ov, h', b')" "batch_ok h b" "l2_ok b"
  shows "l2_ok b'"
proof (cases "bc_unlimited b")
  case False
  then show ?thesis
    using assms(1) CheckForOverflow_closed [OF assms(2), of v] l2_ok_collected [OF assms(2)] by auto
qed (use assms in \<open>simp add: CheckForOverflow_def\<close>)

lemma step_l2_ok: "batch_step s s' \<Longrightarrow> batch_inv s \<Longrightarrow> l2_ok (snd (snd s)) \<Longrightarrow> l2_ok (snd (snd s'))"
proof (induction rule: batch_step.induct)
  case (new_block v h b ov h' b' run)
  then show ?case
    using check_l2_ok [of v h "b\<lparr>blockCount := blockCount b + 1\<rparr>" ov h' b']
    by (simp add: StartNewBlock_def batch_ok_def l2_ok_def)
next
  case (check v h b ov h' b' run)
  then show ?case
    using check_l2_ok [of v h b ov h' b'] by simp
next
  case (add p b h ov h' b' run)
  obtain tc where tc: "h' = h(p := tc)" "batch_inv (run, h', b')" "b' = with_tx p tc b \<or> b' = l2_collected h' (with_tx p tc b)"
    using AddNew_result [OF add(4) add(1-3)] by metis
  show ?case
    using tc(3)
  proof
    assume "b' = l2_collected h' (with_tx p tc b)"
    moreover have "batch_ok h' (with_tx p tc b)"
      using tc(2) calculation by (simp add: batch_ok_def)
    ultimately show ?thesis
      by (simp add: l2_ok_collected)
  qed (use add(5) in \<open>simp add: l2_ok_def with_tx_def\<close>)
next
  case (update p b run h b')
  then show ?case
    by (auto simp: UpdateExecutionAndProcessingCountersCache_def res_bind_eq_Inr l2_ok_def)
next
  case (remove b ps p run h b')
  then show ?case
    by (auto simp: RemovePreviousTransactionCounters_def UndoTransactionCountersCache_def res_bind_eq_Inr l2_ok_def split: if_splits)
qed simp_all

lemma run_l2_ok: "batch_step\<^sup>*\<^sup>* s s' \<Longrightarrow> batch_inv s \<Longrightarrow> l2_ok (snd (snd s)) \<Longrightarrow> l2_ok (snd (snd s'))"
  by (induction rule: rtranclp_induct) (auto intro: step_l2_ok batch_run_inv)

lemma reachable_l2_ok:
  assumes "batch_step\<^sup>*\<^sup>* ({}, h0, NewBatchCounterCollector m fork mcp u addon) (run, h, b)" "addon_ok addon"
    "uint (calculateSmtLevels m 0 mcp) < 2 ^ 16" "uint (calculateSmtLevels m 32 mcp) < 2 ^ 16"
  shows "batch_inv (run, h, b)" "l2_ok b"
  using batch_run_inv [OF assms(1) new_batch_inv [OF assms(2-4)]] run_l2_ok [OF assms(1) new_batch_inv [OF assms(2-4)]]
  by (simp_all add: l2_ok_def NewBatchCounterCollector_def)

text \<open>The state after a signed transaction was added to an empty batch.\<close>

lemma example_add:
  obtains ov h b where "AddNewTransactionCounters 0 example_store (NewBatchCounterCollector 30 12 1 False None) = Inr (ov, h, b)"
    "bc_transactions b = [0]" "\<not> bc_unlimited b" "addonCounters b = None"
    "batch_step\<^sup>*\<^sup>* ({}, example_store, NewBatchCounterCollector 30 12 1 False None) ({}, h, b)"
proof -
  let ?b = "NewBatchCounterCollector 30 12 1 False None"
  have ok: "addon_ok None" "uint (calculateSmtLevels 30 0 1) < 2 ^ 16" "uint (calculateSmtLevels 30 32 1) < 2 ^ 16"
    by (simp_all add: addon_ok_def levels_30)
  have b: "bc_transactions ?b = []" "\<not> bc_unlimited ?b" "addonCounters ?b = None"
    by (simp_all add: NewBatchCounterCollector_def)
  note inv = new_batch_inv [OF ok, of example_store 12 False]
  obtain ov h' b' where add: "AddNewTransactionCounters 0 example_store ?b = Inr (ov, h', b')"
    using AddNew_signed [OF inv] example_store_ok b(1) by fastforce
  obtain tc where "b' = with_tx 0 tc ?b \<or> b' = l2_collected h' (with_tx 0 tc ?b)"
    using AddNew_result [OF inv _ example_store_ok(1) add] b(1) by auto
  then have "bc_transactions b' = [0]" "\<not> bc_unlimited b'" "addonCounters b' = None"
    using b by (auto simp: with_tx_def)
  moreover have "batch_step ({}, example_store, ?b) ({}, h', b')"
    by (rule batch_step.add) (use b(1) example_store_ok(1) add in auto)
  ultimately show thesis
    using that add by blast
qed

text \<open>What the data of the batch used when it was last collected.\<close>

definition collected_used :: "batch_collector \<Rightarrow> nat \<Rightarrow> gint" where
  "collected_used b k = (case l2DataCollector b of None \<Rightarrow> 0 | Some cc \<Rightarrow> used_of (cc_counters cc) k)"

lemma add_l2Data_shape: "l2_ok b \<Longrightarrow> shape cs \<Longrightarrow> add_l2Data b cs = Inr (charge_counters (collected_used b) cs)"
  by (cases "l2DataCollector b")
    (simp_all add: add_l2Data_def collected_used_def [abs_def] l2_ok_def add_counters_shape charge_counters_0)

lemma check_collects:
  assumes "CheckForOverflow v h b = Inr (ov, h', b')" "batch_ok h b" "\<not> bc_unlimited b"
  shows "h' = h \<and> bc_transactions b' = bc_transactions b \<and> (\<forall>k < 8. collected_used b' k = l2_used h b k)"
proof -
  have "h' = h" "b' = l2_collected h b"
    using assms(1,3) CheckForOverflow_closed [OF assms(2), of v] by auto
  then show ?thesis
    using processBatchLevelData_ok(3) [OF assms(2)] by (simp add: collected_used_def l2_collected_def)
qed

lemma RemovePrevious_collected: "RemovePreviousTransactionCounters h b = Inr b' \<Longrightarrow> collected_used b' = collected_used b"
  by (auto simp: RemovePreviousTransactionCounters_def UndoTransactionCountersCache_def res_bind_eq_Inr collected_used_def
      split: if_splits)

text \<open>C30. The counters that are stored for a batch in progress. In every state the sequencer reaches,
  \<^verbatim>\<open>CombineCollectorsNoChanges\<close> returns what was used before, what the data of the batch used when it was last collected,
  and what all transactions of the batch used; the blocks are left out. A \<^verbatim>\<open>CheckForOverflow\<close> with limited counters collects
  the data of the transactions that are in the batch at that moment. \<^verbatim>\<open>RemovePreviousTransactionCounters\<close> does not collect it
  again, so after a removal, and until the next check, the data of the removed transaction is still counted. The comment on
  the function says that the data of the batch is not added; it is.\<close>

theorem CombineCollectorsNoChanges_used:
  assumes "batch_step\<^sup>*\<^sup>* ({}, h0, NewBatchCounterCollector m fork mcp u addon) (run, h, b)" "addon_ok addon"
    "uint (calculateSmtLevels m 0 mcp) < 2 ^ 16" "uint (calculateSmtLevels m 32 mcp) < 2 ^ 16"
  shows "(\<exists>cs. CombineCollectorsNoChanges h b = Inr cs \<and>
      UsedAsArray cs = Inr (map (\<lambda>k. addon_used (addonCounters b) k + collected_used b k +
        (\<Sum>p \<leftarrow> bc_transactions b. tx_used (h p) k)) [0..<8])) \<and>
    (CheckForOverflow verify h b = Inr (ov, h', b') \<longrightarrow> \<not> bc_unlimited b \<longrightarrow>
      h' = h \<and> bc_transactions b' = bc_transactions b \<and> (\<forall>k < 8. collected_used b' k = l2_used h b k)) \<and>
    (RemovePreviousTransactionCounters h b = Inr b'' \<longrightarrow> collected_used b'' = collected_used b)"
proof -
  note inv = reachable_l2_ok [OF assms]
  then have ok: "batch_ok h b" and txs: "\<forall>p \<in> set (bc_transactions b). tc_ok (h p) \<and> shape (cc_counters (rlpCounters (h p)))"
    by simp_all
  let ?new = "batch_NewCounters (bc_unlimited b) (bc_forkId b)"
  define cs where "cs = charge_counters (\<lambda>k. addon_used (addonCounters b) k + collected_used b k +
      (\<Sum>p \<leftarrow> bc_transactions b. tx_used (h p) k)) ?new"
  have "CombineCollectorsNoChanges h b = Inr cs"
    using ok txs inv(2) by (simp add: CombineCollectorsNoChanges_def add_addon_new batch_ok_def add_l2Data_shape add_txs_shape
        NewCounters_def CounterTypesCount_def charge_counters_add cs_def algebra_simps)
  moreover have "UsedAsArray cs = Inr (map (used_of cs) [0..<8])"
    by (rule UsedAsArray_shape) (simp add: cs_def)
  moreover have "used_of cs k = addon_used (addonCounters b) k + collected_used b k + (\<Sum>p \<leftarrow> bc_transactions b. tx_used (h p) k)"
    if k: "k < 8" for k
  proof -
    have "k < length ?new"
      using k by simp
    then obtain c where "?new ! k = Some c" "used c = 0"
      using batch_NewCounters_new [OF nth_mem] by blast
    then show ?thesis
      using k by (simp add: cs_def used_of_def deduct_counter_def)
  qed
  ultimately show ?thesis
    using check_collects [OF _ ok] RemovePrevious_collected by (intro conjI impI) auto
qed

theorem CombineCollectorsNoChanges_used_witness:
  "\<exists>ov0 h b ov b' b'' cs. AddNewTransactionCounters 0 example_store (NewBatchCounterCollector 30 12 1 False None) = Inr (ov0, h, b) \<and>
    CombineCollectorsNoChanges h b = Inr cs \<and>
    UsedAsArray cs = Inr (map (\<lambda>k. addon_used None k + collected_used b k + (tx_used (h 0) k + 0)) [0..<8]) \<and>
    CheckForOverflow True h b = Inr (ov, h, b') \<and> (\<forall>k < 8. collected_used b' k = l2_used h b k) \<and>
    RemovePreviousTransactionCounters h b = Inr b'' \<and> collected_used b'' = collected_used b"
proof -
  have ok: "addon_ok None" "uint (calculateSmtLevels 30 0 1) < 2 ^ 16" "uint (calculateSmtLevels 30 32 1) < 2 ^ 16"
    by (simp_all add: addon_ok_def levels_30)
  obtain ov0 h b where add: "AddNewTransactionCounters 0 example_store (NewBatchCounterCollector 30 12 1 False None) = Inr (ov0, h, b)"
    and b: "bc_transactions b = [0]" "\<not> bc_unlimited b" "addonCounters b = None"
    and run: "batch_step\<^sup>*\<^sup>* ({}, example_store, NewBatchCounterCollector 30 12 1 False None) ({}, h, b)"
    by (rule example_add)
  have inv: "batch_inv ({}, h, b)"
    using reachable_l2_ok(1) [OF run ok] .
  then obtain ov b' where c: "CheckForOverflow True h b = Inr (ov, h, b')"
    using CheckForOverflow_closed [of h b True] b(2) by auto
  obtain b'' where r: "RemovePreviousTransactionCounters h b = Inr b''"
    using RemovePrevious_ok [OF inv, of "[]" 0] b(1) by auto
  show ?thesis
    using CombineCollectorsNoChanges_used [OF run ok, of True ov h b' b''] add b c r by auto
qed

section \<open>Copies of collectors\<close>

lemma counters_clone_panics:
  assumes "shape cs"
  shows "for_range (\<lambda>k clonedCounters. res_bind (counter_at cs k) (\<lambda>v. set_res clonedCounters k (Some (Counter_Clone v))))
    [0..<8] [] = Inl (Panic ''index out of range'')"
proof -
  obtain c where "cs ! 0 = Some c"
    using shape_at [OF assms, of 0] by auto
  moreover have "[0..<8] = 0 # [1..<8]"
    by (simp add: upt_conv_Cons)
  ultimately show ?thesis
    using assms by (simp add: counter_at_def set_res_def)
qed

lemma Clone_shape:
  "shape cs \<Longrightarrow> Counters_Clone cs = Inl (Panic ''index out of range'')"
  "shape (cc_counters cc) \<Longrightarrow> CounterCollector_Clone cc = Inl (Panic ''index out of range'')"
  "shape (cc_counters (rlpCounters tc)) \<Longrightarrow> TransactionCounter_Clone tc = Inl (Panic ''index out of range'')"
  by (simp_all add: Counters_Clone_def CounterCollector_Clone_def TransactionCounter_Clone_def counters_clone_panics)

text \<open>
  C14. No collector of the sequencer can be copied. \<^verbatim>\<open>Clone\<close> assigns to the elements of a slice of length zero, and the
  counters are never empty: in every state the sequencer reaches, copying the collector of the batch panics with an index
  out of range, and so does copying any of its transactions.
\<close>

theorem Clone_panics:
  assumes "batch_step\<^sup>*\<^sup>* ({}, h0, NewBatchCounterCollector m fork mcp u addon) (run, h, b)" "addon_ok addon"
    "uint (calculateSmtLevels m 0 mcp) < 2 ^ 16" "uint (calculateSmtLevels m 32 mcp) < 2 ^ 16"
  shows "BatchCounterCollector_Clone h b = Inl (Panic ''index out of range'') \<and>
    (\<forall>p \<in> set (bc_transactions b). TransactionCounter_Clone (h p) = Inl (Panic ''index out of range''))"
proof -
  note inv = reachable_l2_ok [OF assms]
  then have txs: "\<forall>p \<in> set (bc_transactions b). TransactionCounter_Clone (h p) = Inl (Panic ''index out of range'')"
    by (simp add: Clone_shape)
  moreover have "BatchCounterCollector_Clone h b = Inl (Panic ''index out of range'')"
  proof (cases "bc_transactions b")
    case Nil
    then show ?thesis
      using inv by (auto simp: BatchCounterCollector_Clone_def Clone_shape batch_ok_def l2_ok_def split: option.splits)
  qed (use txs in \<open>simp add: BatchCounterCollector_Clone_def\<close>)
  ultimately show ?thesis
    by simp
qed

theorem Clone_panics_witness:
  "\<exists>ov h b. AddNewTransactionCounters 0 example_store (NewBatchCounterCollector 30 12 1 False None) = Inr (ov, h, b) \<and>
    BatchCounterCollector_Clone h b = Inl (Panic ''index out of range'') \<and>
    TransactionCounter_Clone (h 0) = Inl (Panic ''index out of range'')"
proof -
  have ok: "addon_ok None" "uint (calculateSmtLevels 30 0 1) < 2 ^ 16" "uint (calculateSmtLevels 30 32 1) < 2 ^ 16"
    by (simp_all add: addon_ok_def levels_30)
  obtain ov h b where add: "AddNewTransactionCounters 0 example_store (NewBatchCounterCollector 30 12 1 False None) = Inr (ov, h, b)"
    and b: "bc_transactions b = [0]"
    and run: "batch_step\<^sup>*\<^sup>* ({}, example_store, NewBatchCounterCollector 30 12 1 False None) ({}, h, b)"
    by (rule example_add)
  show ?thesis
    using Clone_panics [OF run ok] add b by simp
qed

end
