(* ===== verification/Smt_Accounts.thy ===== *)
theory Smt_Accounts
  imports Smt_Store Go_Float Go_Text Eth_Tx
begin

unbundle bit_operations_syntax

text \<open>
  Accounts in the sparse Merkle tree: the keys of balances, nonces, codes and storage and the hash of a bytecode
  (\<^verbatim>\<open>src/smt/pkg/utils/utils.go\<close>), the sources of keys, and the operations that set the state and the code of an account
  (\<^verbatim>\<open>src/smt/pkg/smt/entity_storage.go\<close>) over the in-memory database.
\<close>

section \<open>Keys\<close>

definition KEY_BALANCE :: int where "KEY_BALANCE = 0"
definition KEY_NONCE :: int where "KEY_NONCE = 1"
definition SC_CODE :: int where "SC_CODE = 2"
definition SC_STORAGE :: int where "SC_STORAGE = 3"
definition SC_LENGTH :: int where "SC_LENGTH = 4"

definition HASH_POSEIDON_ALL_ZEROES :: string where
  "HASH_POSEIDON_ALL_ZEROES = ''0xc71603f33a1144ca7953db0ab48808f4c4055e3364a246c33c18a9786cb0b359''"

definition StringToH4 :: "string \<Rightarrow> node_key res" where
  "StringToH4 s =
     (let parse = (\<lambda>i. case ParseUint (slice (2 + 16 * i) (18 + 16 * i) s) 16 of
                      Inl (Error e) \<Rightarrow> Inl (Error (''failed to convert string to uint64: '' @ e))
                    | r \<Rightarrow> r)
      in if take 2 s \<noteq> ''0x'' then Inl (Error ''hexadecimal required'')
         else if length s \<noteq> 66 then Inl (Error ''hexadecimal all digits required'')
         else
           res_bind (parse 0) (\<lambda>d. res_bind (parse 1) (\<lambda>c. res_bind (parse 2) (\<lambda>b. res_bind (parse 3) (\<lambda>a.
           Inr (NodeKey a b c d))))))"

definition account_value :: "int list \<Rightarrow> int \<Rightarrow> node_value" where
  "account_value add c = map Some (take 6 add @ [c, 0])"

definition smt_Key :: "poseidon \<Rightarrow> string \<Rightarrow> int \<Rightarrow> node_key res" where
  "smt_Key H ethAddr c =
     (case ConvertHexToBigInt ethAddr of
        None \<Rightarrow> Inl (Panic ''nil pointer dereference'')
      | Some a \<Rightarrow>
          let key1 = account_value (ScalarToArrayBig a) c in
          (case StringToH4 HASH_POSEIDON_ALL_ZEROES of
             Inl e \<Rightarrow> Inr (NodeKey 0 0 0 0)
           | Inr key1Capacity \<Rightarrow> Inr (Hash H (ToUintArray (Some key1)) key1Capacity)))"

definition KeyEthAddrBalance :: "poseidon \<Rightarrow> string \<Rightarrow> node_key res" where
  "KeyEthAddrBalance H ethAddr = smt_Key H ethAddr KEY_BALANCE"

definition KeyEthAddrNonce :: "poseidon \<Rightarrow> string \<Rightarrow> node_key res" where
  "KeyEthAddrNonce H ethAddr = smt_Key H ethAddr KEY_NONCE"

definition KeyContractCode :: "poseidon \<Rightarrow> string \<Rightarrow> node_key res" where
  "KeyContractCode H ethAddr = smt_Key H ethAddr SC_CODE"

definition KeyContractLength :: "poseidon \<Rightarrow> string \<Rightarrow> node_key res" where
  "KeyContractLength H ethAddr = smt_Key H ethAddr SC_LENGTH"

definition KeyBig :: "poseidon \<Rightarrow> int option \<Rightarrow> int \<Rightarrow> node_key res" where
  "KeyBig H k c =
     (case k of
        None \<Rightarrow> Inl (Error ''nil key'')
      | Some k \<Rightarrow> res_bind (StringToH4 HASH_POSEIDON_ALL_ZEROES) (\<lambda>key1Capacity.
          Inr (Hash H (ToUintArray (Some (account_value (ScalarToArrayBig k) c))) key1Capacity)))"

definition StrValToBigInt :: "string \<Rightarrow> int option" where
  "StrValToBigInt v = (if take 2 v = ''0x'' then big_SetString 16 (drop 2 v) else big_SetString 10 v)"

definition KeyContractStorage :: "poseidon \<Rightarrow> int list \<Rightarrow> string \<Rightarrow> node_key res" where
  "KeyContractStorage H ethAddr storagePosition =
     (case StrValToBigInt storagePosition of
        None \<Rightarrow> Inl (Panic ''nil pointer dereference'')
      | Some sp \<Rightarrow>
          (case NodeValue8FromBigIntArray (map Some (ScalarToArrayBig sp)) of
             Inl e \<Rightarrow> Inr (NodeKey 0 0 0 0)
           | Inr spArray \<Rightarrow>
               let hk0 = Hash H (ToUintArray (Some spArray)) (NodeKey 0 0 0 0) in
               if length ethAddr < 6 then Inl (Panic ''index out of range'')
               else Inr (Hash H (ToUintArray (Some (account_value ethAddr SC_STORAGE))) hk0)))"

section \<open>The hash of a bytecode\<close>

definition BYTECODE_ELEMENTS_HASH :: nat where "BYTECODE_ELEMENTS_HASH = 8"
definition BYTECODE_BYTES_ELEMENT :: nat where "BYTECODE_BYTES_ELEMENT = 7"

partial_function (option) pad_code :: "string \<Rightarrow> string option" where
  "pad_code bytecode = (if length bytecode mod (56 * 2) \<noteq> 0 then pad_code (bytecode @ ''00'') else Some bytecode)"

declare pad_code.simps [code]

text \<open>Reading one block: byte by byte from the front, the bytes of an element in reverse.\<close>

fun code_elements :: "string \<Rightarrow> nat \<Rightarrow> nat \<Rightarrow> string \<Rightarrow> nat \<Rightarrow> u64 list \<Rightarrow> u64 list res" where
  "code_elements block 0 j tmpElem counter elems = Inr elems"
| "code_elements block (Suc n) j tmpElem counter elems =
     (let byteToAdd = (if j < length block div 2 then slice (j * 2) ((j + 1) * 2) block else ''00'');
          tmpElem = byteToAdd @ tmpElem;
          counter = counter + 1
      in if counter = BYTECODE_BYTES_ELEMENT then
           (case big_SetString 16 tmpElem of
              None \<Rightarrow> Inl (Panic ''nil pointer dereference'')
            | Some x \<Rightarrow> code_elements block n (Suc j) [] 0 (elems @ [big_Uint64 x]))
         else code_elements block n (Suc j) tmpElem counter elems)"

fun hash_code_blocks :: "poseidon \<Rightarrow> string \<Rightarrow> nat \<Rightarrow> nat \<Rightarrow> node_key \<Rightarrow> node_key res" where
  "hash_code_blocks H bytecode 0 bytesPointer tmpHash = Inr tmpHash"
| "hash_code_blocks H bytecode (Suc n) bytesPointer tmpHash =
     (let maxBytesToAdd = BYTECODE_ELEMENTS_HASH * BYTECODE_BYTES_ELEMENT in
      res_bind (slice_res bytecode bytesPointer (bytesPointer + maxBytesToAdd * 2)) (\<lambda>blockBytecode.
      res_bind (code_elements blockBytecode maxBytesToAdd 0 [] 0 []) (\<lambda>elems.
      hash_code_blocks H bytecode n (bytesPointer + maxBytesToAdd * 2) (Hash H elems tmpHash))))"

text \<open>The last byte is 00 or 01, so the base-16 number is read without error.\<close>

definition mark_last :: "string \<Rightarrow> string" where
  "mark_last bytecode =
     (let lastByteInt = (case big_SetString 16 (drop (length bytecode - 2) bytecode) of None \<Rightarrow> 0 | Some n \<Rightarrow> n)
      in take (length bytecode - 2) bytecode @ big_Text 16 (lastByteInt OR 0x80))"

definition HashContractBytecodeBigInt :: "poseidon \<Rightarrow> string \<Rightarrow> int res option" where
  "HashContractBytecodeBigInt H bc =
     (let bytecode = (if take 2 bc = ''0x'' then drop 2 bc else bc);
          bytecode = (if length bytecode mod 2 \<noteq> 0 then ''0'' @ bytecode else bytecode)
      in map_option (\<lambda>bytecode.
           let bytecode = mark_last bytecode;
               numBytes = float64_div (float64_of_int (int (length bytecode))) 2;
               numHashes = \<lceil>float64_div numBytes (of_nat (BYTECODE_ELEMENTS_HASH * BYTECODE_BYTES_ELEMENT))\<rceil>
           in res_bind (hash_code_blocks H bytecode (nat numHashes) 0 (NodeKey 0 0 0 0)) (\<lambda>tmpHash.
              Inr (ArrayToScalar (nk_list tmpHash))))
         (pad_code (bytecode @ ''01'')))"

definition HashContractBytecode :: "poseidon \<Rightarrow> string \<Rightarrow> string res option" where
  "HashContractBytecode H bc =
     map_option (\<lambda>r. res_bind r (\<lambda>n. Inr (ConvertBigIntToHex (Some n)))) (HashContractBytecodeBigInt H bc)"

definition convertBytecodeToBigInt :: "poseidon \<Rightarrow> string \<Rightarrow> (int \<times> int) res option" where
  "convertBytecodeToBigInt H bytecode =
     map_option (\<lambda>r. res_bind r (\<lambda>bi.
       let parsedBytecode = TrimPrefix ''0x'' bytecode;
           parsedBytecode = (if length parsedBytecode mod 2 \<noteq> 0 then ''0'' @ parsedBytecode else parsedBytecode);
           bytecodeLength = int (length parsedBytecode div 2)
       in Inr (if length bytecode = 0 then (0, 0) else (bi, bytecodeLength))))
     (HashContractBytecodeBigInt H bytecode)"

section \<open>Sources of keys\<close>

definition EncodeKeySource :: "int \<Rightarrow> bytes \<Rightarrow> bytes \<Rightarrow> bytes" where
  "EncodeKeySource t accountAddr storagePosition =
     [word_of_int t] @ accountAddr @ (if t = SC_STORAGE then storagePosition else [])"

definition DecodeKeySource :: "bytes \<Rightarrow> (int \<times> bytes \<times> bytes) res" where
  "DecodeKeySource keySource =
     (if length keySource < 1 + 20 then Inl (Error ''invalid key source length'') else
      let t = uint (keySource ! 0);
          accountAddr = BytesToAddress (slice 1 21 keySource)
      in if t = SC_STORAGE then
           if length keySource < 1 + 20 + 32 then Inl (Error ''invalid key source length'')
           else Inr (t, accountAddr, BytesToHash (slice 21 53 keySource))
         else Inr (t, accountAddr, zero_hash))"

definition ConvertHexToAddress :: "string \<Rightarrow> bytes res" where
  "ConvertHexToAddress hex =
     (case ConvertHexToBigInt hex of
        None \<Rightarrow> Inl (Panic ''nil pointer dereference'')
      | Some n \<Rightarrow> Inr (BytesToAddress (big_Bytes n)))"

section \<open>The state of an account\<close>

definition SetAccountBalance :: "poseidon \<Rightarrow> mem_db \<Rightarrow> string \<Rightarrow> int \<Rightarrow> (int \<times> mem_db) res" where
  "SetAccountBalance H s ethAddr balance =
     res_bind (KeyEthAddrBalance H ethAddr) (\<lambda>keyBalance.
     res_bind (InsertKA mem_ops H False s keyBalance balance) (\<lambda>(response, s).
     res_bind (ConvertHexToAddress ethAddr) (\<lambda>addr.
     res_bind (mem_InsertKeySource s keyBalance (EncodeKeySource KEY_BALANCE addr zero_hash)) (\<lambda>s.
     Inr (ToBigInt (NewRootScalar response), s)))))"

definition SetAccountNonce :: "poseidon \<Rightarrow> mem_db \<Rightarrow> string \<Rightarrow> int \<Rightarrow> (int \<times> mem_db) res" where
  "SetAccountNonce H s ethAddr nonce =
     res_bind (KeyEthAddrNonce H ethAddr) (\<lambda>keyNonce.
     res_bind (InsertKA mem_ops H False s keyNonce nonce) (\<lambda>(response, s).
     res_bind (ConvertHexToAddress ethAddr) (\<lambda>addr.
     res_bind (mem_InsertKeySource s keyNonce (EncodeKeySource KEY_NONCE addr zero_hash)) (\<lambda>s.
     Inr (ToBigInt (NewRootScalar response), s)))))"

definition SetAccountState :: "poseidon \<Rightarrow> mem_db \<Rightarrow> string \<Rightarrow> int \<Rightarrow> int \<Rightarrow> (int \<times> mem_db) res" where
  "SetAccountState H s ethAddr balance nonce =
     res_bind (SetAccountBalance H s ethAddr balance) (\<lambda>(_, s). SetAccountNonce H s ethAddr nonce)"

definition SetContractBytecode :: "poseidon \<Rightarrow> mem_db \<Rightarrow> string \<Rightarrow> string \<Rightarrow> mem_db res option" where
  "SetContractBytecode H s ethAddr bytecode =
     map_option (\<lambda>converted.
       res_bind (KeyContractCode H ethAddr) (\<lambda>keyContractCode.
       res_bind (KeyContractLength H ethAddr) (\<lambda>keyContractLength.
       res_bind converted (\<lambda>(bi, bytecodeLength).
       res_bind (InsertKA mem_ops H False s keyContractCode bi) (\<lambda>(_, s).
       res_bind (ConvertHexToAddress ethAddr) (\<lambda>addr.
       res_bind (mem_InsertKeySource s keyContractCode (EncodeKeySource SC_CODE addr zero_hash)) (\<lambda>s.
       res_bind (InsertKA mem_ops H False s keyContractLength bytecodeLength) (\<lambda>(_, s).
       mem_InsertKeySource s keyContractLength (EncodeKeySource SC_LENGTH addr zero_hash)))))))))
     (convertBytecodeToBigInt H bytecode)"


section \<open>Addresses as texts\<close>

text \<open>The argument is the Keccak hash of the lower-case digits; its nibbles choose the digits in upper case.\<close>

definition checksumHex :: "(bytes \<Rightarrow> bytes) \<Rightarrow> bytes \<Rightarrow> string res" where
  "checksumHex keccak a =
     (let buf = hex_EncodeToString a;
          hash = keccak (map of_char buf)
      in if length hash < length a then Inl (Panic ''index out of range'') else
         Inr (''0x'' @ map (\<lambda>i.
           let hashByte = (if even i then drop_bit 4 (hash ! (i div 2)) else hash ! (i div 2) AND 0xf) in
           if of_char (buf ! i) > (57 :: nat) \<and> hashByte > 7 then char_of (of_char (buf ! i) - (32 :: nat)) else buf ! i)
         [0..<length buf]))"

definition hash_String :: "bytes \<Rightarrow> string" where
  "hash_String h = ''0x'' @ hex_EncodeToString h"

record account =
  acc_Initialised :: bool
  acc_Nonce :: u64
  acc_Balance :: u256
  acc_Root :: bytes
  acc_CodeHash :: bytes
  acc_Incarnation :: u64
  acc_PrevIncarnation :: u64

definition SetAccountStorage :: "poseidon \<Rightarrow> (bytes \<Rightarrow> bytes) \<Rightarrow> mem_db \<Rightarrow> bytes \<Rightarrow> account option \<Rightarrow> mem_db res" where
  "SetAccountStorage H keccak s addr acc =
     res_bind (checksumHex keccak addr) (\<lambda>ethAddr.
     res_bind (case acc of
                 Some acc \<Rightarrow> SetAccountState H s ethAddr (uint (acc_Balance acc)) (uint (acc_Nonce acc))
               | None \<Rightarrow> SetAccountState H s ethAddr 0 0) (\<lambda>(_, s). Inr s))"

section \<open>The storage of an account\<close>

definition convertStringToBigInt :: "string \<Rightarrow> int option" where
  "convertStringToBigInt v =
     (if take 2 v = ''0x'' then big_SetString 16 (TrimPrefix ''0x'' v) else big_SetString 10 v)"

definition calcHashVal :: "poseidon \<Rightarrow> string \<Rightarrow> (node_value \<times> node_key) res" where
  "calcHashVal H v =
     (case convertStringToBigInt v of
        None \<Rightarrow> Inl (Panic ''nil pointer dereference'')
      | Some val \<Rightarrow>
          res_bind (NodeValue8FromBigIntArray (map Some (ScalarToArrayBig val))) (\<lambda>value.
          Inr (value, Hash H (ToUintArray (Some value)) BranchCapacity)))"

text \<open>
  The maps \<^verbatim>\<open>chm\<close> and \<^verbatim>\<open>vhm\<close> as one map to pairs. The storage is the list of its entries in the order in which the
  map is iterated. With more than 100 entries the values are hashed by several goroutines; only then the entry
  with the empty key is dropped when the maps are filled.
\<close>

fun hash_values :: "poseidon \<Rightarrow> bool \<Rightarrow> (string \<times> string) list \<Rightarrow> (string \<rightharpoonup> node_value \<times> node_key) \<Rightarrow> (string \<rightharpoonup> node_value \<times> node_key) res" where
  "hash_values H many [] m = Inr m"
| "hash_values H many ((k, v) # kvs) m =
     (if v = [] then hash_values H many kvs m else
      res_bind (calcHashVal H v) (\<lambda>ch.
      hash_values H many kvs (if many \<and> k = [] then m else m(k \<mapsto> ch))))"

fun insert_storage_loop ::
  "poseidon \<Rightarrow> string \<Rightarrow> int list \<Rightarrow> (string \<rightharpoonup> node_value \<times> node_key) \<Rightarrow> string list \<Rightarrow> smt_response \<Rightarrow> mem_db \<Rightarrow> (smt_response \<times> mem_db) res" where
  "insert_storage_loop H ethAddr add chm [] smtr s = Inr (smtr, s)"
| "insert_storage_loop H ethAddr add chm (k # ks) smtr s =
     res_bind (KeyContractStorage H add k) (\<lambda>keyStoragePosition.
     case chm k of
       None \<Rightarrow> Inl (Panic ''nil pointer dereference'')
     | Some (c, h) \<Rightarrow>
         res_bind (smt_insert mem_ops H False s keyStoragePosition c h (NewRootScalar smtr)) (\<lambda>(smtr, s).
         case StrValToBigInt k of
           None \<Rightarrow> Inl (Panic ''nil pointer dereference'')
         | Some sp \<Rightarrow>
             res_bind (ConvertHexToAddress ethAddr) (\<lambda>addr.
             res_bind (mem_InsertKeySource s keyStoragePosition (EncodeKeySource SC_STORAGE addr (BytesToHash (big_Bytes sp)))) (\<lambda>s.
             insert_storage_loop H ethAddr add chm ks smtr s))))"

definition InsertStorage ::
  "poseidon \<Rightarrow> mem_db \<Rightarrow> string \<Rightarrow> (string \<times> string) list \<Rightarrow> (string \<rightharpoonup> node_value \<times> node_key) \<Rightarrow> (smt_response \<times> mem_db) res" where
  "InsertStorage H s ethAddr storage chm =
     (case ConvertHexToBigInt ethAddr of
        None \<Rightarrow> Inl (Panic ''nil pointer dereference'')
      | Some a \<Rightarrow>
          res_bind (getLastRoot mem_ops s) (\<lambda>old.
          res_bind (insert_storage_loop H ethAddr (ScalarToArrayBig a) chm (map fst storage) \<lparr>NewRootScalar = old, Mode = []\<rparr> s) (\<lambda>(smtr, s).
          res_bind (setLastRoot mem_ops s (NewRootScalar smtr)) (\<lambda>s. Inr (smtr, s)))))"

definition SetContractStorage :: "poseidon \<Rightarrow> mem_db \<Rightarrow> string \<Rightarrow> (string \<times> string) list \<Rightarrow> (int \<times> mem_db) res" where
  "SetContractStorage H s ethAddr storage =
     res_bind (hash_values H (length storage > 100) storage Map.empty) (\<lambda>chm.
     res_bind (InsertStorage H s ethAddr storage chm) (\<lambda>(auxRes, s).
     Inr (ToBigInt (NewRootScalar auxRes), s)))"

section \<open>Codes\<close>

definition ResizeHashTo32BytesByPrefixingWithZeroes :: "bytes \<Rightarrow> bytes" where
  "ResizeHashTo32BytesByPrefixingWithZeroes hashValue =
     (if length hashValue < 32 then replicate (32 - length hashValue) 0 @ hashValue else hashValue)"

definition mem_GetCode :: "mem_db \<Rightarrow> bytes \<Rightarrow> bytes res" where
  "mem_GetCode m codeHash =
     (case DbCode m (''0x'' @ hex_EncodeToString (ResizeHashTo32BytesByPrefixingWithZeroes codeHash)) of
        None \<Rightarrow> Inl (Error ''key not found'')
      | Some s \<Rightarrow> Inr s)"

definition mem_AddCode :: "poseidon \<Rightarrow> mem_db \<Rightarrow> bytes \<Rightarrow> mem_db res option" where
  "mem_AddCode H m code =
     map_option (\<lambda>r. res_bind r (\<lambda>codeHash. Inr (m\<lparr>DbCode := (DbCode m)(codeHash \<mapsto> code)\<rparr>)))
       (HashContractBytecode H (hex_EncodeToString code))"

end
