(* ===== verification/Smt_Reader.thy ===== *)
theory Smt_Reader
  imports Smt_Accounts
begin

unbundle bit_operations_syntax

text \<open>
  Reading accounts from the tree: the traversal of \<^verbatim>\<open>src/smt/pkg/smt/smt.go\<close> and the state reader of
  \<^verbatim>\<open>src/smt/pkg/smt/smt_state_reader.go\<close>. What the reader returns on a store that holds a tree is the value of the leaf
  that the path of the key ends at.
\<close>

section \<open>Traversal\<close>

text \<open>
  An action sees the prefix, the key and the node and changes what its closure captures. The context is the function
  that says with which error it is done when a node is visited. The store may hold a cycle, so the traversal need not end.
  \<^verbatim>\<open>Traverse\<close> is the call with the empty prefix.
\<close>

type_synonym 'a traverse_action = "bytes \<Rightarrow> node_key \<Rightarrow> node_value \<Rightarrow> 'a \<Rightarrow> (bool \<times> 'a) res"

partial_function (option) traverse ::
  "'s smt_db_ops \<Rightarrow> 's \<Rightarrow> (bytes \<Rightarrow> go_error option) \<Rightarrow> int \<Rightarrow> 'a traverse_action \<Rightarrow> bytes \<Rightarrow> 'a \<Rightarrow> 'a res option" where
  "traverse ops s ctx node action prefix st =
     (if node = 0 then Some (Inr st) else
      case ctx prefix of
        Some e \<Rightarrow> Some (Inl e)
      | None \<Rightarrow>
      let ky = ScalarToRoot node in
      (case db_Get ops s ky of
         Inl e \<Rightarrow> Some (Inl e)
       | Inr nodeValue \<Rightarrow>
      (case action prefix ky nodeValue st of
         Inl e \<Rightarrow> Some (Inl e)
       | Inr (shouldContinue, st) \<Rightarrow>
      if IsFinalNode nodeValue \<or> \<not> shouldContinue then Some (Inr st) else
      (case NodeKeyFromBigIntArray (slice 0 4 nodeValue) of
         Inl e \<Rightarrow> Some (Inl e)
       | Inr child \<Rightarrow>
      Option.bind (traverse ops s ctx (ToBigInt child) action (prefix @ [0]) st) (\<lambda>r.
      case r of
        Inl e \<Rightarrow> Some (Inl e)
      | Inr st \<Rightarrow>
      (case NodeKeyFromBigIntArray (slice 4 8 nodeValue) of
         Inl e \<Rightarrow> Some (Inl e)
       | Inr child \<Rightarrow> traverse ops s ctx (ToBigInt child) action (prefix @ [1]) st))))))"

declare traverse.simps [code]

section \<open>The state reader\<close>

definition value_action :: "'s smt_db_ops \<Rightarrow> 's \<Rightarrow> bytes \<Rightarrow> bytes traverse_action" where
  "value_action ops s keyPathBytes prefix ky v val =
     (if take (length prefix) keyPathBytes \<noteq> prefix then Inr (False, val)
      else if IsFinalNode v then
        res_bind (Get4to8 v) (\<lambda>valHash.
        res_bind (db_Get ops s valHash) (\<lambda>v.
        res_bind (NodeValue8ToBigInt (GetNodeValue8 v)) (\<lambda>n.
        Inr (False, big_Bytes n))))
      else Inr (True, val))"

definition getValueInBytes :: "'s smt_db_ops \<Rightarrow> 's \<Rightarrow> node_key \<Rightarrow> bytes res option" where
  "getValueInBytes ops s nodeKey =
     (let keyPathBytes = map word_of_int (GetPath nodeKey) in
      case db_GetLastRoot ops s of
        Inl e \<Rightarrow> Some (Inl e)
      | Inr lastRoot \<Rightarrow> traverse ops s (\<lambda>_. None) lastRoot (value_action ops s keyPathBytes) [] [])"

definition getValue ::
  "'s smt_db_ops \<Rightarrow> poseidon \<Rightarrow> (bytes \<Rightarrow> bytes) \<Rightarrow> 's \<Rightarrow> int \<Rightarrow> bytes \<Rightarrow> bytes option \<Rightarrow> bytes res option" where
  "getValue ops H keccak s key address storageKey =
     (case res_bind (checksumHex keccak address) (\<lambda>ethAddr.
             case storageKey of
               None \<Rightarrow> smt_Key H ethAddr key
             | Some storageKey \<Rightarrow>
                 (case ConvertHexToBigInt ethAddr of
                    None \<Rightarrow> Inl (Panic ''nil pointer dereference'')
                  | Some a \<Rightarrow> KeyContractStorage H (ScalarToArrayBig a) (hash_String storageKey))) of
        Inl e \<Rightarrow> Some (Inl e)
      | Inr kn \<Rightarrow> getValueInBytes ops s kn)"

definition GetAccountBalance :: "'s smt_db_ops \<Rightarrow> poseidon \<Rightarrow> (bytes \<Rightarrow> bytes) \<Rightarrow> 's \<Rightarrow> bytes \<Rightarrow> u256 res option" where
  "GetAccountBalance ops H keccak s address =
     map_option (\<lambda>r. res_bind r (\<lambda>valueInBytes. Inr (uint256_SetBytes valueInBytes))) (getValue ops H keccak s KEY_BALANCE address None)"

definition GetAccountNonce :: "'s smt_db_ops \<Rightarrow> poseidon \<Rightarrow> (bytes \<Rightarrow> bytes) \<Rightarrow> 's \<Rightarrow> bytes \<Rightarrow> u256 res option" where
  "GetAccountNonce ops H keccak s address =
     map_option (\<lambda>r. res_bind r (\<lambda>valueInBytes. Inr (uint256_SetBytes valueInBytes))) (getValue ops H keccak s KEY_NONCE address None)"

definition GetAccountCodeHash :: "'s smt_db_ops \<Rightarrow> poseidon \<Rightarrow> (bytes \<Rightarrow> bytes) \<Rightarrow> 's \<Rightarrow> bytes \<Rightarrow> bytes res option" where
  "GetAccountCodeHash ops H keccak s address =
     map_option (\<lambda>r. res_bind r (\<lambda>valueInBytes. Inr (BytesToHash valueInBytes))) (getValue ops H keccak s SC_CODE address None)"

definition opt_bind :: "'a res option \<Rightarrow> ('a \<Rightarrow> 'b res option) \<Rightarrow> 'b res option" where
  "opt_bind x f = Option.bind x (\<lambda>r. case r of Inl e \<Rightarrow> Some (Inl e) | Inr a \<Rightarrow> f a)"

definition ReadAccountData :: "'s smt_db_ops \<Rightarrow> poseidon \<Rightarrow> (bytes \<Rightarrow> bytes) \<Rightarrow> 's \<Rightarrow> bytes \<Rightarrow> account res option" where
  "ReadAccountData ops H keccak s address =
     opt_bind (GetAccountBalance ops H keccak s address) (\<lambda>balance.
     opt_bind (GetAccountNonce ops H keccak s address) (\<lambda>nonce.
     opt_bind (GetAccountCodeHash ops H keccak s address) (\<lambda>codeHash.
     Some (Inr \<lparr>acc_Initialised = False, acc_Nonce = ucast nonce, acc_Balance = balance, acc_Root = zero_hash,
       acc_CodeHash = codeHash, acc_Incarnation = 0, acc_PrevIncarnation = 0\<rparr>))))"

definition ReadAccountStorage :: "'s smt_db_ops \<Rightarrow> poseidon \<Rightarrow> (bytes \<Rightarrow> bytes) \<Rightarrow> 's \<Rightarrow> bytes \<Rightarrow> u64 \<Rightarrow> bytes option \<Rightarrow> bytes res option" where
  "ReadAccountStorage ops H keccak s address incarnation key = getValue ops H keccak s 0 address key"

definition ReadAccountCodeSize :: "'s smt_db_ops \<Rightarrow> poseidon \<Rightarrow> (bytes \<Rightarrow> bytes) \<Rightarrow> 's \<Rightarrow> bytes \<Rightarrow> gint res option" where
  "ReadAccountCodeSize ops H keccak s address =
     map_option (\<lambda>r. res_bind r (\<lambda>valueInBytes.
       let sizeBig = big_SetBytes valueInBytes in
       if \<not> (- (2 ^ 63) \<le> sizeBig \<and> sizeBig < 2 ^ 63) then Inl (Error ''code size value is too large to fit into an int'')
       else Inr (word_of_int sizeBig)))
     (getValue ops H keccak s SC_LENGTH address None)"

definition ReadAccountCode :: "mem_db \<Rightarrow> bytes \<Rightarrow> u64 \<Rightarrow> bytes \<Rightarrow> bytes res" where
  "ReadAccountCode s address incarnation codeHash = mem_GetCode s codeHash"


section \<open>What the reader returns\<close>

text \<open>The value of the leaf at which the path of a key ends, whatever the key of that leaf.\<close>

fun path_leaf :: "nat \<Rightarrow> node_key \<Rightarrow> smt_tree \<Rightarrow> value8 option" where
  "path_leaf d k Tip = None"
| "path_leaf d k (Lf k' v) = Some v"
| "path_leaf d k (Br l r) = (if kbit k d then path_leaf (Suc d) k r else path_leaf (Suc d) k l)"

definition value_int :: "value8 \<Rightarrow> int" where
  "value_int v = ArrayBigToScalar (map uint v)"

definition path_bytes :: "node_key \<Rightarrow> bytes" where
  "path_bytes k = map word_of_int (GetPath k)"

lemma path_leaf_lookup: "tree_lookup d t k = Some v \<Longrightarrow> path_leaf d k t = Some v"
  by (induction t arbitrary: d) (auto split: if_splits)

lemma length_path_bytes [simp]: "length (path_bytes k) = 256"
  by (simp add: path_bytes_def)

lemma path_bytes_Suc: "d < 256 \<Longrightarrow> take (Suc d) (path_bytes k) = take d (path_bytes k) @ [of_bool (kbit k d)]"
  by (simp add: take_Suc_conv_app_nth path_bytes_def)

lemma all_some_uint [simp]: "all_some (map (\<lambda>w. Some (uint w)) v) = Some (map uint v)"
  by (induction v) simp_all

lemma value_node:
  assumes "length v = 8"
  shows "NodeValue8ToBigInt (GetNodeValue8 (ConcatArrays8AndCapacity v cap)) = Inr (value_int v)"
proof -
  have "GetNodeValue8 (ConcatArrays8AndCapacity v cap) = map (\<lambda>w. Some (uint w)) v"
    using assms by (auto simp: GetNodeValue8_def ConcatArrays8AndCapacity_def nth_append intro!: nth_equalityI)
      (auto simp: less_Suc_eq numeral_eq_Suc)
  then show ?thesis
    by (simp add: NodeValue8ToBigInt_def BigIntArrayFromNodeValue8_def value_int_def)
qed

lemma ToBigInt_eq_0 [simp]: "ToBigInt k = 0 \<longleftrightarrow> k = zero_key"
proof -
  have "ToBigInt zero_key = 0"
    by (simp add: ToBigInt_def zero_key_def)
  then show ?thesis
    by (metis ScalarToRoot_ToBigInt)
qed

context smt_db
begin

lemma traverse_off_path:
  assumes "invar s" "take (length prefix) p \<noteq> prefix"
  shows "traverse ops s (\<lambda>_. None) node (value_action ops s p) prefix st = Some (Inr st)"
  using assms by (subst traverse.simps) (simp add: get_node value_action_def)

lemma traverse_value:
  assumes "invar s" "wf_tree d t" "stored H (node_at s) d t" "nonzero H d t" "d \<le> 256"
  shows "traverse ops s (\<lambda>_. None) (ToBigInt (tree_root H d t)) (value_action ops s (path_bytes k)) (take d (path_bytes k)) st =
    Some (Inr (case path_leaf d k t of None \<Rightarrow> st | Some v \<Rightarrow> big_Bytes (value_int v)))"
  using assms(2-)
proof (induction t arbitrary: d st)
  case Tip
  then show ?case
    by (subst traverse.simps) simp
next
  case (Lf k' v)
  have "tree_root H d (Lf k' v) \<noteq> zero_key"
    using Lf.prems(3) nonzero_root by blast
  then show ?case
    using Lf.prems assms(1) by (subst traverse.simps)
      (simp add: get_node value_action_def stored_Lf value_node value_ok_def del: tree_root.simps)
next
  case (Br l r)
  have d: "d < 256" and wf: "wf_tree (Suc d) l" "wf_tree (Suc d) r"
    using Br.prems(1) by simp_all
  have st: "node_at s (tree_root H d (Br l r)) = branch_node (tree_root H (Suc d) l) (tree_root H (Suc d) r)"
    "stored H (node_at s) (Suc d) l" "stored H (node_at s) (Suc d) r"
    using Br.prems(2) stored_bit_tree [of H "node_at s" d True l r] by (simp_all add: bit_tree_def bit_node_def del: tree_root.simps)
  have nz: "tree_root H d (Br l r) \<noteq> zero_key" "nonzero H (Suc d) l" "nonzero H (Suc d) r"
    using Br.prems(3) nonzero_bit_tree [of H d True l r] by (simp_all add: bit_tree_def del: tree_root.simps)
  have off: "traverse ops s (\<lambda>_. None) n (value_action ops s (path_bytes k)) (take d (path_bytes k) @ [of_bool (\<not> kbit k d)]) x = Some (Inr x)" for n x
    using d by (intro traverse_off_path [OF assms(1)]) (simp add: path_bytes_Suc del: take_append)
  have l: "traverse ops s (\<lambda>_. None) (ToBigInt (tree_root H (Suc d) l)) (value_action ops s (path_bytes k)) (take (Suc d) (path_bytes k)) st =
      Some (Inr (case path_leaf (Suc d) k l of None \<Rightarrow> st | Some v \<Rightarrow> big_Bytes (value_int v)))" for st
    using d by (intro Br.IH(1) wf st nz) simp
  have r: "traverse ops s (\<lambda>_. None) (ToBigInt (tree_root H (Suc d) r)) (value_action ops s (path_bytes k)) (take (Suc d) (path_bytes k)) st =
      Some (Inr (case path_leaf (Suc d) k r of None \<Rightarrow> st | Some v \<Rightarrow> big_Bytes (value_int v)))" for st
    using d by (intro Br.IH(2) wf st nz) simp
  have act: "value_action ops s (path_bytes k) (take d (path_bytes k)) ky (branch_node a b) x = Inr (True, x)" for ky a b x
    using d by (simp add: value_action_def)
  show ?case
    using l [unfolded path_bytes_Suc [OF d]] r [unfolded path_bytes_Suc [OF d]] off nz(1) st(1) assms(1)
    by (subst traverse.simps) (cases "kbit k d"; simp add: get_node act del: tree_root.simps)
qed

lemma getValueInBytes_path:
  assumes "invar s" "db_GetLastRoot ops s = Inr (ToBigInt (tree_root H 0 t))" "holds H (node_at s) t"
  shows "getValueInBytes ops s k = Some (Inr (case path_leaf 0 k t of None \<Rightarrow> [] | Some v \<Rightarrow> big_Bytes (value_int v)))"
  using traverse_value [OF assms(1), of 0 t H k "[]"] assms(2,3)
  by (simp add: getValueInBytes_def holds_def path_bytes_def)

end

end
