(* ===== verification/Smt_Bytecode.thy ===== *)
theory Smt_Bytecode
  imports Smt_Accounts
begin

unbundle bit_operations_syntax

text \<open>
  The hash of a contract's code (\<^verbatim>\<open>HashContractBytecodeBigInt\<close> in \<^verbatim>\<open>src/smt/pkg/utils/utils.go\<close>). The code works on the
  hexadecimal text; here it is shown to absorb the padded bytes in blocks of 56, and two codes with one hash to
  lead to a collision of the underlying hash. The last section is about the codes of the in-memory database,
  \<^verbatim>\<open>AddCode\<close> and \<^verbatim>\<open>GetCode\<close> in \<^verbatim>\<open>src/smt/pkg/db/mem-db.go\<close>.
\<close>

section \<open>The hash of a bytecode, on bytes\<close>

text \<open>The padded code, the eight words of a block of 56 bytes, and the blocks absorbed one after the other.\<close>

definition code_pad :: "bytes \<Rightarrow> bytes" where
  "code_pad bs = (let p = bs @ [1] @ replicate (55 - length bs mod 56) 0 in butlast p @ [last p OR 0x80])"

definition code_word :: "bytes \<Rightarrow> nat \<Rightarrow> u64" where
  "code_word p i = word_of_int (big_SetBytes (rev (take 7 (drop (7 * i) p))))"

fun code_blocks :: "nat \<Rightarrow> bytes \<Rightarrow> u64 list list" where
  "code_blocks 0 p = []"
| "code_blocks (Suc n) p = map (code_word p) [0..<8] # code_blocks n (drop 56 p)"

definition bytecode_blocks :: "bytes \<Rightarrow> u64 list list" where
  "bytecode_blocks bs = code_blocks (length bs div 56 + 1) (code_pad bs)"

text \<open>The hash that chains the blocks, and the inputs it is called on.\<close>

definition absorb :: "poseidon \<Rightarrow> u64 list list \<Rightarrow> node_key \<Rightarrow> node_key" where
  "absorb H = fold H"

fun absorb_calls :: "poseidon \<Rightarrow> u64 list list \<Rightarrow> node_key \<Rightarrow> (u64 list \<times> node_key) list" where
  "absorb_calls H [] cap = []"
| "absorb_calls H (x # xs) cap = (x, cap) # absorb_calls H xs (H x cap)"

lemma hex_byte: "hex_EncodeToString [b] = [digit_char (unat b div 16), digit_char (unat b mod 16)]"
  by (simp add: hex_EncodeToString_def)

lemma hex_bytes: "hex_EncodeToString [0] = ''00''" "hex_EncodeToString [1] = ''01''" "hex_EncodeToString [0x80] = ''80''"
  "hex_EncodeToString [0x81] = ''81''"
  by (simp_all add: hex_byte digit_char_def)

lemma double_mod: "2 * n mod 112 = 2 * (n mod (56 :: nat))"
  using mod_mult_mult1 [of 2 n 56] by simp

lemma pad_code_hex:
  assumes "(length p + z) mod 56 = 0" "\<And>y. y < z \<Longrightarrow> (length p + y) mod 56 \<noteq> 0"
  shows "pad_code (hex_EncodeToString p) = Some (hex_EncodeToString (p @ replicate z 0))"
  using assms
proof (induction z arbitrary: p)
  case 0
  then show ?case
    by (subst pad_code.simps) (simp add: double_mod)
next
  case (Suc z)
  have "length p mod 56 \<noteq> 0"
    using Suc.prems(2) [of 0] by simp
  then have "pad_code (hex_EncodeToString p) = pad_code (hex_EncodeToString (p @ [0]))"
    by (subst pad_code.simps) (simp add: double_mod hex_append hex_bytes)
  also have "\<dots> = Some (hex_EncodeToString ((p @ [0]) @ replicate z 0))"
  proof (rule Suc.IH)
    show "(length (p @ [0]) + z) mod 56 = 0"
      using Suc.prems(1) by simp
    show "(length (p @ [0]) + y) mod 56 \<noteq> 0" if "y < z" for y
      using Suc.prems(2) [of "Suc y"] that by simp
  qed
  finally show ?case by simp
qed

lemma text_80: "big_Text 16 128 = ''80''" "big_Text 16 129 = ''81''"
  by code_simp+

lemma mark_last_hex:
  assumes "b = 0 \<or> b = 1"
  shows "mark_last (hex_EncodeToString (p @ [b])) = hex_EncodeToString (p @ [b OR 0x80])"
proof -
  have "big_SetString 16 (hex_EncodeToString [b]) = Some (uint b)"
    using big_SetString_hex [of "[b]"] by (simp add: big_SetBytes_def)
  moreover have "big_Text 16 (uint b OR 0x80) = hex_EncodeToString [b OR 0x80]"
    using assms by (elim disjE) (simp_all add: text_80 hex_bytes)
  ultimately show ?thesis
    by (simp add: mark_last_def hex_append)
qed

lemma slice_hex: "j < length q \<Longrightarrow> slice (j * 2) ((j + 1) * 2) (hex_EncodeToString q) = hex_EncodeToString [q ! j]"
  using drop_hex [of j q] take_hex [of 1 "drop j q"]
  by (simp add: slice_def mult.commute [of j] take_Suc_conv_app_nth Cons_nth_drop_Suc [symmetric])

lemma code_elements_hex:
  assumes "length q = 56" "n + 7 * e + c = 56" "c < 7"
  shows "code_elements (hex_EncodeToString q) n (7 * e + c) (hex_EncodeToString (rev (take c (drop (7 * e) q)))) c (map (code_word q) [0..<e]) =
    Inr (map (code_word q) [0..<8])"
  using assms(2,3)
proof (induction n arbitrary: e c)
  case 0
  then have "e = 8" "c = 0" by presburger+
  then show ?case by simp
next
  case (Suc n)
  have j: "7 * e + c < length q"
    using Suc.prems assms(1) by simp
  have snoc: "take (Suc c) (drop (7 * e) q) = take c (drop (7 * e) q) @ [q ! (7 * e + c)]"
    using j by (simp add: take_Suc_conv_app_nth)
  have tmp: "slice ((7 * e + c) * 2) ((7 * e + c + 1) * 2) (hex_EncodeToString q) @ hex_EncodeToString (rev (take c (drop (7 * e) q))) =
      hex_EncodeToString (rev (take (Suc c) (drop (7 * e) q)))"
    unfolding slice_hex [OF j] snoc by (simp flip: hex_append)
  show ?case
  proof (cases "Suc c = 7")
    case True
    have "big_SetString 16 (hex_EncodeToString (rev (take 7 (drop (7 * e) q)))) = Some (big_SetBytes (rev (take 7 (drop (7 * e) q))))"
      using j by (intro big_SetString_hex) (auto simp: True [symmetric])
    moreover have "big_Uint64 (big_SetBytes (rev (take 7 (drop (7 * e) q)))) = code_word q e"
      by (simp add: big_Uint64_def code_word_def)
    moreover have "code_elements (hex_EncodeToString q) n (7 * Suc e + 0) (hex_EncodeToString (rev (take 0 (drop (7 * Suc e) q)))) 0
        (map (code_word q) [0..<Suc e]) = Inr (map (code_word q) [0..<8])"
      using Suc.prems True by (intro Suc.IH) auto
    ultimately show ?thesis
      using j tmp True assms(1) by (simp add: BYTECODE_BYTES_ELEMENT_def)
  next
    case False
    then show ?thesis
      using Suc.IH [of e "Suc c"] Suc.prems j tmp assms(1) by (simp add: BYTECODE_BYTES_ELEMENT_def)
  qed
qed


lemma hash_code_blocks_hex:
  assumes "length q = 56 * (k + n)"
  shows "hash_code_blocks H (hex_EncodeToString q) n (112 * k) cap = Inr (absorb H (code_blocks n (drop (56 * k) q)) cap)"
  using assms
proof (induction n arbitrary: k cap)
  case (Suc n)
  define blk where "blk = take 56 (drop (56 * k) q)"
  have len: "length blk = 56"
    using Suc.prems by (simp add: blk_def)
  have "slice_res (hex_EncodeToString q) (112 * k) (112 * k + 112) = Inr (hex_EncodeToString blk)"
    using Suc.prems drop_hex [of "56 * k" q] take_hex [of 56 "drop (56 * k) q"]
    by (simp add: slice_res_def slice_def blk_def)
  moreover have "code_elements (hex_EncodeToString blk) 56 0 [] 0 [] = Inr (map (code_word blk) [0..<8])"
    using code_elements_hex [of blk 56 0 0] len by simp
  moreover have "map (code_word blk) [0..<8] = map (code_word (drop (56 * k) q)) [0..<8]"
  proof (rule map_cong [OF refl])
    fix i assume "i \<in> set [0..<8 :: nat]"
    then have "take 7 (drop (7 * i) blk) = take 7 (drop (7 * i) (drop (56 * k) q))"
      unfolding blk_def by (simp add: drop_take min_def)
    then show "code_word blk i = code_word (drop (56 * k) q) i"
      by (simp add: code_word_def)
  qed
  moreover have "hash_code_blocks H (hex_EncodeToString q) n (112 * Suc k) (H (map (code_word (drop (56 * k) q)) [0..<8]) cap) =
      Inr (absorb H (code_blocks n (drop 56 (drop (56 * k) q))) (H (map (code_word (drop (56 * k) q)) [0..<8]) cap))"
    using Suc.IH [of "Suc k"] Suc.prems by (simp add: algebra_simps)
  ultimately show ?case
    by (simp add: BYTECODE_ELEMENTS_HASH_def BYTECODE_BYTES_ELEMENT_def Hash_def absorb_def algebra_simps)
qed (simp add: absorb_def)

lemma length_code_pad: "length (code_pad bs) = 56 * (length bs div 56 + 1)"
proof -
  define d m where dm: "d = length bs div 56" "m = length bs mod 56"
  have "length bs = 56 * d + m" "m < 56"
    by (simp_all add: dm)
  moreover have "length (code_pad bs) = length bs + 1 + (55 - m)"
    by (simp add: code_pad_def Let_def dm)
  ultimately show ?thesis
    unfolding dm(1) [symmetric] by simp
qed


text \<open>What the loop over two hexadecimal digits at a time makes of the digits of a code.\<close>

lemma HashContractBytecodeBigInt_hex:
  assumes "length bs < 2 ^ 50"
  shows "HashContractBytecodeBigInt H (''0x'' @ hex_EncodeToString bs) =
    Some (Inr (ToBigInt (absorb H (bytecode_blocks bs) (NodeKey 0 0 0 0))))"
proof -
  define z where "z = 55 - length bs mod 56"
  define p where "p = bs @ [1] @ replicate z 0"
  define n where "n = length bs div 56 + 1"
  have len: "length (code_pad bs) = 56 * n" and n: "0 < n"
    by (simp_all add: length_code_pad n_def)
  have pad: "code_pad bs = butlast p @ [last p OR 0x80]"
    by (simp add: code_pad_def p_def z_def Let_def)
  have p: "p \<noteq> []" "length p = 56 * n"
    using len pad by (auto simp: p_def)
  have step: "pad_code (hex_EncodeToString bs @ ''01'') = Some (hex_EncodeToString p)"
  proof -
    have "(length (bs @ [1]) + z) mod 56 = 0"
      using p(2) by (simp add: p_def)
    moreover have "(length (bs @ [1 :: u8]) + y) mod 56 \<noteq> 0" if "y < z" for y
    proof -
      define d m where dm: "d = length bs div 56" "m = length bs mod 56"
      have "length bs = 56 * d + m" "m + 1 + y < 56" "z = 55 - m"
        using that by (simp_all add: dm z_def)
      then show ?thesis
        by (simp add: mod_mult_self2 [of _ 56 d] add.assoc)
    qed
    ultimately have "pad_code (hex_EncodeToString (bs @ [1])) = Some (hex_EncodeToString ((bs @ [1]) @ replicate z 0))"
      by (rule pad_code_hex)
    then show ?thesis
      by (simp add: hex_append hex_bytes p_def)
  qed
  have "last p = 0 \<or> last p = 1"
    by (simp add: p_def last_append)
  then have mark: "mark_last (hex_EncodeToString p) = hex_EncodeToString (code_pad bs)"
    using mark_last_hex [of "last p" "butlast p"] p(1) pad by simp
  have small: "56 * n < 2 ^ 51"
    using assms p(2) by (simp add: p_def z_def)
  have "float64_of_int (int (2 * (56 * n))) = of_int (int (2 * (56 * n)))"
    unfolding float64_of_int_def using small by (intro fl64_int) simp
  moreover have "float64_div (of_int (int (2 * (56 * n)))) 2 = of_int (int (56 * n))"
    using fl64_int [of "int (56 * n)"] small by (simp add: float64_div_def)
  moreover have "float64_div (of_int (int (56 * n))) 56 = of_int (int n)"
    using fl64_int [of "int n"] small by (simp add: float64_div_def)
  moreover have "hash_code_blocks H (hex_EncodeToString (code_pad bs)) n 0 (NodeKey 0 0 0 0) =
      Inr (absorb H (bytecode_blocks bs) (NodeKey 0 0 0 0))"
    using hash_code_blocks_hex [of "code_pad bs" 0 n] len by (simp add: bytecode_blocks_def n_def)
  ultimately show ?thesis
    unfolding HashContractBytecodeBigInt_def Let_def
    using step mark len by (simp add: BYTECODE_ELEMENTS_HASH_def BYTECODE_BYTES_ELEMENT_def ToBigInt_def)
qed

lemma SetBytes_inject:
  assumes "length as = length bs"
  shows "big_SetBytes as = big_SetBytes bs \<longleftrightarrow> as = bs"
  using assms
proof (induction as bs rule: rev_induct2)
  case (4 x xs y ys)
  have "0 \<le> uint x" "uint x < 256" "0 \<le> uint y" "uint y < 256"
    using uint_bounded [of x] uint_bounded [of y] by simp_all
  then have "big_SetBytes xs = big_SetBytes ys" if "big_SetBytes xs * 256 + uint x = big_SetBytes ys * 256 + uint y"
    using that by linarith
  then show ?case
    using 4 by (auto simp add: word_uint_eq_iff [symmetric])
qed simp_all

lemma code_word_inject:
  assumes "length p = 56" "length q = 56" "i < 8"
  shows "code_word p i = code_word q i \<longleftrightarrow> take 7 (drop (7 * i) p) = take 7 (drop (7 * i) q)"
proof -
  let ?a = "rev (take 7 (drop (7 * i) p))" and ?b = "rev (take 7 (drop (7 * i) q))"
  have len: "length ?a = 7" "length ?b = 7"
    using assms by auto
  have "big_SetBytes ?a < 2 ^ 64" "big_SetBytes ?b < 2 ^ 64"
    using SetBytes_less [of ?a] SetBytes_less [of ?b] len by simp_all
  then have "code_word p i = code_word q i \<longleftrightarrow> big_SetBytes ?a = big_SetBytes ?b"
    by (simp add: code_word_def word_of_int_eq_iff take_bit_int_eq_self)
  then show ?thesis
    using SetBytes_inject [of ?a ?b] len by simp
qed

lemma chunks_inject:
  assumes "length p = 56" "length q = 56" "\<And>i. i < 8 \<Longrightarrow> take 7 (drop (7 * i) p) = take 7 (drop (7 * i) q)"
  shows "p = q"
proof (rule nth_equalityI)
  fix j assume "j < length p"
  then have i: "j div 7 < 8" and j: "7 * (j div 7) + j mod 7 = j" and m: "j mod 7 < 7"
    using assms(1) by (auto simp: less_mult_imp_div_less)
  have "p ! j = take 7 (drop (7 * (j div 7)) p) ! (j mod 7)" "q ! j = take 7 (drop (7 * (j div 7)) q) ! (j mod 7)"
    using m j assms(1,2) \<open>j < length p\<close> by simp_all
  then show "p ! j = q ! j"
    using assms(3) [OF i] by simp
qed (simp add: assms)

lemma code_word_take: "i < 8 \<Longrightarrow> code_word (take 56 p) i = code_word p i"
  by (simp add: code_word_def drop_take min_def)

lemma length_code_blocks [simp]: "length (code_blocks n p) = n"
  by (induction n arbitrary: p) auto

lemma code_blocks_inject:
  assumes "code_blocks n p = code_blocks n q" "length p = 56 * n" "length q = 56 * n"
  shows "p = q"
  using assms
proof (induction n arbitrary: p q)
  case (Suc n)
  have "code_word (take 56 p) i = code_word (take 56 q) i" if "i < 8" for i
    using Suc.prems(1) that by (auto simp: code_word_take)
  moreover have len: "length (take 56 p) = 56" "length (take 56 q) = 56"
    using Suc.prems(2,3) by simp_all
  ultimately have "take 56 p = take 56 q"
    using chunks_inject [OF len] code_word_inject [OF len] by blast
  moreover have "drop 56 p = drop 56 q"
    using Suc.prems by (intro Suc.IH) simp_all
  ultimately show ?case
    by (metis append_take_drop_id)
qed simp

lemma code_pad_inject:
  assumes "code_pad as = code_pad bs"
  shows "as = bs"
proof -
  define P where "P bs = bs @ [1] @ replicate (55 - length bs mod 56) (0 :: u8)" for bs
  have pad: "code_pad bs = butlast (P bs) @ [last (P bs) OR 0x80]" "P bs \<noteq> []" "last (P bs) = 0 \<or> last (P bs) = 1" for bs
    by (simp_all add: code_pad_def P_def Let_def)
  have "butlast (P as) = butlast (P bs)" "last (P as) OR 0x80 = last (P bs) OR 0x80"
    using assms pad(1) by auto
  moreover from this(2) have "last (P as) = last (P bs)"
    using pad(3) [of as] pad(3) [of bs] by (elim disjE) simp_all
  ultimately have "P as = P bs"
    using pad(2) append_butlast_last_id by metis
  moreover have "rev (tl (dropWhile ((=) 0) (rev (P bs)))) = bs" for bs
    by (simp add: P_def dropWhile_append3)
  ultimately show ?thesis by metis
qed

lemma bytecode_blocks_inject: "bytecode_blocks as = bytecode_blocks bs \<longleftrightarrow> as = bs"
proof
  assume eq: "bytecode_blocks as = bytecode_blocks bs"
  then have "length as div 56 = length bs div 56"
    unfolding bytecode_blocks_def by (metis length_code_blocks add_right_imp_eq)
  then have "code_pad as = code_pad bs"
    using eq unfolding bytecode_blocks_def by (intro code_blocks_inject [of "length bs div 56 + 1"]) (simp_all only: length_code_pad)
  then show "as = bs"
    by (rule code_pad_inject)
qed simp

lemma absorb_snoc [simp]: "absorb H (xs @ [x]) cap = H x (absorb H xs cap)"
  by (simp add: absorb_def)

lemma absorb_calls_snoc [simp]: "absorb_calls H (xs @ [x]) cap = absorb_calls H xs cap @ [(x, absorb H xs cap)]"
  by (induction xs arbitrary: cap) (simp_all add: absorb_def)

text \<open>The chaining argument: equal results of different block lists lead to a collision or to a preimage of the start.\<close>

lemma absorb_collision:
  assumes "absorb H xs cap = absorb H ys cap" "xs \<noteq> ys"
    and "cap \<notin> case_prod H ` set (absorb_calls H xs cap @ absorb_calls H ys cap)"
  shows "\<exists>a \<in> set (absorb_calls H xs cap). \<exists>b \<in> set (absorb_calls H ys cap). a \<noteq> b \<and> case_prod H a = case_prod H b"
  using assms
proof (induction xs ys rule: rev_induct2)
  case (4 x xs y ys)
  show ?case
  proof (cases "(x, absorb H xs cap) = (y, absorb H ys cap)")
    case True
    then have "\<exists>a \<in> set (absorb_calls H xs cap). \<exists>b \<in> set (absorb_calls H ys cap). a \<noteq> b \<and> case_prod H a = case_prod H b"
      using 4(2-) by (intro 4(1)) auto
    then show ?thesis
      by (metis UnCI absorb_calls_snoc set_append)
  next
    case False
    then show ?thesis
      using 4 by auto
  qed
qed (auto simp: absorb_def)


section \<open>Properties\<close>

text \<open>
  C32. \<^verbatim>\<open>convertBytecodeToBigInt\<close> is the chained hash of the padded code. For the text of any code of less than
  \<open>2 ^ 50\<close> bytes the loops end and return the number of bytes together with the hash that absorbs, from zero, the
  blocks of eight words of seven bytes (least significant byte first) of the code followed by 01, zeros up to a multiple of
  56 bytes and the bit 80 in the last byte; the number of blocks computed in floating point is exact.
\<close>

theorem convertBytecodeToBigInt_absorbs:
  assumes "length bs < 2 ^ 50"
  shows "convertBytecodeToBigInt H (''0x'' @ hex_EncodeToString bs) =
    Some (Inr (ToBigInt (absorb H (bytecode_blocks bs) zero_key), int (length bs)))"
proof -
  have "TrimPrefix ''0x'' (''0x'' @ hex_EncodeToString bs) = hex_EncodeToString bs"
    by (simp add: TrimPrefix_def)
  then show ?thesis
    using HashContractBytecodeBigInt_hex [OF assms, of H] by (simp add: convertBytecodeToBigInt_def zero_key_def)
qed

theorem convertBytecodeToBigInt_absorbs_witness:
  "convertBytecodeToBigInt poly_hash ''0x6080'' =
    Some (Inr (ToBigInt (poly_hash [0x018060, 0, 0, 0, 0, 0, 0, 0x80000000000000] zero_key), 2))"
proof -
  have "hex_EncodeToString [0x60, 0x80] = ''6080''"
    "bytecode_blocks [0x60, 0x80] = [[0x018060, 0, 0, 0, 0, 0, 0, 0x80000000000000]]"
    by code_simp+
  then show ?thesis
    using convertBytecodeToBigInt_absorbs [of "[0x60, 0x80]" poly_hash] by (simp add: absorb_def)
qed

text \<open>
  C33. Codes are bound by their hash. If the codes of two different byte strings have the same hash, then two of the
  calls of the permutation made while hashing them have different inputs and the same output, or one of the calls
  returns the zero start value; the padding and the split into words lose nothing.
\<close>

theorem HashContractBytecodeBigInt_binding:
  assumes "length as < 2 ^ 50" "length bs < 2 ^ 50" "as \<noteq> bs"
    and "HashContractBytecodeBigInt H (''0x'' @ hex_EncodeToString as) = HashContractBytecodeBigInt H (''0x'' @ hex_EncodeToString bs)"
    and "zero_key \<notin> case_prod H ` set (absorb_calls H (bytecode_blocks as) zero_key @ absorb_calls H (bytecode_blocks bs) zero_key)"
  shows "\<exists>x \<in> set (absorb_calls H (bytecode_blocks as) zero_key). \<exists>y \<in> set (absorb_calls H (bytecode_blocks bs) zero_key).
    x \<noteq> y \<and> case_prod H x = case_prod H y"
proof (rule absorb_collision)
  have "ToBigInt (absorb H (bytecode_blocks as) zero_key) = ToBigInt (absorb H (bytecode_blocks bs) zero_key)"
    using assms(4) HashContractBytecodeBigInt_hex [OF assms(1), of H] HashContractBytecodeBigInt_hex [OF assms(2), of H]
    by (simp add: zero_key_def)
  then show "absorb H (bytecode_blocks as) zero_key = absorb H (bytecode_blocks bs) zero_key"
    by (metis ScalarToRoot_ToBigInt)
  show "bytecode_blocks as \<noteq> bytecode_blocks bs"
    using assms(3) by (simp add: bytecode_blocks_inject)
qed (rule assms(5))

text \<open>A permutation that ignores the first word, on the codes 00 and 01.\<close>

definition weak_hash :: poseidon where
  "weak_hash inp cap = NodeKey (last inp) 1 0 0"

theorem HashContractBytecodeBigInt_binding_witness:
  "\<exists>x \<in> set (absorb_calls weak_hash (bytecode_blocks [0]) zero_key). \<exists>y \<in> set (absorb_calls weak_hash (bytecode_blocks [1]) zero_key).
    x \<noteq> y \<and> case_prod weak_hash x = case_prod weak_hash y"
proof (rule HashContractBytecodeBigInt_binding)
  have blocks: "bytecode_blocks [0] = [[0x0100, 0, 0, 0, 0, 0, 0, 0x80000000000000]]"
    "bytecode_blocks [1] = [[0x0101, 0, 0, 0, 0, 0, 0, 0x80000000000000]]"
    by code_simp+
  show "HashContractBytecodeBigInt weak_hash (''0x'' @ hex_EncodeToString [0]) =
      HashContractBytecodeBigInt weak_hash (''0x'' @ hex_EncodeToString [1])"
    by (subst (1 2) HashContractBytecodeBigInt_hex) (simp_all add: blocks absorb_def weak_hash_def)
  show "zero_key \<notin> case_prod weak_hash `
      set (absorb_calls weak_hash (bytecode_blocks [0]) zero_key @ absorb_calls weak_hash (bytecode_blocks [1]) zero_key)"
    by (simp add: blocks weak_hash_def zero_key_def)
qed simp_all

section \<open>Codes by their hash\<close>

lemma nat_text_byte:
  assumes "0 < a" "b < 256"
  shows "nat_text 16 (a * 256 + b) = nat_text 16 a @ [digit_char (b div 16), digit_char (b mod 16)]"
proof -
  have "(a * 256 + b) div 16 = a * 16 + b div 16" "(a * 256 + b) mod 16 = b mod 16"
    using div_mult_self2 [of 16 b "a * 16"] mod_mult_self2 [of b 16 "a * 16"] by (simp_all add: algebra_simps)
  moreover have "(a * 16 + b div 16) div 16 = a" "(a * 16 + b div 16) mod 16 = b div 16"
    using assms(2) by (simp_all add: less_mult_imp_div_less)
  ultimately show ?thesis
    using assms by (subst nat_text.simps, simp, subst nat_text.simps, simp)
qed

lemma big_Text_nonneg: "0 \<le> x \<Longrightarrow> big_Text b x = nat_text b (nat x)"
  by (simp add: big_Text_def)

lemma big_Text_hex: "bs \<noteq> [] \<Longrightarrow> 16 \<le> unat (hd bs) \<Longrightarrow> big_Text 16 (big_SetBytes bs) = hex_EncodeToString bs"
proof (induction bs rule: rev_induct)
  case (snoc b bs)
  have b: "unat b < 256"
    using unsigned_less [of b, where ?'a = nat] by simp
  show ?case
  proof (cases "bs = []")
    case True
    have "nat_text 16 (unat b) = [digit_char (unat b div 16), digit_char (unat b mod 16)]"
      using snoc.prems True b by (subst nat_text.simps, simp, subst nat_text.simps, simp)
    then show ?thesis
      using True by (simp add: big_Text_def hex_byte big_SetBytes_def)
  next
    case False
    obtain x xs where bs: "bs = x # xs" "16 \<le> unat x"
      using False snoc.prems by (cases bs) auto
    have "int (unat x) = uint x"
      by simp
    then have "0 < uint x"
      using bs(2) by linarith
    then have "0 < big_SetBytes bs"
      using SetBytes_append [of "[x]" xs] bs by (simp add: big_SetBytes_def [of "[x]"] add_pos_nonneg word_less_nat_alt)
    moreover have "nat (big_SetBytes (bs @ [b])) = nat (big_SetBytes bs) * 256 + unat b"
      by (simp add: nat_add_distrib nat_mult_distrib)
    ultimately have "nat_text 16 (nat (big_SetBytes (bs @ [b]))) = nat_text 16 (nat (big_SetBytes bs)) @ [digit_char (unat b div 16), digit_char (unat b mod 16)]"
      using nat_text_byte [of "nat (big_SetBytes bs)" "unat b"] b by simp
    then show ?thesis
      using snoc False by (simp add: big_Text_nonneg hex_snoc del: big_SetBytes_snoc)
  qed
qed simp

lemma length_nat_text: "n < 16 ^ k \<Longrightarrow> 0 < k \<Longrightarrow> length (nat_text 16 n) \<le> k"
proof (induction k arbitrary: n)
  case (Suc k)
  show ?case
  proof (cases "n < 16")
    case True
    then show ?thesis
      by (subst nat_text.simps) simp
  next
    case False
    then have "n div 16 < 16 ^ k" "0 < k"
      using Suc.prems(1) by (auto simp: less_mult_imp_div_less mult.commute intro!: gr0I)
    then show ?thesis
      using Suc.IH [of "n div 16"] False by (subst nat_text.simps) simp
  qed
qed simp

lemma hex_not_prefixed: "take 2 (hex_EncodeToString bs) \<noteq> ''0x''"
proof
  assume "take 2 (hex_EncodeToString bs) = ''0x''"
  then have "CHR ''x'' \<in> set (hex_EncodeToString bs)"
    by (metis in_set_takeD list.set_intros)
  then obtain d where "d < 16" "digit_char d = CHR ''x''"
    using hex_digits by metis
  then show False
    using digit_val_digit_char [of d] by (simp add: digit_val_def)
qed

lemma HashContractBytecodeBigInt_prefix:
  "HashContractBytecodeBigInt H (''0x'' @ hex_EncodeToString bs) = HashContractBytecodeBigInt H (hex_EncodeToString bs)"
  using hex_not_prefixed [of bs] by (simp add: HashContractBytecodeBigInt_def)

text \<open>The text of a scalar has all 64 digits only if its first digit is not zero.\<close>

lemma hash_text:
  assumes "0 \<le> h" "h < 2 ^ 256"
  shows "big_Text 16 h = hex_EncodeToString (set_bytes 32 (big_Bytes h)) \<longleftrightarrow> 2 ^ 252 \<le> h"
proof
  assume "big_Text 16 h = hex_EncodeToString (set_bytes 32 (big_Bytes h))"
  then have "length (nat_text 16 (nat h)) = 64"
    using assms(1) by (simp add: big_Text_nonneg)
  then show "2 ^ 252 \<le> h"
    using length_nat_text [of "nat h" 63] assms(1) by (cases "2 ^ 252 \<le> h") (simp_all add: nat_less_iff)
next
  assume h: "2 ^ 252 \<le> h"
  define bs where "bs = set_bytes 32 (big_Bytes h)"
  have "nat h < 256 ^ 32"
    using assms by (simp add: nat_less_iff)
  then have "length (big_Bytes h) \<le> 32"
    using assms(1) by (simp add: big_Bytes_def nat_bytes_fits)
  then have bs: "big_SetBytes bs = h" "length bs = 32"
    using assms(1) by (simp_all add: bs_def set_bytes_def Let_def big_SetBytes_Bytes)
  then obtain x xs where x: "bs = x # xs" "length xs = 31"
    by (cases bs) auto
  have "h = uint x * 256 ^ 31 + big_SetBytes xs" "big_SetBytes xs < 256 ^ 31"
    using SetBytes_append [of "[x]" xs] SetBytes_less [of xs] bs(1) x by (simp_all add: big_SetBytes_def [of "[x]"])
  then have "16 \<le> uint x"
    using h by simp
  moreover have "int (unat x) = uint x"
    by simp
  ultimately have "16 \<le> unat x"
    by linarith
  then show "big_Text 16 h = hex_EncodeToString (set_bytes 32 (big_Bytes h))"
    using big_Text_hex [of bs] bs(1) x(1) by (simp add: bs_def)
qed

lemma ToBigInt_less: "ToBigInt k < 2 ^ 256"
proof -
  have "ArrayToScalar xs < 2 ^ (64 * length xs)" for xs
  proof (induction xs)
    case (Cons x xs)
    have "uint x < 2 ^ 64"
      using uint_lt2p [of x] by simp
    then show ?case
      using Cons by (simp add: power_add)
  qed simp
  from this [of "nk_list k"] show ?thesis
    by (simp add: ToBigInt_def)
qed

text \<open>
  C37. A code that was added is found under its hash exactly if the hash has 64 hexadecimal digits. After \<^verbatim>\<open>AddCode\<close> of a
  code of less than \<open>2 ^ 50\<close> bytes, \<^verbatim>\<open>GetCode\<close> with the 32 bytes of its hash returns the code if the hash is at least
  \<open>2 ^ 252\<close>; otherwise it answers as if the code had not been added, because the key is written without leading zeros and
  looked up with them.
\<close>

theorem AddCode_GetCode:
  assumes "length code < 2 ^ 50" "h = ToBigInt (absorb H (bytecode_blocks code) zero_key)"
  shows "\<exists>m'. mem_AddCode H m code = Some (Inr m') \<and>
    mem_GetCode m' (BytesToHash (big_Bytes h)) = (if 2 ^ 252 \<le> h then Inr code else mem_GetCode m (BytesToHash (big_Bytes h)))"
proof -
  have "HashContractBytecode H (hex_EncodeToString code) = Some (Inr (''0x'' @ big_Text 16 h))"
    using HashContractBytecodeBigInt_hex [OF assms(1), of H] unfolding HashContractBytecodeBigInt_prefix
    by (simp add: HashContractBytecode_def ConvertBigIntToHex_def assms(2) zero_key_def)
  then have add: "mem_AddCode H m code = Some (Inr (m\<lparr>DbCode := (DbCode m)(''0x'' @ big_Text 16 h \<mapsto> code)\<rparr>))"
    by (simp add: mem_AddCode_def)
  have "big_Text 16 h = hex_EncodeToString (set_bytes 32 (big_Bytes h)) \<longleftrightarrow> 2 ^ 252 \<le> h"
    unfolding assms(2) by (rule hash_text [OF ToBigInt_nonneg ToBigInt_less])
  then show ?thesis
    unfolding add by (auto simp: mem_GetCode_def ResizeHashTo32BytesByPrefixingWithZeroes_def BytesToHash_def)
qed

theorem AddCode_GetCode_witness:
  "\<exists>m'. mem_AddCode poly_hash NewMemDb [0x60, 0x80] = Some (Inr m') \<and>
    mem_GetCode m' (BytesToHash (big_Bytes (ToBigInt (absorb poly_hash (bytecode_blocks [0x60, 0x80]) zero_key)))) = Inl (Error ''key not found'')"
proof -
  have "absorb poly_hash (bytecode_blocks [0x60, 0x80]) zero_key = poly_hash [0x018060, 0, 0, 0, 0, 0, 0, 0x80000000000000] zero_key"
  proof -
    have "bytecode_blocks [0x60, 0x80] = [[0x018060, 0, 0, 0, 0, 0, 0, 0x80000000000000]]"
      by code_simp
    then show ?thesis
      by (simp add: absorb_def)
  qed
  moreover have "ToBigInt (poly_hash [0x018060, 0, 0, 0, 0, 0, 0, 0x80000000000000] zero_key) < 2 ^ 252"
    by (simp add: ToBigInt_def poly_hash_def zero_key_def)
  ultimately show ?thesis
    using AddCode_GetCode [of "[0x60, 0x80]" _ poly_hash NewMemDb] by (auto simp: mem_GetCode_def NewMemDb_def)
qed

end
