(* ===== verification/Smt_State.thy ===== *)
theory Smt_State
  imports Smt_Reader Smt_Bytecode
begin

text \<open>
  Accounts set and read: the operations of \<^verbatim>\<open>src/smt/pkg/smt/entity_storage.go\<close> on an in-memory database that holds a tree, and
  what the state reader of \<^verbatim>\<open>src/smt/pkg/smt/smt_state_reader.go\<close> returns afterwards. The keys of the entries are those of
  \<^verbatim>\<open>src/smt/pkg/utils/utils.go\<close>; the tree after an operation is the run of its entries.
\<close>

unbundle bit_operations_syntax

section \<open>Texts and words\<close>

lemma digit_val_upper:
  assumes "d < 16" "of_char (digit_char d) > (57 :: nat)"
  shows "digit_val (char_of (of_char (digit_char d) - (32 :: nat))) = Some d"
proof -
  have "d = 0 \<or> d = 1 \<or> d = 2 \<or> d = 3 \<or> d = 4 \<or> d = 5 \<or> d = 6 \<or> d = 7 \<or> d = 8 \<or> d = 9 \<or>
      d = 10 \<or> d = 11 \<or> d = 12 \<or> d = 13 \<or> d = 14 \<or> d = 15"
    using assms(1) by presburger
  then show ?thesis
    using assms(2) by (elim disjE) (simp_all add: digit_char_def digit_val_def)
qed

lemma digit_val_sign [simp]: "digit_val CHR ''-'' = None" "digit_val CHR ''+'' = None"
  by (simp_all add: digit_val_def)

text \<open>Two texts that differ only in the case of digits are read alike.\<close>

definition same_digits :: "char \<Rightarrow> char \<Rightarrow> bool" where
  "same_digits c c' \<longleftrightarrow> digit_val c = digit_val c' \<and> digit_val c \<noteq> None"

lemma parse_digits_same: "list_all2 same_digits s s' \<Longrightarrow> parse_digits b acc s = parse_digits b acc s'"
  by (induction s s' arbitrary: acc rule: list_all2_induct) (auto simp: same_digits_def split: option.splits)

lemma big_SetString_same:
  assumes "list_all2 same_digits s s'"
  shows "big_SetString b s = big_SetString b s'"
proof -
  have "parse_nat b s = parse_nat b s'"
    using assms parse_digits_same [OF assms] by (auto simp: parse_nat_def list_all2_Nil list_all2_Nil2)
  moreover have "hd s \<notin> {CHR ''-'', CHR ''+''}" "hd s' \<notin> {CHR ''-'', CHR ''+''}" if "s \<noteq> []"
    using assms that by (cases s; cases s'; auto simp: same_digits_def)+
  ultimately show ?thesis
    using assms by (cases s; cases s') (simp_all add: big_SetString_def)
qed

lemma checksumHex_read:
  assumes "length a \<le> length (keccak (map of_char (hex_EncodeToString a)))" "a \<noteq> []"
  obtains ethAddr where "checksumHex keccak a = Inr ethAddr" "ConvertHexToBigInt ethAddr = Some (big_SetBytes a)"
proof -
  define buf where "buf = hex_EncodeToString a"
  define up where "up i = (let hash = keccak (map of_char buf); hashByte = (if even i then drop_bit 4 (hash ! (i div 2)) else hash ! (i div 2) AND 0xf) in
     if of_char (buf ! i) > (57 :: nat) \<and> hashByte > 7 then char_of (of_char (buf ! i) - (32 :: nat)) else buf ! i)" for i
  have "same_digits (up i) (buf ! i)" if i: "i < length buf" for i
  proof -
    obtain d where "d < 16" "buf ! i = digit_char d"
      using hex_digits [of "buf ! i" a] i unfolding buf_def by auto
    then show ?thesis
      by (auto simp: up_def Let_def same_digits_def digit_val_digit_char digit_val_upper)
  qed
  then have "list_all2 same_digits (map up [0..<length buf]) buf"
    by (auto simp: list_all2_conv_all_nth)
  then have "big_SetString 16 (map up [0..<length buf]) = Some (big_SetBytes a)"
    using big_SetString_same big_SetString_hex [OF assms(2)] unfolding buf_def by auto
  then have "ConvertHexToBigInt (''0x'' @ map up [0..<length buf]) = Some (big_SetBytes a)"
    by (simp add: ConvertHexToBigInt_def TrimPrefix_def)
  moreover have "checksumHex keccak a = Inr (''0x'' @ map up [0..<length buf])"
    using assms(1) by (simp add: checksumHex_def buf_def up_def Let_def)
  ultimately show ?thesis by (intro that)
qed

text \<open>A scalar as eight words of 32 bits.\<close>

definition int_words :: "int \<Rightarrow> value8" where
  "int_words x = words (map Some (ScalarToArrayBig x))"

lemma entry_ok_scalar [simp]: "entry_ok (map Some (ScalarToArrayBig x))"
  by (simp add: entry_ok_def ScalarToArrayBig_def Let_def)

lemma length_int_words [simp]: "length (int_words x) = 8"
  by (simp add: int_words_def words_def ToUintArray_def ScalarToArrayBig_def Let_def)

definition limbs :: "nat \<Rightarrow> int \<Rightarrow> int list" where
  "limbs n x = map (\<lambda>i. drop_bit (32 * i) x mod 2 ^ 32) [0..<n]"

lemma limbs_Suc: "limbs (Suc n) x = x mod 2 ^ 32 # limbs n (drop_bit 32 x)"
proof -
  have "[0..<Suc n] = 0 # map Suc [0..<n]"
    by (simp add: upt_conv_Cons map_Suc_upt del: upt_Suc)
  then show ?thesis
    by (simp add: limbs_def comp_def add.commute)
qed

lemma ArrayBigToScalar_limbs: "ArrayBigToScalar (limbs n x) = x mod 2 ^ (32 * n)"
proof (induction n arbitrary: x)
  case (Suc n)
  have "x mod (2 ^ 32 * 2 ^ (32 * n)) = 2 ^ 32 * (x div 2 ^ 32 mod 2 ^ (32 * n)) + x mod 2 ^ 32"
    by (rule zmod_zmult2_eq) simp
  then show ?case
    using Suc.IH [of "drop_bit 32 x"] by (simp add: limbs_Suc drop_bit_eq_div power_add algebra_simps)
qed (simp add: limbs_def)

lemma ScalarToArrayBig_limbs: "ScalarToArrayBig x = limbs 8 x"
proof -
  have "y AND 4294967295 = y mod 2 ^ 32" for y :: int
    using take_bit_eq_mask [of 32 y] by (simp add: take_bit_eq_mod mask_eq_exp_minus_1)
  then show ?thesis
    by (simp add: ScalarToArrayBig_def limbs_def Let_def upt_rec)
qed

lemma value_int_words:
  assumes "0 \<le> x" "x < 2 ^ 256"
  shows "value_int (int_words x) = x"
proof -
  have "uint (big_Uint64 (y mod 2 ^ 32)) = y mod 2 ^ 32" for y :: int
  proof -
    have "0 \<le> y mod 2 ^ 32" "y mod 2 ^ 32 < 2 ^ 32"
      by simp_all
    then show ?thesis
      by (simp add: big_Uint64_def take_bit_int_eq_self unsigned_of_int)
  qed
  then have "map uint (int_words x) = limbs 8 x"
    by (simp add: int_words_def words_def ToUintArray_def opt_Uint64_def ScalarToArrayBig_limbs limbs_def comp_def)
  then show ?thesis
    using assms by (simp add: value_int_def ArrayBigToScalar_limbs)
qed


section \<open>The key sources are untouched by insertions\<close>

interpretation mem_keyed: smt_db mem_ops mem_node_at "\<lambda>s. mem_invar s \<and> DbKeySource s = ks" for ks
proof unfold_locales
  fix s :: mem_db and inp :: "u64 list" and k cap :: node_key
  assume "mem_invar s \<and> DbKeySource s = ks" "length inp = 8"
  then obtain s' where "db_Insert mem_ops s k (ConcatArrays8AndCapacity inp cap) = Inr s'" "mem_invar s'"
    "mem_node_at s' = (mem_node_at s)(k := ConcatArrays8AndCapacity inp cap)"
    using mem.insert_node by blast
  then show "\<exists>s'. db_Insert mem_ops s k (ConcatArrays8AndCapacity inp cap) = Inr s' \<and> (mem_invar s' \<and> DbKeySource s' = ks) \<and>
      mem_node_at s' = (mem_node_at s)(k := ConcatArrays8AndCapacity inp cap)"
    using \<open>mem_invar s \<and> DbKeySource s = ks\<close> by (auto simp: mem_ops_def mem_Insert_def)
qed (auto simp: mem.get_node mem.depth_no_panic, auto simp: mem_ops_def mem_InsertHashKey_def mem_SetDepth_def mem_SetLastRoot_def mem_GetLastRoot_def mem_invar_def mem_node_at_def)


section \<open>Databases that hold a tree\<close>

definition db_holds :: "poseidon \<Rightarrow> mem_db \<Rightarrow> smt_tree \<Rightarrow> bool" where
  "db_holds H s t \<longleftrightarrow> mem_invar s \<and> mem_GetLastRoot s = Inr (ToBigInt (tree_root H 0 t)) \<and> holds H (mem_node_at s) t"

lemma db_holds_NewMemDb: "db_holds H NewMemDb Tip"
  by (simp add: db_holds_def NewMemDb_root)

definition int_value :: "int \<Rightarrow> node_value" where
  "int_value x = map Some (ScalarToArrayBig x)"

lemma int_value_simps [simp]: "entry_ok (int_value x)" "words (int_value x) = int_words x" "NodeValue8FromBigIntArray (int_value x) = Inr (int_value x)"
  by (simp_all add: int_value_def int_words_def NodeValue8FromBigIntArray_def) (simp add: ScalarToArrayBig_def Let_def)

text \<open>One insertion of a run, and the key source that follows it.\<close>

lemma InsertKA_holds:
  assumes "db_holds H s t" "run_ok H t [(k, int_value x)]"
  obtains s' m where "InsertKA mem_ops H False s k x = Inr (\<lparr>NewRootScalar = tree_root H 0 (tree_update k (int_words x) t), Mode = m\<rparr>, s')"
    "db_holds H s' (tree_update k (int_words x) t)" "DbKeySource s' = DbKeySource s"
proof -
  obtain s' m where "insertSingle mem_ops H False s k (int_value x) zero_key =
      Inr (\<lparr>NewRootScalar = tree_root H 0 (tree_update k (int_words x) t), Mode = m\<rparr>, s')"
    "mem_invar s' \<and> DbKeySource s' = DbKeySource s" "mem_GetLastRoot s' = Inr (ToBigInt (tree_root H 0 (tree_update k (int_words x) t)))"
    "holds H (mem_node_at s') (tree_update k (int_words x) t)"
    using mem_keyed.insertSingle_correct [of s "DbKeySource s" H t "int_value x" zero_key k] assms by (auto simp: db_holds_def)
  then show ?thesis
    by (intro that [of m s']) (auto simp: db_holds_def InsertKA_def int_value_def [symmetric])
qed

lemma InsertKeySource_holds [simp]: "db_holds H (s\<lparr>DbKeySource := ks\<rparr>) t \<longleftrightarrow> db_holds H s t"
  by (simp add: db_holds_def mem_invar_def mem_GetLastRoot_def mem_node_at_def [abs_def])

section \<open>Keys of accounts\<close>

definition account_key :: "poseidon \<Rightarrow> int \<Rightarrow> int \<Rightarrow> node_key" where
  "account_key H a c = H (ToUintArray (Some (account_value (ScalarToArrayBig a) c)))
     (NodeKey 0x3c18a9786cb0b359 0xc4055e3364a246c3 0x7953db0ab48808f4 0xc71603f33a1144ca)"

lemma digit_val_hex:
  "digit_val CHR ''0'' = Some 0" "digit_val CHR ''1'' = Some 1" "digit_val CHR ''2'' = Some 2" "digit_val CHR ''3'' = Some 3"
  "digit_val CHR ''4'' = Some 4" "digit_val CHR ''5'' = Some 5" "digit_val CHR ''6'' = Some 6" "digit_val CHR ''7'' = Some 7"
  "digit_val CHR ''8'' = Some 8" "digit_val CHR ''9'' = Some 9" "digit_val CHR ''a'' = Some 10" "digit_val CHR ''b'' = Some 11"
  "digit_val CHR ''c'' = Some 12" "digit_val CHR ''d'' = Some 13" "digit_val CHR ''e'' = Some 14" "digit_val CHR ''f'' = Some 15"
  by (simp_all add: digit_val_def)

lemma StringToH4_all_zeroes:
  "StringToH4 HASH_POSEIDON_ALL_ZEROES = Inr (NodeKey 0x3c18a9786cb0b359 0xc4055e3364a246c3 0x7953db0ab48808f4 0xc71603f33a1144ca)"
  by (simp add: StringToH4_def HASH_POSEIDON_ALL_ZEROES_def slice_def Let_def ParseUint_def parse_nat_def digit_val_hex)

lemma smt_Key_account: "ConvertHexToBigInt ethAddr = Some a \<Longrightarrow> smt_Key H ethAddr c = Inr (account_key H a c)"
  by (simp add: smt_Key_def StringToH4_all_zeroes account_key_def Hash_def)

definition storage_key :: "poseidon \<Rightarrow> int \<Rightarrow> int \<Rightarrow> node_key" where
  "storage_key H a p = H (ToUintArray (Some (account_value (ScalarToArrayBig a) SC_STORAGE))) (H (int_words p) zero_key)"

lemma KeyContractStorage_key:
  "StrValToBigInt pos = Some p \<Longrightarrow> KeyContractStorage H (ScalarToArrayBig a) pos = Inr (storage_key H a p)"
  by (simp add: KeyContractStorage_def int_value_def [symmetric])
    (simp add: storage_key_def Hash_def int_words_def words_def int_value_def zero_key_def ScalarToArrayBig_def Let_def)

lemma ConvertHexToAddress_int: "ConvertHexToBigInt ethAddr = Some a \<Longrightarrow> ConvertHexToAddress ethAddr = Inr (BytesToAddress (big_Bytes a))"
  by (simp add: ConvertHexToAddress_def)

section \<open>Setting the state of an account\<close>

definition account_entries :: "poseidon \<Rightarrow> int \<Rightarrow> int \<Rightarrow> int \<Rightarrow> (node_key \<times> node_value) list" where
  "account_entries H a balance nonce =
     [(account_key H a KEY_BALANCE, int_value balance), (account_key H a KEY_NONCE, int_value nonce)]"

definition source_of :: "int \<Rightarrow> int \<Rightarrow> bytes" where
  "source_of c a = EncodeKeySource c (BytesToAddress (big_Bytes a)) zero_hash"

lemma SetAccountState_holds:
  assumes addr: "ConvertHexToBigInt ethAddr = Some a" and s: "db_holds H s t"
    and run: "run_ok H t (account_entries H a balance nonce)"
  obtains s' where "SetAccountState H s ethAddr balance nonce =
      Inr (ToBigInt (tree_root H 0 (run_tree t (account_entries H a balance nonce))), s')"
    "db_holds H s' (run_tree t (account_entries H a balance nonce))"
    "DbKeySource s' = (DbKeySource s)(key_dec (account_key H a KEY_BALANCE) \<mapsto> source_of KEY_BALANCE a,
      key_dec (account_key H a KEY_NONCE) \<mapsto> source_of KEY_NONCE a)"
proof -
  let ?kb = "account_key H a KEY_BALANCE" and ?kn = "account_key H a KEY_NONCE"
  let ?t1 = "tree_update ?kb (int_words balance) t"
  have r: "run_ok H t [(?kb, int_value balance)]" "run_ok H ?t1 [(?kn, int_value nonce)]"
    using run by (simp_all add: account_entries_def)
  obtain s1 m1 where s1: "InsertKA mem_ops H False s ?kb balance = Inr (\<lparr>NewRootScalar = tree_root H 0 ?t1, Mode = m1\<rparr>, s1)"
    "db_holds H s1 ?t1" "DbKeySource s1 = DbKeySource s"
    using InsertKA_holds [OF s r(1)] by blast
  define s2 where "s2 = s1\<lparr>DbKeySource := (DbKeySource s1)(key_dec ?kb \<mapsto> source_of KEY_BALANCE a)\<rparr>"
  have "db_holds H s2 ?t1"
    using s1(2) by (simp add: s2_def)
  then obtain s3 m3 where s3: "InsertKA mem_ops H False s2 ?kn nonce =
      Inr (\<lparr>NewRootScalar = tree_root H 0 (tree_update ?kn (int_words nonce) ?t1), Mode = m3\<rparr>, s3)"
    "db_holds H s3 (tree_update ?kn (int_words nonce) ?t1)" "DbKeySource s3 = DbKeySource s2"
    using InsertKA_holds [OF _ r(2)] by blast
  have "run_tree t (account_entries H a balance nonce) = tree_update ?kn (int_words nonce) ?t1"
    by (simp add: run_tree_def account_entries_def)
  then show ?thesis
    using s1 s3 addr by (intro that [of "s3\<lparr>DbKeySource := (DbKeySource s3)(key_dec ?kn \<mapsto> source_of KEY_NONCE a)\<rparr>"])
      (simp_all add: SetAccountState_def SetAccountBalance_def SetAccountNonce_def KeyEthAddrBalance_def KeyEthAddrNonce_def
        smt_Key_account ConvertHexToAddress_int mem_InsertKeySource_def source_of_def s2_def)
qed


section \<open>Setting the storage of an account\<close>

definition storage_pos :: "string \<Rightarrow> int" where
  "storage_pos k = the (StrValToBigInt k)"

definition storage_val :: "string \<Rightarrow> int" where
  "storage_val v = the (convertStringToBigInt v)"

definition storage_entries :: "poseidon \<Rightarrow> int \<Rightarrow> (string \<times> string) list \<Rightarrow> (node_key \<times> node_value) list" where
  "storage_entries H a kvs = map (\<lambda>(k, v). (storage_key H a (storage_pos k), int_value (storage_val v))) kvs"

definition storage_ok :: "(string \<times> string) list \<Rightarrow> bool" where
  "storage_ok kvs \<longleftrightarrow> distinct (map fst kvs) \<and>
     list_all (\<lambda>(k, v). v \<noteq> [] \<and> StrValToBigInt k \<noteq> None \<and> convertStringToBigInt v \<noteq> None) kvs"

lemma StrValToBigInt_Nil [simp]: "StrValToBigInt [] = None"
  by (simp add: StrValToBigInt_def big_SetString_def)

lemma calcHashVal_ok:
  "convertStringToBigInt v \<noteq> None \<Longrightarrow> calcHashVal H v = Inr (int_value (storage_val v), H (int_words (storage_val v)) BranchCapacity)"
  by (auto simp: calcHashVal_def storage_val_def int_value_def [symmetric] Hash_def words_def [symmetric])

lemma hash_values_ok:
  assumes "storage_ok kvs"
  obtains m' where "hash_values H many kvs m = Inr m'"
    "\<And>k v. (k, v) \<in> set kvs \<Longrightarrow> m' k = Some (int_value (storage_val v), H (int_words (storage_val v)) BranchCapacity)"
    "\<And>k. k \<notin> fst ` set kvs \<Longrightarrow> m' k = m k"
  using assms
proof (induction kvs arbitrary: m thesis)
  case Nil
  show ?case
    by (rule Nil.prems(1) [of m]) simp_all
next
  case (Cons kv kvs)
  obtain k v where kv: "kv = (k, v)" by fastforce
  have ok: "storage_ok kvs" "k \<notin> fst ` set kvs" "v \<noteq> []" "k \<noteq> []" "convertStringToBigInt v \<noteq> None"
    using Cons.prems(2) by (auto simp: storage_ok_def kv)
  let ?m = "m(k \<mapsto> (int_value (storage_val v), H (int_words (storage_val v)) BranchCapacity))"
  obtain m' where "hash_values H many kvs ?m = Inr m'"
    "\<And>k v. (k, v) \<in> set kvs \<Longrightarrow> m' k = Some (int_value (storage_val v), H (int_words (storage_val v)) BranchCapacity)"
    "\<And>k. k \<notin> fst ` set kvs \<Longrightarrow> m' k = ?m k"
    using Cons.IH [of ?m] ok(1) by blast
  then show ?case
    using ok by (intro Cons.prems(1) [of m']) (auto simp: kv calcHashVal_ok)
qed

lemma insert_holds:
  assumes "mem_invar s" "holds H (mem_node_at s) t" "run_ok H t [(k, v)]"
  obtains s' m where "smt_insert mem_ops H False s k v (H (words v) BranchCapacity) (tree_root H 0 t) =
      Inr (\<lparr>NewRootScalar = tree_root H 0 (tree_update k (words v) t), Mode = m\<rparr>, s')"
    "mem_invar s'" "holds H (mem_node_at s') (tree_update k (words v) t)" "DbKeySource s' = DbKeySource s"
proof -
  let ?t = "tree_update k (words v) t"
  obtain s' xs m where i: "smt_insert mem_ops H False s k v (H (words v) BranchCapacity) (tree_root H 0 t) =
      Inr (\<lparr>NewRootScalar = tree_root H 0 ?t, Mode = m\<rparr>, s')" "mem_invar s' \<and> DbKeySource s' = DbKeySource s"
    "mem_node_at s' = put_nodes False H xs (mem_node_at s)" "set xs \<subseteq> tree_nodes H 0 ?t"
    "tree_nodes H 0 ?t \<subseteq> set xs \<union> tree_nodes H 0 t"
    using mem_keyed.smt_insert_correct [where H = H, of s "DbKeySource s" t v "H (words v) BranchCapacity" False k] assms
    unfolding holds_def entry_ok_def words_def run_ok.simps by auto
  have "holds H (mem_node_at s') ?t"
    using stored_put_nodes [OF _ _ i(4,5)] assms by (simp add: holds_def i(3) wf_tree_update entry_ok_def)
  then show ?thesis
    using i(1,2) by (intro that [of m s']) auto
qed

lemma insert_storage_loop_holds:
  assumes addr: "ConvertHexToBigInt ethAddr = Some a"
    and "\<And>k v. (k, v) \<in> set kvs \<Longrightarrow> chm k = Some (int_value (storage_val v), H (int_words (storage_val v)) BranchCapacity)"
    and "list_all (\<lambda>(k, v). StrValToBigInt k \<noteq> None) kvs"
    and "mem_invar s" "holds H (mem_node_at s) t" "NewRootScalar smtr = tree_root H 0 t" "run_ok H t (storage_entries H a kvs)"
  obtains s' smtr' where "insert_storage_loop H ethAddr (ScalarToArrayBig a) chm (map fst kvs) smtr s = Inr (smtr', s')"
    "NewRootScalar smtr' = tree_root H 0 (run_tree t (storage_entries H a kvs))"
    "mem_invar s'" "holds H (mem_node_at s') (run_tree t (storage_entries H a kvs))"
  using assms(2-)
proof (induction kvs arbitrary: s t smtr thesis)
  case Nil
  then show ?case
    by (intro Nil(1) [of smtr s]) (simp_all add: storage_entries_def run_tree_def)
next
  case (Cons kv kvs)
  obtain k v where kv: "kv = (k, v)" by fastforce
  let ?k = "storage_key H a (storage_pos k)" and ?v = "int_value (storage_val v)"
  let ?t = "tree_update ?k (int_words (storage_val v)) t"
  have run: "run_ok H t [(?k, ?v)]" "run_ok H ?t (storage_entries H a kvs)"
    using Cons.prems(7) by (simp_all add: storage_entries_def kv)
  obtain p where p: "StrValToBigInt k = Some p" "storage_pos k = p"
    using Cons.prems(3) by (auto simp: kv storage_pos_def)
  obtain s1 m where s1: "smt_insert mem_ops H False s ?k ?v (H (int_words (storage_val v)) BranchCapacity) (tree_root H 0 t) =
      Inr (\<lparr>NewRootScalar = tree_root H 0 ?t, Mode = m\<rparr>, s1)" "mem_invar s1" "holds H (mem_node_at s1) ?t"
    using insert_holds [OF Cons.prems(4,5) run(1), unfolded int_value_simps(2)] by blast
  define s2 where "s2 = s1\<lparr>DbKeySource := (DbKeySource s1)(key_dec ?k \<mapsto> EncodeKeySource SC_STORAGE (BytesToAddress (big_Bytes a)) (BytesToHash (big_Bytes p)))\<rparr>"
  have s2: "mem_invar s2" "holds H (mem_node_at s2) ?t"
    using s1(2,3) by (simp_all add: s2_def mem_invar_def mem_node_at_def [abs_def])
  obtain s' smtr' where "insert_storage_loop H ethAddr (ScalarToArrayBig a) chm (map fst kvs) \<lparr>NewRootScalar = tree_root H 0 ?t, Mode = m\<rparr> s2 = Inr (smtr', s')"
    "NewRootScalar smtr' = tree_root H 0 (run_tree ?t (storage_entries H a kvs))"
    "mem_invar s'" "holds H (mem_node_at s') (run_tree ?t (storage_entries H a kvs))"
    using Cons.IH [where s = s2 and t = ?t and smtr = "\<lparr>NewRootScalar = tree_root H 0 ?t, Mode = m\<rparr>"] Cons.prems(2,3) s2 run(2) by auto
  moreover have "run_tree t (storage_entries H a (kv # kvs)) = run_tree ?t (storage_entries H a kvs)"
    by (simp add: run_tree_def storage_entries_def kv)
  ultimately show ?case
    using Cons.prems(2) [of k v] Cons.prems(6) p s1(1)
    by (intro Cons.prems(1) [of smtr' s'])
      (simp_all add: kv KeyContractStorage_key ConvertHexToAddress_int [OF addr] mem_InsertKeySource_def s2_def)
qed

lemma SetContractStorage_holds:
  assumes "ConvertHexToBigInt ethAddr = Some a" "db_holds H s t" "storage_ok kvs" "run_ok H t (storage_entries H a kvs)"
  obtains s' where "SetContractStorage H s ethAddr kvs = Inr (ToBigInt (tree_root H 0 (run_tree t (storage_entries H a kvs))), s')"
    "db_holds H s' (run_tree t (storage_entries H a kvs))"
proof -
  obtain chm where chm: "hash_values H (length kvs > 100) kvs Map.empty = Inr chm"
    "\<And>k v. (k, v) \<in> set kvs \<Longrightarrow> chm k = Some (int_value (storage_val v), H (int_words (storage_val v)) BranchCapacity)"
    using hash_values_ok [OF assms(3)] by metis
  have ks: "list_all (\<lambda>(k, v). StrValToBigInt k \<noteq> None) kvs" and db: "mem_invar s" "holds H (mem_node_at s) t"
    using assms(2,3) by (auto simp: storage_ok_def list_all_iff db_holds_def)
  obtain s1 smtr where s1: "insert_storage_loop H ethAddr (ScalarToArrayBig a) chm (map fst kvs) \<lparr>NewRootScalar = tree_root H 0 t, Mode = []\<rparr> s = Inr (smtr, s1)"
    "NewRootScalar smtr = tree_root H 0 (run_tree t (storage_entries H a kvs))"
    "mem_invar s1" "holds H (mem_node_at s1) (run_tree t (storage_entries H a kvs))"
    using insert_storage_loop_holds [where chm = chm and H = H and kvs = kvs, OF assms(1) chm(2) ks db smt_response.select_convs(1) assms(4)] by blast
  show ?thesis
    using chm(1) s1 assms(1,2)
    by (intro that [of "s1\<lparr>LastRoot := ToBigInt (tree_root H 0 (run_tree t (storage_entries H a kvs)))\<rparr>"])
      (simp_all add: SetContractStorage_def InsertStorage_def getLastRoot_def setLastRoot_def db_holds_def
        mem_ops_def mem_SetLastRoot_def mem_GetLastRoot_def mem_invar_def mem_node_at_def [abs_def])
qed


section \<open>Reading\<close>

lemma set_bytes_SetBytes:
  assumes "length bs = n"
  shows "set_bytes n (big_Bytes (big_SetBytes bs)) = bs"
proof -
  have "nat (big_SetBytes bs) < 256 ^ n"
    using SetBytes_less [of bs] assms by (simp add: nat_less_iff)
  then have "length (big_Bytes (big_SetBytes bs)) \<le> n"
    by (simp add: big_Bytes_def nat_bytes_fits)
  then have "big_SetBytes (set_bytes n (big_Bytes (big_SetBytes bs))) = big_SetBytes bs"
    by (simp add: set_bytes_def Let_def big_SetBytes_Bytes)
  then show ?thesis
    using assms by (simp add: SetBytes_inject)
qed

lemma uint256_SetBytes_Bytes: "0 \<le> x \<Longrightarrow> uint256_SetBytes (big_Bytes x) = word_of_int x"
  by (simp add: uint256_SetBytes_def big_SetBytes_Bytes)

lemma getValueInBytes_holds:
  "db_holds H s t \<Longrightarrow> getValueInBytes mem_ops s k = Some (Inr (case path_leaf 0 k t of None \<Rightarrow> [] | Some v \<Rightarrow> big_Bytes (value_int v)))"
  using mem.getValueInBytes_path [of s H t k] by (simp add: db_holds_def)

lemma getValue_account:
  assumes "db_holds H s t" "checksumHex keccak addr = Inr ethAddr" "ConvertHexToBigInt ethAddr = Some a"
  shows "getValue mem_ops H keccak s c addr None =
    Some (Inr (case path_leaf 0 (account_key H a c) t of None \<Rightarrow> [] | Some v \<Rightarrow> big_Bytes (value_int v)))"
  using getValueInBytes_holds [OF assms(1)] assms(2,3) by (simp add: getValue_def smt_Key_account)

lemma StrValToBigInt_hash: "key \<noteq> [] \<Longrightarrow> StrValToBigInt (hash_String key) = Some (big_SetBytes key)"
  by (simp add: StrValToBigInt_def hash_String_def big_SetString_hex)

lemma getValue_storage:
  assumes "db_holds H s t" "checksumHex keccak addr = Inr ethAddr" "ConvertHexToBigInt ethAddr = Some a" "key \<noteq> []"
  shows "getValue mem_ops H keccak s c addr (Some key) =
    Some (Inr (case path_leaf 0 (storage_key H a (big_SetBytes key)) t of None \<Rightarrow> [] | Some v \<Rightarrow> big_Bytes (value_int v)))"
  using getValueInBytes_holds [OF assms(1)] assms(2-) by (simp add: getValue_def KeyContractStorage_key StrValToBigInt_hash)

text \<open>A value that is not zero is found again, whatever was inserted at other keys afterwards.\<close>

lemma int_words_zero: "0 \<le> x \<Longrightarrow> x < 2 ^ 256 \<Longrightarrow> list_all (\<lambda>w. w = 0) (int_words x) \<longleftrightarrow> x = 0"
proof
  assume x: "0 \<le> x" "x < 2 ^ 256" and "list_all (\<lambda>w. w = 0) (int_words x)"
  then have "int_words x = replicate 8 0"
    by (auto simp: list_all_iff intro!: replicate_eqI)
  then show "x = 0"
    using value_int_words [OF x] by (simp add: value_int_def numeral_eq_Suc)
next
  assume "x = 0"
  then show "list_all (\<lambda>w. w = 0) (int_words x)"
    by (simp add: int_words_def words_def ToUintArray_def ScalarToArrayBig_def Let_def opt_Uint64_def big_Uint64_def)
qed

lemma fold_map_update_other: "k \<notin> fst ` set kvs \<Longrightarrow> fold (\<lambda>(k, v). map_update k (words v)) kvs m k = m k"
  by (induction kvs arbitrary: m) (auto simp: map_update_def)

lemma fold_map_update:
  "distinct (map fst kvs) \<Longrightarrow> (k, v) \<in> set kvs \<Longrightarrow> fold (\<lambda>(k, v). map_update k (words v)) kvs m k = map_update k (words v) Map.empty k"
  by (induction kvs arbitrary: m) (auto simp: map_update_def fold_map_update_other rev_image_eqI)

lemma run_path_leaf:
  assumes "db_holds H s t" "run_ok H t kvs" "distinct (map fst kvs)" "(k, int_value x) \<in> set kvs" "0 < x" "x < 2 ^ 256"
  shows "path_leaf 0 k (run_tree t kvs) = Some (int_words x)"
proof (rule path_leaf_lookup)
  have "wf_tree 0 t"
    using assms(1) by (simp add: db_holds_def holds_def)
  then show "tree_lookup 0 (run_tree t kvs) k = Some (int_words x)"
    using run_lookup [OF assms(2)] fold_map_update [OF assms(3,4)] int_words_zero [of x] assms(5,6) by (simp add: map_update_def)
qed


lemma address_text:
  assumes "length addr = 20" "\<forall>x. length (keccak x) = 32"
  obtains ethAddr where "checksumHex keccak addr = Inr ethAddr" "ConvertHexToBigInt ethAddr = Some (big_SetBytes addr)"
  using assms by (intro checksumHex_read [of addr keccak, OF _ _ that]) auto

lemma DecodeKeySource_source:
  "length addr = 20 \<Longrightarrow> c \<noteq> SC_STORAGE \<Longrightarrow> 0 \<le> c \<Longrightarrow> c < 256 \<Longrightarrow>
   DecodeKeySource (source_of c (big_SetBytes addr)) = Inr (c, addr, zero_hash)"
  by (simp add: DecodeKeySource_def source_of_def EncodeKeySource_def BytesToAddress_def set_bytes_SetBytes Let_def slice_def
      set_bytes_id unsigned_of_int take_bit_int_eq_self)

section \<open>Properties\<close>

text \<open>
  C34. What is set is read. On a database that holds a tree, \<^verbatim>\<open>SetAccountStorage\<close> of an account whose balance and nonce
  are not zero leaves a database on which \<^verbatim>\<open>ReadAccountData\<close> of the same address returns this balance and this nonce,
  whatever the checksum casing of the address, and on which the sources of the two keys decode to the kind of the
  value and the address; provided the keys of balance and nonce differ and the hash behaves on the trees of the two insertions.
\<close>

theorem SetAccountStorage_read_back:
  assumes "length addr = 20" "\<forall>x. length (keccak x) = 32" "db_holds H s t"
    and "run_ok H t (account_entries H (big_SetBytes addr) (uint (acc_Balance acc)) (uint (acc_Nonce acc)))"
    and "account_key H (big_SetBytes addr) KEY_BALANCE \<noteq> account_key H (big_SetBytes addr) KEY_NONCE"
    and "acc_Balance acc \<noteq> 0" "acc_Nonce acc \<noteq> 0"
  shows "\<exists>s' codeHash. SetAccountStorage H keccak s addr (Some acc) = Inr s' \<and>
    ReadAccountData mem_ops H keccak s' addr =
      Some (Inr \<lparr>acc_Initialised = False, acc_Nonce = acc_Nonce acc, acc_Balance = acc_Balance acc, acc_Root = zero_hash,
        acc_CodeHash = codeHash, acc_Incarnation = 0, acc_PrevIncarnation = 0\<rparr>) \<and>
    res_bind (mem_GetKeySource s' (account_key H (big_SetBytes addr) KEY_BALANCE)) DecodeKeySource = Inr (KEY_BALANCE, addr, zero_hash) \<and>
    res_bind (mem_GetKeySource s' (account_key H (big_SetBytes addr) KEY_NONCE)) DecodeKeySource = Inr (KEY_NONCE, addr, zero_hash)"
proof -
  let ?a = "big_SetBytes addr" and ?b = "uint (acc_Balance acc)" and ?n = "uint (acc_Nonce acc)"
  let ?e = "account_entries H ?a ?b ?n"
  obtain ethAddr where e: "checksumHex keccak addr = Inr ethAddr" "ConvertHexToBigInt ethAddr = Some ?a"
    using address_text [OF assms(1,2)] .
  obtain s' where s': "SetAccountState H s ethAddr ?b ?n = Inr (ToBigInt (tree_root H 0 (run_tree t ?e)), s')"
    "db_holds H s' (run_tree t ?e)"
    "DbKeySource s' = (DbKeySource s)(key_dec (account_key H ?a KEY_BALANCE) \<mapsto> source_of KEY_BALANCE ?a,
      key_dec (account_key H ?a KEY_NONCE) \<mapsto> source_of KEY_NONCE ?a)"
    using SetAccountState_holds [OF e(2) assms(3,4)] by blast
  have bounds: "0 < ?b" "?b < 2 ^ 256" "0 < ?n" "?n < 2 ^ 256"
    using assms(6,7) uint_lt2p [of "acc_Balance acc"] uint_lt2p [of "acc_Nonce acc"] by (simp_all add: word_uint_eq_iff order_less_le)
  have entries: "distinct (map fst ?e)" "(account_key H ?a KEY_BALANCE, int_value ?b) \<in> set ?e" "(account_key H ?a KEY_NONCE, int_value ?n) \<in> set ?e"
    using assms(5) by (simp_all add: account_entries_def)
  have leaf: "path_leaf 0 (account_key H ?a KEY_BALANCE) (run_tree t ?e) = Some (int_words ?b)"
    "path_leaf 0 (account_key H ?a KEY_NONCE) (run_tree t ?e) = Some (int_words ?n)"
    using run_path_leaf [OF assms(3,4) entries(1)] entries(2,3) bounds by blast+
  then have "GetAccountBalance mem_ops H keccak s' addr = Some (Inr (acc_Balance acc))"
    "GetAccountNonce mem_ops H keccak s' addr = Some (Inr (word_of_int ?n))"
    using bounds by (simp_all add: GetAccountBalance_def GetAccountNonce_def getValue_account [OF s'(2) e] value_int_words
        uint256_SetBytes_Bytes)
  moreover obtain codeHash where "GetAccountCodeHash mem_ops H keccak s' addr = Some (Inr codeHash)"
    by (simp add: GetAccountCodeHash_def getValue_account [OF s'(2) e])
  moreover have "ucast (word_of_int ?n :: u256) = acc_Nonce acc"
    by (rule bit_word_eqI) (simp add: bit_ucast_iff)
  ultimately show ?thesis
    using s'(1,3) e(1) assms(1,5)
    by (auto simp: SetAccountStorage_def ReadAccountData_def opt_bind_def mem_GetKeySource_def DecodeKeySource_source
        KEY_BALANCE_def KEY_NONCE_def SC_STORAGE_def)
qed

text \<open>The zero address, a constant hash for the checksum and an account for the concrete runs.\<close>

definition zero_addr :: bytes where
  "zero_addr = replicate 20 0"

definition example_account :: account where
  "example_account = \<lparr>acc_Initialised = True, acc_Nonce = 1, acc_Balance = 5, acc_Root = zero_hash, acc_CodeHash = zero_hash,
     acc_Incarnation = 0, acc_PrevIncarnation = 0\<rparr>"

lemma zero_addr_simps [simp]: "length zero_addr = 20" "big_SetBytes zero_addr = 0"
  by (simp_all add: zero_addr_def) (simp add: big_SetBytes_def numeral_eq_Suc)

lemma account_value_0: "ToUintArray (Some (account_value (ScalarToArrayBig 0) c)) = [0, 0, 0, 0, 0, 0, big_Uint64 c, 0]"
  by (simp add: ToUintArray_def account_value_def ScalarToArrayBig_def Let_def opt_Uint64_def big_Uint64_def)

lemma example_keys:
  "account_key poly_hash 0 KEY_BALANCE = NodeKey 1646628625704946663 1 0 0"
  "account_key poly_hash 0 KEY_NONCE = NodeKey 1646628625733575814 1 0 0"
  by (simp_all add: account_key_def account_value_0 poly_hash_def KEY_BALANCE_def KEY_NONCE_def big_Uint64_def)

lemma example_words: "int_words 5 = [5, 0, 0, 0, 0, 0, 0, 0]" "int_words 1 = [1, 0, 0, 0, 0, 0, 0, 0]" "int_words 0 = [0, 0, 0, 0, 0, 0, 0, 0]"
  by (simp_all add: int_words_def words_def ToUintArray_def ScalarToArrayBig_def Let_def opt_Uint64_def big_Uint64_def)

lemma example_run: "run_ok poly_hash Tip (account_entries poly_hash 0 5 1)"
  by (simp add: account_entries_def example_keys example_words tree_update_def tree_split_here kbit_def bit_tree_def poly_hash_simps)

theorem SetAccountStorage_read_back_witness:
  "\<exists>s' codeHash. SetAccountStorage poly_hash (\<lambda>_. replicate 32 0) NewMemDb zero_addr (Some example_account) = Inr s' \<and>
    ReadAccountData mem_ops poly_hash (\<lambda>_. replicate 32 0) s' zero_addr =
      Some (Inr (example_account\<lparr>acc_Initialised := False, acc_CodeHash := codeHash\<rparr>))"
  using SetAccountStorage_read_back [of zero_addr "\<lambda>_. replicate 32 0" poly_hash NewMemDb Tip example_account] example_run
  by (auto simp: example_account_def db_holds_NewMemDb example_keys)

text \<open>
  C35. Reading an account that is not there. On a database with a single entry, the balance of an account whose nonce is
  zero, \<^verbatim>\<open>GetAccountBalance\<close> returns this balance for every address: the reader follows the path of the key to a leaf
  and does not compare the key of the leaf with the key it looks for.
\<close>

theorem GetAccountBalance_of_another:
  assumes "length addr = 20" "length other = 20" "\<forall>x. length (keccak x) = 32"
    and "acc_Balance acc \<noteq> 0" "acc_Nonce acc = 0"
    and "account_key H (big_SetBytes addr) KEY_BALANCE \<noteq> account_key H (big_SetBytes addr) KEY_NONCE"
    and "run_ok H Tip [(account_key H (big_SetBytes addr) KEY_BALANCE, int_value (uint (acc_Balance acc)))]"
  shows "\<exists>s'. SetAccountStorage H keccak NewMemDb addr (Some acc) = Inr s' \<and>
    GetAccountBalance mem_ops H keccak s' other = Some (Inr (acc_Balance acc))"
proof -
  let ?a = "big_SetBytes addr" and ?b = "uint (acc_Balance acc)"
  let ?k = "account_key H ?a KEY_BALANCE"
  obtain ethAddr where e: "checksumHex keccak addr = Inr ethAddr" "ConvertHexToBigInt ethAddr = Some ?a"
    using address_text [OF assms(1,3)] .
  obtain ethOther where o: "checksumHex keccak other = Inr ethOther" "ConvertHexToBigInt ethOther = Some (big_SetBytes other)"
    using address_text [OF assms(2,3)] .
  have b: "0 < ?b" "?b < 2 ^ 256"
    using assms(4) uint_lt2p [of "acc_Balance acc"] by (simp_all add: word_uint_eq_iff order_less_le)
  then have t: "tree_update ?k (int_words ?b) Tip = Lf ?k (int_words ?b)"
    using int_words_zero [of ?b] by (simp add: tree_update_def)
  then have t0: "tree_update (account_key H ?a KEY_NONCE) (int_words 0) (Lf ?k (int_words ?b)) = Lf ?k (int_words ?b)"
    using assms(6) int_words_zero [of 0] by (simp add: tree_update_def)
  have run: "run_ok H Tip (account_entries H ?a ?b 0)" "run_tree Tip (account_entries H ?a ?b 0) = Lf ?k (int_words ?b)"
    using assms(7) t t0 by (simp_all add: account_entries_def run_tree_def)
  obtain s' where s': "SetAccountState H NewMemDb ethAddr ?b 0 = Inr (ToBigInt (tree_root H 0 (Lf ?k (int_words ?b))), s')"
    "db_holds H s' (Lf ?k (int_words ?b))"
    using SetAccountState_holds [OF e(2) db_holds_NewMemDb run(1)] unfolding run(2) by blast
  then have "GetAccountBalance mem_ops H keccak s' other = Some (Inr (acc_Balance acc))"
    using b by (simp add: GetAccountBalance_def getValue_account [OF s'(2) o] value_int_words uint256_SetBytes_Bytes)
  then show ?thesis
    using s'(1) e(1) assms(5) by (auto simp: SetAccountStorage_def)
qed

theorem GetAccountBalance_of_another_witness:
  "\<exists>s'. SetAccountStorage poly_hash (\<lambda>_. replicate 32 0) NewMemDb zero_addr (Some (example_account\<lparr>acc_Nonce := 0\<rparr>)) = Inr s' \<and>
    GetAccountBalance mem_ops poly_hash (\<lambda>_. replicate 32 0) s' (replicate 20 255) = Some (Inr 5)"
  using GetAccountBalance_of_another [of zero_addr "replicate 20 255" "\<lambda>_. replicate 32 0" "example_account\<lparr>acc_Nonce := 0\<rparr>" poly_hash] example_run
  by (simp add: example_account_def example_keys account_entries_def)

text \<open>
  C36. Storage that is set is read. On a database that holds a tree, \<^verbatim>\<open>SetContractStorage\<close> of a storage map with readable
  keys and values returns the root of the tree with all entries, in whatever order the map is iterated and on both sides
  of the limit of 100 entries, and \<^verbatim>\<open>ReadAccountStorage\<close> of a position of the map then returns the bytes of its value if that
  is not zero; provided the keys of the positions differ and the hash behaves on the trees of the insertions.
\<close>

theorem SetContractStorage_read_back:
  assumes "checksumHex keccak addr = Inr ethAddr" "ConvertHexToBigInt ethAddr = Some a" "db_holds H s t" "storage_ok storage"
    and "run_ok H t (storage_entries H a storage)" "distinct (map fst (storage_entries H a storage))"
    and "(k, v) \<in> set storage" "length key = 32" "big_SetBytes key = storage_pos k" "0 < storage_val v" "storage_val v < 2 ^ 256"
  shows "\<exists>s'. SetContractStorage H s ethAddr storage = Inr (ToBigInt (tree_root H 0 (run_tree t (storage_entries H a storage))), s') \<and>
    ReadAccountStorage mem_ops H keccak s' addr incarnation (Some key) = Some (Inr (big_Bytes (storage_val v)))"
proof -
  obtain s' where s': "SetContractStorage H s ethAddr storage = Inr (ToBigInt (tree_root H 0 (run_tree t (storage_entries H a storage))), s')"
    "db_holds H s' (run_tree t (storage_entries H a storage))"
    using SetContractStorage_holds [OF assms(2-5)] .
  have "(storage_key H a (storage_pos k), int_value (storage_val v)) \<in> set (storage_entries H a storage)"
    using assms(7) by (auto simp: storage_entries_def)
  then have "path_leaf 0 (storage_key H a (storage_pos k)) (run_tree t (storage_entries H a storage)) = Some (int_words (storage_val v))"
    using run_path_leaf [OF assms(3,5,6)] assms(10,11) by blast
  moreover have "key \<noteq> []"
    using assms(8) by auto
  ultimately have "ReadAccountStorage mem_ops H keccak s' addr incarnation (Some key) = Some (Inr (big_Bytes (storage_val v)))"
    using getValue_storage [OF s'(2) assms(1,2), of key 0] assms(9-11) by (simp add: ReadAccountStorage_def value_int_words)
  then show ?thesis
    using s'(1) by blast
qed

text \<open>A storage with two positions for the concrete run.\<close>

definition example_storage :: "(string \<times> string) list" where
  "example_storage = [(''0x0'', ''5''), (''0x1'', ''1'')]"

lemma example_storage_texts:
  "StrValToBigInt ''0x0'' = Some 0" "StrValToBigInt ''0x1'' = Some 1" "convertStringToBigInt ''5'' = Some 5" "convertStringToBigInt ''1'' = Some 1"
  by (simp_all add: StrValToBigInt_def convertStringToBigInt_def big_SetString_def parse_nat_def digit_val_hex)

lemma example_storage_keys:
  "storage_key poly_hash 0 0 = NodeKey 12538350089559657534 1 0 0" "storage_key poly_hash 0 1 = NodeKey 13165778288264361599 1 0 0"
  by (simp_all add: storage_key_def account_value_0 poly_hash_def SC_STORAGE_def big_Uint64_def example_words zero_key_def)

lemma example_storage_entries:
  "storage_entries poly_hash 0 example_storage = [(NodeKey 12538350089559657534 1 0 0, int_value 5), (NodeKey 13165778288264361599 1 0 0, int_value 1)]"
  by (simp add: storage_entries_def example_storage_def storage_pos_def storage_val_def example_storage_texts example_storage_keys)

lemma example_storage_run: "run_ok poly_hash Tip (storage_entries poly_hash 0 example_storage)"
  by (simp add: example_storage_entries example_words tree_update_def tree_split_here kbit_def bit_tree_def poly_hash_simps)

theorem SetContractStorage_read_back_witness:
  "\<exists>ethAddr s'. checksumHex (\<lambda>_. replicate 32 0) zero_addr = Inr ethAddr \<and>
    SetContractStorage poly_hash NewMemDb ethAddr example_storage =
      Inr (ToBigInt (tree_root poly_hash 0 (run_tree Tip (storage_entries poly_hash 0 example_storage))), s') \<and>
    ReadAccountStorage mem_ops poly_hash (\<lambda>_. replicate 32 0) s' zero_addr 0 (Some zero_hash) = Some (Inr (big_Bytes 5))"
proof -
  obtain ethAddr where e: "checksumHex (\<lambda>_. replicate 32 0) zero_addr = Inr ethAddr" "ConvertHexToBigInt ethAddr = Some 0"
    using address_text [of zero_addr "\<lambda>_. replicate 32 0"] by auto
  have "big_SetBytes zero_hash = 0"
    using SetBytes_zeros [of 32 "[]"] by (simp add: zero_hash_def big_SetBytes_def [of "[]"])
  moreover have "length zero_hash = 32"
    by (simp add: zero_hash_def)
  moreover have "distinct (map fst (storage_entries poly_hash 0 example_storage))" "(''0x0'', ''5'') \<in> set example_storage"
    by (simp_all add: example_storage_entries) (simp add: example_storage_def)
  moreover have "storage_ok example_storage" "storage_pos ''0x0'' = 0" "storage_val ''5'' = 5"
    by (simp_all add: storage_ok_def example_storage_def example_storage_texts storage_pos_def storage_val_def)
  ultimately have "\<exists>s'. SetContractStorage poly_hash NewMemDb ethAddr example_storage =
      Inr (ToBigInt (tree_root poly_hash 0 (run_tree Tip (storage_entries poly_hash 0 example_storage))), s') \<and>
    ReadAccountStorage mem_ops poly_hash (\<lambda>_. replicate 32 0) s' zero_addr 0 (Some zero_hash) = Some (Inr (big_Bytes 5))"
    using SetContractStorage_read_back [OF e db_holds_NewMemDb _ example_storage_run, of "''0x0''" "''5''" zero_hash 0] by simp
  with e(1) show ?thesis by blast
qed

lemma hash_values_other:
  "hash_values H many kvs m = Inr m' \<Longrightarrow> list_all (\<lambda>(k', v). k' = k \<longrightarrow> v = []) kvs \<Longrightarrow> m' k = m k"
  by (induction H many kvs m rule: hash_values.induct) (auto simp: res_bind_eq_Inr split: if_splits)

lemma insert_storage_loop_missing:
  "k \<in> set ks \<Longrightarrow> chm k = None \<Longrightarrow> insert_storage_loop H ethAddr add chm ks smtr s \<noteq> Inr r"
  by (induction H ethAddr add chm ks smtr s rule: insert_storage_loop.induct) (auto simp: res_bind_eq_Inr split: option.splits)

text \<open>
  C38. A storage map with an empty value is never stored. If some value of the map is the empty string then
  \<^verbatim>\<open>SetContractStorage\<close> does not return normally: the entry is left out when the values are hashed, and the insertion
  then dereferences the missing value.
\<close>

theorem SetContractStorage_empty_value:
  assumes "(k, []) \<in> set storage" "distinct (map fst storage)"
  shows "SetContractStorage H s ethAddr storage \<noteq> Inr r"
proof
  assume "SetContractStorage H s ethAddr storage = Inr r"
  then obtain chm r' where chm: "hash_values H (length storage > 100) storage Map.empty = Inr chm" "InsertStorage H s ethAddr storage chm = Inr r'"
    by (auto simp: SetContractStorage_def res_bind_eq_Inr)
  have "list_all (\<lambda>(k', v). k' = k \<longrightarrow> v = []) storage"
    using assms by (auto simp: list_all_iff dest: eq_key_imp_eq_value)
  then have "chm k = None"
    using hash_values_other [OF chm(1)] by simp
  moreover have "k \<in> set (map fst storage)"
    using assms(1) by force
  ultimately show False
    using chm(2) insert_storage_loop_missing [of k "map fst storage" chm]
    by (auto simp: InsertStorage_def res_bind_eq_Inr split: option.splits)
qed

theorem SetContractStorage_empty_value_witness:
  "\<forall>r. SetContractStorage poly_hash NewMemDb ''0x00'' [(''0x0'', [])] \<noteq> Inr r"
  using SetContractStorage_empty_value [of "''0x0''" "[(''0x0'', [])]" poly_hash NewMemDb "''0x00''"] by simp

end
