(* ===== verification/Smt_Proofs.thy ===== *)
theory Smt_Proofs
  imports Smt_State
begin

unbundle bit_operations_syntax

text \<open>
  Merkle proofs of the sparse Merkle tree (\<^verbatim>\<open>src/smt/pkg/smt/proof.go\<close>): the proofs that a traversal collects, their
  selection for one key and their verification against a root. The proofs of a tree verify, and a proof that
  verifies shows what the tree holds.
\<close>

section \<open>Building and selecting proofs\<close>

record smt_proof_element =
  pe_Path :: bytes
  pe_Proof :: bytes

definition FilterProofs :: "smt_proof_element list \<Rightarrow> node_key \<Rightarrow> bytes list" where
  "FilterProofs proofs key =
     (let keyPathInBytes = map word_of_int (GetPath key) in
      map pe_Proof (filter (\<lambda>proof. take (length (pe_Path proof)) keyPathInBytes = pe_Path proof) proofs))"

text \<open>The retain decider (\<^verbatim>\<open>trie.RetainDecider\<close>, an interface) is the function of its method \<^verbatim>\<open>Retain\<close>.\<close>

definition proofs_action :: "'s smt_db_ops \<Rightarrow> 's \<Rightarrow> (bytes \<Rightarrow> bool) \<Rightarrow> smt_proof_element list traverse_action" where
  "proofs_action ops s retain prefix ky v proofs =
     (if \<not> retain prefix then Inr (False, proofs) else
      res_bind (Get0to4 v) (\<lambda>l.
      res_bind (Get4to8 v) (\<lambda>r.
      let nodeBytes = set_bytes 32 (big_Bytes (ToBigInt l)) @ set_bytes 32 (big_Bytes (ToBigInt r));
          nodeBytes = (if IsFinalNode v then nodeBytes @ [1] else nodeBytes);
          proofs = proofs @ [\<lparr>pe_Path = prefix, pe_Proof = nodeBytes\<rparr>]
      in if IsFinalNode v then
           res_bind (db_Get ops s r) (\<lambda>v.
           res_bind (NodeValue8ToBigInt (GetNodeValue8 v)) (\<lambda>n.
           Inr (False, proofs @ [\<lparr>pe_Path = prefix, pe_Proof = big_Bytes n\<rparr>])))
         else Inr (True, proofs))))"

definition BuildProofs ::
  "'s smt_db_ops \<Rightarrow> 's \<Rightarrow> (bytes \<Rightarrow> bool) \<Rightarrow> (bytes \<Rightarrow> go_error option) \<Rightarrow> smt_proof_element list res option" where
  "BuildProofs ops s retain ctx =
     (case db_GetLastRoot ops s of
        Inl e \<Rightarrow> Some (Inl e)
      | Inr lastRoot \<Rightarrow> traverse ops s ctx lastRoot (proofs_action ops s retain) [] [])"

section \<open>Verifying a proof\<close>

text \<open>
  The loop ends with \<open>None\<close> where the code returns nil, with \<open>Some None\<close> when the proof is exhausted and with the hash of the
  value when the leaf of the key is found. Of the text of a mismatch only the level is kept.
\<close>

fun verify_loop :: "poseidon \<Rightarrow> int list \<Rightarrow> node_key \<Rightarrow> bytes list \<Rightarrow> nat \<Rightarrow> node_key \<Rightarrow> node_key option option res" where
  "verify_loop H path key [] i curRoot = Inr (Some None)"
| "verify_loop H path key (p # ps) i curRoot =
     (let isFinalNode = (length p = 65);
          capacity = (if isFinalNode then LeafCapacity else BranchCapacity)
      in res_bind (slice_res p 0 32) (\<lambda>l.
         res_bind (slice_res p 32 64) (\<lambda>r.
         let leftChild = ScalarToArray (big_SetBytes l);
             rightChild = ScalarToArray (big_SetBytes r);
             leftChildNode = mk_key (\<lambda>j. leftChild ! j);
             rightChildNode = mk_key (\<lambda>j. rightChild ! j);
             h = Hash H (ConcatArrays4 leftChildNode rightChildNode) capacity
         in if curRoot \<noteq> h then Inl (Error (''root mismatch at level '' @ big_Text 10 (int i)))
            else if \<not> isFinalNode then
              res_bind (nth_res path i) (\<lambda>b.
              let curRoot = (if b = 0 then leftChildNode else rightChildNode) in
              if IsZero curRoot then Inr None else verify_loop H path key ps (Suc i) curRoot)
            else
              res_bind (slice_res path 0 i) (\<lambda>usedBits.
              if IsEqualTo (JoinKey usedBits leftChildNode) key then Inr (Some (Some rightChildNode)) else Inr None))))"

definition VerifyAndGetVal :: "poseidon \<Rightarrow> node_key \<Rightarrow> bytes list \<Rightarrow> node_key \<Rightarrow> bytes option res" where
  "VerifyAndGetVal H stateRoot proof key =
     (if length proof = 0 then Inl (Error ''proof is empty'') else
      res_bind (verify_loop H (GetPath key) key proof 0 stateRoot) (\<lambda>found.
      case found of
        None \<Rightarrow> Inr None
      | Some None \<Rightarrow> Inl (Error ''proof is insufficient to verify the non-existence of the value'')
      | Some (Some curRoot) \<Rightarrow>
          let v = big_SetBytes (last proof) in
          res_bind (NodeValue8FromBigIntArray (map Some (ScalarToArrayBig v))) (\<lambda>nodeValue.
          if Hash H (ToUintArray (Some nodeValue)) BranchCapacity \<noteq> curRoot
          then Inl (Error (''root mismatch at level '' @ big_Text 10 (int (length proof - 1))))
          else Inr (Some (last proof)))))"


section \<open>Nodes as bytes\<close>

definition key_bytes :: "node_key \<Rightarrow> bytes" where
  "key_bytes k = set_bytes 32 (big_Bytes (ToBigInt k))"

definition bytes_key :: "bytes \<Rightarrow> node_key" where
  "bytes_key b = mk_key (\<lambda>j. ScalarToArray (big_SetBytes b) ! j)"

lemma length_key_bytes [simp]: "length (key_bytes k) = 32"
  by (simp add: key_bytes_def)

lemma SetBytes_key_bytes: "big_SetBytes (key_bytes k) = ToBigInt k"
proof -
  have "nat (ToBigInt k) < 256 ^ 32"
    using ToBigInt_less [of k] by (simp add: nat_less_iff)
  then have "length (big_Bytes (ToBigInt k)) \<le> 32"
    by (simp add: big_Bytes_def nat_bytes_fits)
  then show ?thesis
    by (simp add: key_bytes_def set_bytes_def Let_def big_SetBytes_Bytes)
qed

lemma mask64: "x AND 0xFFFFFFFFFFFFFFFF = x mod 2 ^ 64" for x :: int
  using take_bit_eq_mask [of 64 x] by (simp add: take_bit_eq_mod mask_eq_exp_minus_1)

lemma ScalarToArray_root: "ScalarToArray x = scalar_to_root_loop 4 x"
  by (simp add: ScalarToArray_def mask64 eval_nat_numeral drop_bit_eq_div zdiv_zmult2_eq [symmetric] Let_def)

lemma bytes_key_bytes [simp]: "bytes_key (key_bytes k) = k"
  using ScalarToRoot_ToBigInt [of k] by (simp add: bytes_key_def SetBytes_key_bytes ScalarToArray_root ScalarToRoot_def)

section \<open>The proofs of a tree\<close>

text \<open>What the traversal collects below a prefix, and the part of it on the path of one key.\<close>

fun collected :: "poseidon \<Rightarrow> (bytes \<Rightarrow> bool) \<Rightarrow> nat \<Rightarrow> bytes \<Rightarrow> smt_tree \<Rightarrow> smt_proof_element list" where
  "collected H retain d p Tip = []"
| "collected H retain d p (Lf k v) =
     (if retain p then
        [\<lparr>pe_Path = p, pe_Proof = key_bytes (RemoveKeyBits k d) @ key_bytes (H v BranchCapacity) @ [1]\<rparr>,
         \<lparr>pe_Path = p, pe_Proof = big_Bytes (value_int v)\<rparr>]
      else [])"
| "collected H retain d p (Br l r) =
     (if retain p then
        \<lparr>pe_Path = p, pe_Proof = key_bytes (tree_root H (Suc d) l) @ key_bytes (tree_root H (Suc d) r)\<rparr> #
        collected H retain (Suc d) (p @ [0]) l @ collected H retain (Suc d) (p @ [1]) r
      else [])"

fun key_proof :: "poseidon \<Rightarrow> nat \<Rightarrow> node_key \<Rightarrow> smt_tree \<Rightarrow> bytes list" where
  "key_proof H d k Tip = []"
| "key_proof H d k (Lf k' v) = [key_bytes (RemoveKeyBits k' d) @ key_bytes (H v BranchCapacity) @ [1], big_Bytes (value_int v)]"
| "key_proof H d k (Br l r) =
     (key_bytes (tree_root H (Suc d) l) @ key_bytes (tree_root H (Suc d) r)) #
     (if kbit k d then key_proof H (Suc d) k r else key_proof H (Suc d) k l)"

lemma Get_branch_node [simp]: "Get0to4 (branch_node a b) = Inr a" "Get4to8 (branch_node a b) = Inr b"
  by (cases a; cases b; simp add: Get0to4_def Get4to8_def node_defs)+

context smt_db
begin

lemma traverse_collects:
  assumes "invar s" "wf_tree d t" "stored H (node_at s) d t" "nonzero H d t"
  shows "traverse ops s (\<lambda>_. None) (ToBigInt (tree_root H d t)) (proofs_action ops s retain) p acc =
    Some (Inr (acc @ collected H retain d p t))"
  using assms(2-)
proof (induction t arbitrary: d p acc)
  case Tip
  then show ?case
    by (subst traverse.simps) simp
next
  case (Lf k v)
  have "tree_root H d (Lf k v) \<noteq> zero_key"
    using Lf.prems(3) nonzero_root by blast
  then show ?case
    using Lf.prems assms(1) by (subst traverse.simps)
      (simp add: get_node proofs_action_def stored_Lf value_node value_ok_def key_bytes_def Let_def del: tree_root.simps)
next
  case (Br l r)
  have wf: "wf_tree (Suc d) l" "wf_tree (Suc d) r"
    using Br.prems(1) by simp_all
  have st: "node_at s (tree_root H d (Br l r)) = branch_node (tree_root H (Suc d) l) (tree_root H (Suc d) r)"
    "stored H (node_at s) (Suc d) l" "stored H (node_at s) (Suc d) r"
    using Br.prems(2) stored_bit_tree [of H "node_at s" d True l r] by (simp_all add: bit_tree_def bit_node_def del: tree_root.simps)
  have nz: "tree_root H d (Br l r) \<noteq> zero_key" "nonzero H (Suc d) l" "nonzero H (Suc d) r"
    using Br.prems(3) nonzero_bit_tree [of H d True l r] by (simp_all add: bit_tree_def del: tree_root.simps)
  have act: "proofs_action ops s retain p ky (branch_node a b) x =
      Inr (if retain p then (True, x @ [\<lparr>pe_Path = p, pe_Proof = key_bytes a @ key_bytes b\<rparr>]) else (False, x))" for ky a b x
    by (simp add: proofs_action_def key_bytes_def)
  show ?case
    using Br.IH(1) [OF wf(1) st(2) nz(2)] Br.IH(2) [OF wf(2) st(3) nz(3)] nz(1) st(1) assms(1)
    by (subst traverse.simps) (simp add: get_node act del: tree_root.simps)
qed

lemma BuildProofs_collects:
  assumes "invar s" "db_GetLastRoot ops s = Inr (ToBigInt (tree_root H 0 t))" "holds H (node_at s) t"
  shows "BuildProofs ops s retain (\<lambda>_. None) = Some (Inr (collected H retain 0 [] t))"
  using traverse_collects [OF assms(1), of 0 t H retain "[]" "[]"] assms(2,3) by (simp add: BuildProofs_def holds_def)

end

definition on_path :: "node_key \<Rightarrow> smt_proof_element \<Rightarrow> bool" where
  "on_path k e \<longleftrightarrow> take (length (pe_Path e)) (path_bytes k) = pe_Path e"

lemma on_path_simp [simp]: "on_path k \<lparr>pe_Path = p, pe_Proof = x\<rparr> \<longleftrightarrow> take (length p) (path_bytes k) = p"
  by (simp add: on_path_def)

lemma take_snoc: "take (Suc (length p)) xs = p @ [b] \<Longrightarrow> take (length p) xs = p"
  by (drule arg_cong [where f = "take (length p)"]) (simp add: min_def)

lemma collected_off_path: "take (length p) (path_bytes k) \<noteq> p \<Longrightarrow> filter (on_path k) (collected H retain d p t) = []"
proof (induction t arbitrary: d p)
  case (Br l r)
  have "take (length (p @ [b])) (path_bytes k) \<noteq> p @ [b]" for b
    using Br.prems take_snoc [of p "path_bytes k" b] by auto
  then show ?case
    using Br by simp
qed auto

lemma collected_on_path:
  assumes "\<And>e. e \<le> 256 \<Longrightarrow> retain (take e (path_bytes k))"
  shows "wf_tree d t \<Longrightarrow> d \<le> 256 \<Longrightarrow> map pe_Proof (filter (on_path k) (collected H retain d (take d (path_bytes k)) t)) = key_proof H d k t"
proof (induction t arbitrary: d)
  case (Br l r)
  then have d: "d < 256" "wf_tree (Suc d) l" "wf_tree (Suc d) r"
    by simp_all
  have off: "filter (on_path k) (collected H retain (Suc d) (take d (path_bytes k) @ [of_bool (\<not> kbit k d)]) t) = []" for t
    using d(1) by (intro collected_off_path) (simp add: path_bytes_Suc del: take_append)
  have on: "take d (path_bytes k) @ [of_bool (kbit k d)] = take (Suc d) (path_bytes k)"
    using d(1) by (simp add: path_bytes_Suc)
  show ?case
    using Br.IH(1) [OF d(2)] Br.IH(2) [OF d(3)] d(1) assms [of d] off [of l] off [of r] on
    by (cases "kbit k d") simp_all
qed (use assms in \<open>auto simp: min_def\<close>)


section \<open>One step of the verification\<close>

definition left_key :: "bytes \<Rightarrow> node_key" where
  "left_key p = bytes_key (take 32 p)"

definition right_key :: "bytes \<Rightarrow> node_key" where
  "right_key p = bytes_key (take 32 (drop 32 p))"

definition proof_input :: "bytes \<Rightarrow> u64 list \<times> node_key" where
  "proof_input p = (ConcatArrays4 (left_key p) (right_key p), if length p = 65 then LeafCapacity else BranchCapacity)"

lemma verify_loop_short: "length p < 64 \<Longrightarrow> verify_loop H path key (p # ps) i cur \<noteq> Inr r"
  by (auto simp: slice_res_def Let_def res_bind_eq_Inr)

lemma verify_loop_step:
  assumes "64 \<le> length p"
  shows "verify_loop H path key (p # ps) i cur =
    (if cur \<noteq> case_prod H (proof_input p) then Inl (Error (''root mismatch at level '' @ big_Text 10 (int i)))
     else if length p \<noteq> 65 then
       res_bind (nth_res path i) (\<lambda>b.
       let cur = (if b = 0 then left_key p else right_key p) in
       if cur = zero_key then Inr None else verify_loop H path key ps (Suc i) cur)
     else
       res_bind (slice_res path 0 i) (\<lambda>usedBits.
       if JoinKey usedBits (left_key p) = key then Inr (Some (Some (right_key p))) else Inr None))"
  using assms unfolding proof_input_def left_key_def right_key_def bytes_key_def
  by (simp add: slice_res_def [of p] Let_def Hash_def)

lemma verify_loop_cases:
  assumes "verify_loop H path key ps i cur = Inr r" "r \<noteq> Some None"
  obtains p ps' where "ps = p # ps'" "64 \<le> length p" "cur = case_prod H (proof_input p)"
proof (cases ps)
  case Nil
  then show ?thesis
    using assms by simp
next
  case (Cons p ps')
  then have "64 \<le> length p"
    using assms(1) verify_loop_short not_less by blast
  then show ?thesis
    using assms(1) Cons by (intro that) (auto simp only: verify_loop_step sum.distinct split: if_splits)
qed

declare verify_loop.simps(2) [simp del]

lemma keys_of_node [simp]: "left_key (key_bytes a @ key_bytes b @ c) = a" "right_key (key_bytes a @ key_bytes b @ c) = b"
  by (simp_all add: left_key_def right_key_def)

lemma keys_of_branch [simp]: "left_key (key_bytes a @ key_bytes b) = a" "right_key (key_bytes a @ key_bytes b) = b"
  using keys_of_node [of a b "[]"] by simp_all

section \<open>Proofs of a tree verify\<close>

lemma verify_key_proof:
  assumes "wf_tree d t" "nonzero H d t" "below d k t" "t \<noteq> Tip" "d \<le> 256"
  shows "verify_loop H (GetPath k) k (key_proof H d k t) d (tree_root H d t) =
    Inr (map_option (\<lambda>v. Some (H v BranchCapacity)) (tree_lookup d t k))"
  using assms
proof (induction t arbitrary: d)
  case (Lf k' v)
  have "JoinKey (take d (GetPath k)) (RemoveKeyBits k' d) = k'"
    using Lf.prems by (intro JoinKey_prefix) simp_all
  then show ?case
    using Lf.prems(5) by (simp add: verify_loop_step proof_input_def slice_res_def)
next
  case (Br l r)
  have d: "d < 256" "wf_tree (Suc d) l" "wf_tree (Suc d) r"
    using Br.prems(1) by simp_all
  have nz: "nonzero H (Suc d) l" "nonzero H (Suc d) r"
    using Br.prems(2) nonzero_bit_tree [of H d True l r] by (simp_all add: bit_tree_def)
  have child: "kbit k d \<Longrightarrow> below (Suc d) k r" "\<not> kbit k d \<Longrightarrow> below (Suc d) k l"
    using below_child [OF Br.prems(1,3)] by blast+
  show ?case
    using Br.IH(1) [OF d(2) nz(1)] Br.IH(2) [OF d(3) nz(2)] child d(1) nonzero_root [OF nz(1)] nonzero_root [OF nz(2)]
    by (cases "kbit k d") (auto simp: verify_loop_step proof_input_def)
qed simp

lemma last_key_proof: "tree_lookup d t k = Some v \<Longrightarrow> last (key_proof H d k t) = big_Bytes (value_int v) \<and> key_proof H d k t \<noteq> []"
  by (induction t arbitrary: d) (auto split: if_splits)

text \<open>The values that scalars have: eight words of 32 bits.\<close>

lemma limbs_ArrayBigToScalar: "list_all (\<lambda>x. 0 \<le> x \<and> x < 2 ^ 32) xs \<Longrightarrow> limbs (length xs) (ArrayBigToScalar xs) = xs"
proof (induction xs)
  case (Cons x xs)
  have "(ArrayBigToScalar xs * 2 ^ 32 + x) mod 2 ^ 32 = x" "(ArrayBigToScalar xs * 2 ^ 32 + x) div 2 ^ 32 = ArrayBigToScalar xs"
    using Cons.prems by simp_all
  then show ?case
    using Cons by (simp add: limbs_Suc drop_bit_eq_div)
qed (simp add: limbs_def)

lemma int_words_value_int:
  assumes "length v = 8" "\<forall>w \<in> set v. w < 2 ^ 32"
  shows "int_words (value_int v) = v"
proof -
  have "uint w < 2 ^ 32" if "w \<in> set v" for w
    using assms(2) that by (auto simp: word_less_def)
  then have "limbs 8 (value_int v) = map uint v"
    using limbs_ArrayBigToScalar [of "map uint v"] assms(1) by (simp add: value_int_def list_all_iff)
  then have "int_words (value_int v) = map (\<lambda>x. opt_Uint64 (Some x)) (map uint v)"
    unfolding int_words_def words_def ToUintArray_def ScalarToArrayBig_limbs by simp
  then show ?thesis
    by (simp add: comp_def)
qed

section \<open>Proofs that verify are true\<close>

definition verify_inputs :: "bytes list \<Rightarrow> (u64 list \<times> node_key) set" where
  "verify_inputs ps = insert (int_words (big_SetBytes (last ps)), BranchCapacity) (proof_input ` set ps)"

definition hash_binds :: "poseidon \<Rightarrow> (u64 list \<times> node_key) set \<Rightarrow> (u64 list \<times> node_key) set \<Rightarrow> bool" where
  "hash_binds H X Y \<longleftrightarrow> (\<forall>x \<in> X. case_prod H x \<noteq> zero_key \<and> (\<forall>y \<in> Y. case_prod H x = case_prod H y \<longrightarrow> x = y))"

lemma hash_binds_mono: "hash_binds H X Y \<Longrightarrow> X' \<subseteq> X \<Longrightarrow> Y' \<subseteq> Y \<Longrightarrow> hash_binds H X' Y'"
  unfolding hash_binds_def by blast

lemma hash_binds_input:
  "hash_binds H (proof_input ` set (p # ps)) Y \<Longrightarrow> case_prod H y = case_prod H (proof_input p) \<Longrightarrow> y \<in> Y \<Longrightarrow> proof_input p = y"
  unfolding hash_binds_def by (metis image_insert insertI1 list.simps(15))

lemma capacities_differ [simp]: "LeafCapacity \<noteq> BranchCapacity" "BranchCapacity \<noteq> LeafCapacity"
  by (simp_all add: LeafCapacity_def BranchCapacity_def)

lemma verify_loop_sound:
  assumes "hash_binds H (proof_input ` set ps) (tree_nodes H d t)" "wf_tree d t" "nonzero H d t" "below d k t" "d \<le> 256"
    and "verify_loop H (GetPath k) k ps d (tree_root H d t) = Inr r" "r \<noteq> Some None"
  shows "r = map_option (\<lambda>v. Some (H v BranchCapacity)) (tree_lookup d t k)"
  using assms
proof (induction t arbitrary: d ps)
  case Tip
  obtain p ps' where ps: "ps = p # ps'" "64 \<le> length p" and h: "tree_root H d Tip = case_prod H (proof_input p)"
    using Tip.prems(6,7) by (rule verify_loop_cases)
  have "case_prod H (proof_input p) \<noteq> zero_key"
    using Tip.prems(1) by (simp add: hash_binds_def ps(1))
  then show ?case
    using h by simp
next
  case (Lf k' v)
  obtain p ps' where ps: "ps = p # ps'" "64 \<le> length p" and h: "tree_root H d (Lf k' v) = case_prod H (proof_input p)"
    using Lf.prems(6,7) by (rule verify_loop_cases)
  have "proof_input p = leaf_pre H d k' v"
    using Lf.prems(1) h by (intro hash_binds_input [where H = H and ps = ps' and Y = "tree_nodes H d (Lf k' v)"]) (simp_all add: ps(1))
  then have "length p = 65" "left_key p = RemoveKeyBits k' d" "right_key p = H v BranchCapacity"
    by (auto simp: proof_input_def split: if_splits)
  moreover have "JoinKey (take d (GetPath k)) (RemoveKeyBits k' d) = k'"
    using Lf.prems by (intro JoinKey_prefix) simp_all
  ultimately show ?case
    using Lf.prems(5,6) by (auto simp: ps verify_loop_step slice_res_def split: if_splits)
next
  case (Br l r')
  obtain p ps' where ps: "ps = p # ps'" "64 \<le> length p" and h: "tree_root H d (Br l r') = case_prod H (proof_input p)"
    using Br.prems(6,7) by (rule verify_loop_cases)
  have "proof_input p = branch_pre H d l r'"
    using Br.prems(1) h by (intro hash_binds_input [where H = H and ps = ps' and Y = "tree_nodes H d (Br l r')"]) (simp_all add: ps(1) branch_pre_def)
  then have p: "length p \<noteq> 65" "left_key p = tree_root H (Suc d) l" "right_key p = tree_root H (Suc d) r'"
    by (auto simp: proof_input_def branch_pre_def split: if_splits)
  have d: "d < 256" "wf_tree (Suc d) l" "wf_tree (Suc d) r'"
    using Br.prems(2) by simp_all
  have nz: "nonzero H (Suc d) l" "nonzero H (Suc d) r'"
    using Br.prems(3) nonzero_bit_tree [of H d True l r'] by (simp_all add: bit_tree_def)
  have child: "kbit k d \<Longrightarrow> below (Suc d) k r'" "\<not> kbit k d \<Longrightarrow> below (Suc d) k l"
    using below_child [OF Br.prems(2,4)] by blast+
  have binds: "hash_binds H (proof_input ` set ps') (tree_nodes H (Suc d) l)" "hash_binds H (proof_input ` set ps') (tree_nodes H (Suc d) r')"
    using Br.prems(1) by (auto elim!: hash_binds_mono simp: ps)
  show ?case
  proof (cases "kbit k d")
    case True
    then show ?thesis
      using Br.prems(6,7) Br.IH(2) [OF binds(2) d(3) nz(2) child(1)] d(1) p nonzero_root [OF nz(2)]
      by (cases "r' = Tip") (auto simp: ps verify_loop_step Let_def split: if_splits)
  next
    case False
    then show ?thesis
      using Br.prems(6,7) Br.IH(1) [OF binds(1) d(2) nz(1) child(2)] d(1) p nonzero_root [OF nz(1)]
      by (cases "l = Tip") (auto simp: ps verify_loop_step Let_def split: if_splits)
  qed
qed

lemma tree_nodes_lookup: "tree_lookup d t k = Some v \<Longrightarrow> (v, BranchCapacity) \<in> tree_nodes H d t"
  by (induction t arbitrary: d) (auto split: if_splits)


lemma value_int_nonneg [simp]: "0 \<le> value_int v"
  unfolding value_int_def by (induction v) simp_all

lemma Verify_key_proof:
  assumes "wf_tree 0 t" "nonzero H 0 t" "t \<noteq> Tip" "\<forall>v. tree_lookup 0 t k = Some v \<longrightarrow> length v = 8 \<and> (\<forall>w \<in> set v. w < 2 ^ 32)"
  shows "VerifyAndGetVal H (tree_root H 0 t) (key_proof H 0 k t) k = Inr (map_option (\<lambda>v. big_Bytes (value_int v)) (tree_lookup 0 t k))"
proof -
  have loop: "verify_loop H (GetPath k) k (key_proof H 0 k t) 0 (tree_root H 0 t) =
      Inr (map_option (\<lambda>v. Some (H v BranchCapacity)) (tree_lookup 0 t k))"
    using assms by (intro verify_key_proof) simp_all
  have ne: "key_proof H 0 k t \<noteq> []"
    using assms(3) by (cases t) auto
  show ?thesis
  proof (cases "tree_lookup 0 t k")
    case None
    then show ?thesis
      using loop ne by (simp add: VerifyAndGetVal_def)
  next
    case (Some v)
    have v: "last (key_proof H 0 k t) = big_Bytes (value_int v)"
      using last_key_proof [OF Some] by simp
    moreover have "words (int_value (value_int v)) = v"
      using int_words_value_int assms(4) Some by simp
    ultimately show ?thesis
      using loop ne Some by (simp add: VerifyAndGetVal_def Hash_def big_SetBytes_Bytes int_value_def [symmetric] words_def [symmetric])
  qed
qed

lemma lookup_length: "wf_tree d t \<Longrightarrow> tree_lookup d t k = Some v \<Longrightarrow> length v = 8"
  by (induction t arbitrary: d) (auto simp: value_ok_def split: if_splits)

section \<open>Properties\<close>

text \<open>
  C39. Proofs of the tree verify. On a database that holds a non-empty tree, with a decider that retains the nodes on
  the path of a key, \<^verbatim>\<open>BuildProofs\<close> returns, and \<^verbatim>\<open>VerifyAndGetVal\<close> accepts what \<^verbatim>\<open>FilterProofs\<close> selects for the key against the
  root of the tree: it returns the bytes of the value if the key is in the tree and nil if it is not. The value has words of 32 bits,
  as all values inserted as scalars have.
\<close>

theorem BuildProofs_verify:
  assumes "db_holds H s t" "t \<noteq> Tip" "\<forall>d \<le> 256. retain (take d (path_bytes k))"
    and "\<forall>v. tree_lookup 0 t k = Some v \<longrightarrow> (\<forall>w \<in> set v. w < 2 ^ 32)"
  shows "\<exists>proofs. BuildProofs mem_ops s retain (\<lambda>_. None) = Some (Inr proofs) \<and>
    VerifyAndGetVal H (tree_root H 0 t) (FilterProofs proofs k) k =
      Inr (map_option (\<lambda>v. big_Bytes (value_int v)) (tree_lookup 0 t k))"
proof -
  have t: "mem_invar s" "mem_GetLastRoot s = Inr (ToBigInt (tree_root H 0 t))" "holds H (mem_node_at s) t" "wf_tree 0 t" "nonzero H 0 t"
    using assms(1) by (simp_all add: db_holds_def holds_def)
  have "FilterProofs (collected H retain 0 [] t) k = key_proof H 0 k t"
    using collected_on_path [of retain k 0 t H] assms(3) t(4) by (simp add: FilterProofs_def path_bytes_def [symmetric] on_path_def [abs_def])
  moreover have "VerifyAndGetVal H (tree_root H 0 t) (key_proof H 0 k t) k = Inr (map_option (\<lambda>v. big_Bytes (value_int v)) (tree_lookup 0 t k))"
    using assms(2,4) t(4,5) lookup_length [OF t(4)] by (intro Verify_key_proof) blast+
  ultimately show ?thesis
    using mem.BuildProofs_collects [of s H t retain] t by simp
qed

theorem BuildProofs_verify_witness:
  "\<exists>s' proofs. SetAccountState poly_hash NewMemDb ''0x0'' 5 1 =
      Inr (ToBigInt (tree_root poly_hash 0 (run_tree Tip (account_entries poly_hash 0 5 1))), s') \<and>
    BuildProofs mem_ops s' (\<lambda>_. True) (\<lambda>_. None) = Some (Inr proofs) \<and>
    VerifyAndGetVal poly_hash (tree_root poly_hash 0 (run_tree Tip (account_entries poly_hash 0 5 1)))
      (FilterProofs proofs (account_key poly_hash 0 KEY_BALANCE)) (account_key poly_hash 0 KEY_BALANCE) = Inr (Some (big_Bytes 5))"
proof -
  let ?t = "run_tree Tip (account_entries poly_hash 0 5 1)"
  have "ConvertHexToBigInt ''0x0'' = Some 0"
    by (simp add: ConvertHexToBigInt_def TrimPrefix_def big_SetString_def parse_nat_def digit_val_hex)
  then obtain s' where s': "SetAccountState poly_hash NewMemDb ''0x0'' 5 1 = Inr (ToBigInt (tree_root poly_hash 0 ?t), s')"
    "db_holds poly_hash s' ?t"
    using SetAccountState_holds [OF _ db_holds_NewMemDb example_run] by blast
  have t: "?t = Br (Lf (NodeKey 1646628625733575814 1 0 0) [1, 0, 0, 0, 0, 0, 0, 0]) (Lf (NodeKey 1646628625704946663 1 0 0) [5, 0, 0, 0, 0, 0, 0, 0])"
    by (simp add: run_tree_def account_entries_def example_keys example_words tree_update_def tree_split_here kbit_def bit_tree_def)
  have "\<exists>proofs. BuildProofs mem_ops s' (\<lambda>_. True) (\<lambda>_. None) = Some (Inr proofs) \<and>
    VerifyAndGetVal poly_hash (tree_root poly_hash 0 ?t) (FilterProofs proofs (account_key poly_hash 0 KEY_BALANCE)) (account_key poly_hash 0 KEY_BALANCE) =
      Inr (map_option (\<lambda>v. big_Bytes (value_int v)) (tree_lookup 0 ?t (account_key poly_hash 0 KEY_BALANCE)))"
    using s'(2) by (rule BuildProofs_verify) (auto simp: t example_keys kbit_def)
  moreover have "map_option (\<lambda>v. big_Bytes (value_int v)) (tree_lookup 0 ?t (account_key poly_hash 0 KEY_BALANCE)) = Some (big_Bytes 5)"
    by (simp add: t example_keys kbit_def value_int_def)
  ultimately show ?thesis
    using s'(1) by auto
qed

text \<open>
  C40. A proof that verifies is true of the tree. If \<^verbatim>\<open>VerifyAndGetVal\<close> accepts any proof against the root of a well-formed
  tree, then the tree holds the value it returns, read modulo \<open>2 ^ 256\<close>, at the key, and does not hold the key if it returns
  nil; provided the hash separates the inputs that the verification hashes from the nodes of the tree and sends none to zero.
\<close>

theorem VerifyAndGetVal_sound:
  assumes "wf_tree 0 t" "nonzero H 0 t" "hash_binds H (verify_inputs ps) (tree_nodes H 0 t)"
    and "VerifyAndGetVal H (tree_root H 0 t) ps k = Inr r"
  shows "tree_lookup 0 t k = map_option (\<lambda>val. int_words (big_SetBytes val)) r"
proof -
  obtain found where found: "verify_loop H (GetPath k) k ps 0 (tree_root H 0 t) = Inr found" "found \<noteq> Some None"
    using assms(4) by (auto simp: VerifyAndGetVal_def res_bind_eq_Inr split: if_splits option.splits)
  have "found = map_option (\<lambda>v. Some (H v BranchCapacity)) (tree_lookup 0 t k)"
    using assms(1-3) found by (intro verify_loop_sound [of H ps 0 t k]) (auto simp: verify_inputs_def elim!: hash_binds_mono)
  moreover have "v = int_words (big_SetBytes (last ps))"
    if "tree_lookup 0 t k = Some v" "H (int_words (big_SetBytes (last ps))) BranchCapacity = H v BranchCapacity" for v
    using assms(3) tree_nodes_lookup [OF that(1), of H] that(2) by (auto simp: hash_binds_def verify_inputs_def)
  ultimately show ?thesis
    using assms(4) found
    by (cases "tree_lookup 0 t k")
      (auto simp: VerifyAndGetVal_def Hash_def int_value_def [symmetric] words_def [symmetric] split: if_splits)
qed


text \<open>The tree with one leaf and its proof.\<close>

definition one_leaf :: smt_tree where
  "one_leaf = Lf (NodeKey 1 0 0 0) [5, 0, 0, 0, 0, 0, 0, 0]"

lemma one_leaf_inputs:
  "verify_inputs (key_proof poly_hash 0 (NodeKey 1 0 0 0) one_leaf) =
    {([5, 0, 0, 0, 0, 0, 0, 0], BranchCapacity),
     (ConcatArrays4 (NodeKey 1 0 0 0) (poly_hash [5, 0, 0, 0, 0, 0, 0, 0] BranchCapacity), LeafCapacity)}"
proof -
  have five: "value_int [5, 0, 0, 0, 0, 0, 0, 0] = 5" "big_SetBytes (big_Bytes 5) = 5"
    by (simp_all add: value_int_def big_SetBytes_Bytes)
  have "big_Bytes 5 = [5]"
    by (simp add: big_Bytes_def nat_bytes_step)
  then have "proof_input (big_Bytes 5) = ([5, 0, 0, 0, 0, 0, 0, 0], BranchCapacity)"
    by (simp add: proof_input_def left_key_def right_key_def bytes_key_def ScalarToArray_def mk_key_def ConcatArrays4_def
        big_SetBytes_def Let_def big_Uint64_def)
  then show ?thesis
    by (auto simp: verify_inputs_def one_leaf_def five example_words) (simp_all add: proof_input_def)
qed

theorem VerifyAndGetVal_sound_witness:
  "tree_lookup 0 one_leaf (NodeKey 1 0 0 0) = Some (int_words (big_SetBytes (big_Bytes 5)))"
proof -
  have "wf_tree 0 one_leaf"
    by (simp add: one_leaf_def value_ok_def)
  moreover have "hash_binds poly_hash (verify_inputs (key_proof poly_hash 0 (NodeKey 1 0 0 0) one_leaf)) (tree_nodes poly_hash 0 one_leaf)"
    unfolding one_leaf_inputs hash_binds_def by (simp add: one_leaf_def poly_hash_simps zero_key_def)
  moreover have "VerifyAndGetVal poly_hash (tree_root poly_hash 0 one_leaf) (key_proof poly_hash 0 (NodeKey 1 0 0 0) one_leaf) (NodeKey 1 0 0 0) =
      Inr (Some (big_Bytes 5))"
    using Verify_key_proof [of one_leaf poly_hash "NodeKey 1 0 0 0"] by (simp add: one_leaf_def value_ok_def value_int_def)
  ultimately show ?thesis
    using VerifyAndGetVal_sound [of one_leaf poly_hash _ "NodeKey 1 0 0 0" "Some (big_Bytes 5)"] by simp
qed

end
