(* ===== verification/Spec2Isabelle.thy ===== *)
theory Spec2Isabelle
  imports Smt_Store L1_Info_Tree Zk_Precompiles Rlp_Decode Rlp_Writers L2_Blocks Zk_Batch_Sums Smt_Proofs
begin

text \<open>
  A verification development of cdk-erigon, the Erigon node with the zkEVM extensions of Polygon CDK. It covers the
  parts of the node whose result other parties must reproduce bit by bit: the sparse Merkle tree over the state, the tree
  of L1 information, the counters that bound what a batch may cost the prover, the RLP codec and the batches on L1.

  \<^bold>\<open>The model.\<close> The Go code is translated function by function into executable definitions that keep its names. A
  struct is a record, a constant list a datatype, \<^verbatim>\<open>int\<close>, \<^verbatim>\<open>uint64\<close> and the other fixed-width integers are words that
  wrap around, \<^verbatim>\<open>*big.Int\<close> is an integer, a slice a list. An error and a panic are values (\<^verbatim>\<open>Go_Prelude\<close>); a method
  that changes its receiver returns the new state. Hash functions (Poseidon, Keccak) and the node store are not part of
  the sources and are arguments of the definitions; what is needed of them is a hypothesis of the theorem or the law of
  a locale. A loop whose end is not evident is a \<^verbatim>\<open>partial_function\<close> with the value \<^verbatim>\<open>None\<close> for not returning, or
  takes a number of rounds; that it returns is then a theorem of its own.

  \<^bold>\<open>Shared theories.\<close> \<^verbatim>\<open>Go_Prelude\<close> has the types, results and the number syntax of Go, \<^verbatim>\<open>Go_Bytes\<close> slices that
  may panic and big-endian words, \<^verbatim>\<open>Go_Text\<close> hexadecimal texts, \<^verbatim>\<open>Go_Float\<close> the \<^verbatim>\<open>float64\<close> operations as rounding on
  rationals. \<^verbatim>\<open>Eth_Tx\<close> has the transactions that the counters and the batches read.

  \<^bold>\<open>Sparse Merkle tree\<close> (\<^verbatim>\<open>src/smt/pkg/smt/smt.go\<close>, \<^verbatim>\<open>src/smt/pkg/utils/utils.go\<close>, \<^verbatim>\<open>src/smt/pkg/db/mem-db.go\<close>).
  \<^verbatim>\<open>Smt_Utils\<close> and \<^verbatim>\<open>Smt_Keys\<close> model node keys and values and the paths of keys; \<^verbatim>\<open>Smt_Db\<close> the interface \<^verbatim>\<open>DB\<close> as a
  locale and \<^verbatim>\<open>MemDb\<close> as its interpretation; \<^verbatim>\<open>Smt_Insert\<close> the function \<^verbatim>\<open>SMT.insert\<close> with its seven modes. \<^verbatim>\<open>Smt_Tree\<close>
  is the abstract tree. \<^verbatim>\<open>Smt_Nodes\<close>, \<^verbatim>\<open>Smt_Walk\<close>, \<^verbatim>\<open>Smt_Rehash\<close>, \<^verbatim>\<open>Smt_Modes\<close>, \<^verbatim>\<open>Smt_Delete\<close> and \<^verbatim>\<open>Smt_Refine\<close> prove that an
  insertion refines the update of the abstract tree, \<^verbatim>\<open>Smt_Store\<close> that the root depends on the content alone.

  \<^bold>\<open>Accounts in the tree\<close> (\<^verbatim>\<open>entity_storage.go\<close>, \<^verbatim>\<open>smt_state_reader.go\<close> and \<^verbatim>\<open>proof.go\<close> in \<^verbatim>\<open>src/smt/pkg/smt\<close>). \<^verbatim>\<open>Smt_Accounts\<close> has
  the keys of balances, nonces, codes and storage, the hash of a code and the operations that set them; \<^verbatim>\<open>Smt_Reader\<close> the
  traversal and the state reader. \<^verbatim>\<open>Smt_Bytecode\<close> proves what the hash of a code absorbs and that it binds the code,
  \<^verbatim>\<open>Smt_State\<close> that what is set is read, and what is read where nothing was set. \<^verbatim>\<open>Smt_Proofs\<close> has the Merkle proofs:
  those of a tree verify, and a proof that verifies is true of the tree. The operations run on \<^verbatim>\<open>MemDb\<close>; its key sources
  are shown to be kept by insertions through a second interpretation of the locale of \<^verbatim>\<open>Smt_Db\<close>.

  \<^bold>\<open>L1 info tree\<close> (\<^verbatim>\<open>src/zk/l1infotree\<close>): \<^verbatim>\<open>L1_Info_Tree\<close>. The incremental \<^verbatim>\<open>AddLeaf\<close>, the rebuilding
  \<^verbatim>\<open>BuildL1InfoRoot\<close> and \<^verbatim>\<open>ComputeMerkleProof\<close> agree with the root of the padded complete tree.

  \<^bold>\<open>zk counters\<close> (\<^verbatim>\<open>src/core/vm/zk_counters.go\<close>, \<^verbatim>\<open>zk_counters_limits.go\<close>, \<^verbatim>\<open>virtual_counters_util.go\<close>).
  \<^verbatim>\<open>Zk_Counters\<close> has the collector, \<^verbatim>\<open>Zk_Charges\<close> and \<^verbatim>\<open>Zk_Opcodes\<close> the charges of the helpers and of all opcodes,
  \<^verbatim>\<open>Zk_Limits\<close> the limits per fork and \<^verbatim>\<open>Zk_Precompiles\<close> the charges that look at operands. Every charge only moves
  amounts from remaining to used, so the verdict of \<^verbatim>\<open>isOverflown\<close> is what it should be. \<^verbatim>\<open>Zk_Batch\<close> has the collectors of transactions and
  batches (\<^verbatim>\<open>zk_transaction_counters.go\<close>, \<^verbatim>\<open>zk_batch_counters.go\<close>), with the transactions in a store because the sequencer goes
  on changing them after they are added; \<^verbatim>\<open>Zk_Batch_Sums\<close> proves, over all runs of the step relation of the
  sequencer's calls, that the running sums of a batch are the sums over its parts, what the counters stored for
  it contain, and that no collector can be copied.

  \<^bold>\<open>RLP\<close> (\<^verbatim>\<open>src/rlp\<close>). \<^verbatim>\<open>Rlp\<close> has the buffered encoder and the splitter, \<^verbatim>\<open>Rlp_Writers\<close> the writers of single values,
  \<^verbatim>\<open>Rlp_Stream\<close> the stream decoder and \<^verbatim>\<open>Rlp_Decode\<close> the decoders on top of it: what is accepted is exactly what the
  encoder writes, decoding returns and never panics.

  \<^bold>\<open>Batch data\<close> (\<^verbatim>\<open>src/zk/tx/tx.go\<close>, legacy transactions of \<^verbatim>\<open>src/core/types\<close>). \<^verbatim>\<open>L2_Data\<close> has the reader
  \<^verbatim>\<open>DecodeBatchL2Blocks\<close>, which is built on the RLP decoder, and the writer \<^verbatim>\<open>GenerateBlockBatchL2Data\<close>, which is built
  on the encoder; \<^verbatim>\<open>L2_Blocks\<close> proves that what is written is read back, and what happens to other inputs.

  \<^bold>\<open>Bounds.\<close> Slices have fewer than 2^62 or 2^63 bytes, as every Go slice has. The rounds given to a decoder are
  enough when they exceed the length of the input (twice the length for trees), and the theorems say so. Codes have less
  than 2^50 bytes, so that the number of their blocks is exact in floating point. The padding loop of a code and the
  traversal of a store are partial functions; that they return is part of the theorems about them.

  \<^bold>\<open>Not modelled.\<close> Networking, RPC, the command line, storage engines, snapshots, consensus engines, the light client
  and generated code are input and output or interfaces to other processes. The EVM interpreter itself, the transaction
  pool and the staged synchronisation drive the parts above and are not translated. Of the RLP package the choice of a
  codec by reflection (\<^verbatim>\<open>typecache.go\<close>, \<^verbatim>\<open>makeWriter\<close>, \<^verbatim>\<open>makeDecoder\<close>) is left out; of the tree package the batch
  insertion with \<^verbatim>\<open>SetStorage\<close>, which mutates a tree of pointers from several goroutines, the witness, whose format is
  that of \<^verbatim>\<open>src/turbo/trie\<close>, and the database on MDBX. The hashes of L2 transactions and the tables of
  \<^verbatim>\<open>src/zk/hermez_db\<close> are not translated.
\<close>

end
